(* ===== verification/Prelude.thy ===== *)
theory Prelude
  imports Main "HOL-Library.Word" "HOL-Library.Signed_Division" "HOL-Library.Multiset" "HOL-Library.AList"
begin

text \<open>
  The vocabulary the components share.

  \<^item> Signed 64-bit arithmetic.  \<^verbatim>\<open>Price\<close> and \<^verbatim>\<open>Quantity\<close> are \<^verbatim>\<open>std::int64_t\<close>; a value is
    an \<^typ>\<open>int\<close> and every operation of the source goes through \<open>wrap64\<close>, which writes the
    two's complement wrap-around out (C++ leaves signed overflow undefined; the wrapped value is
    what the usual compilers compute, and the bounds lemmas show which computations never need it).
    Unsigned values (\<^verbatim>\<open>std::uint64_t\<close>, \<^verbatim>\<open>std::uint32_t\<close>, \<^verbatim>\<open>std::size_t\<close>) are words.
  \<^item> List lemmas used by several components.
  \<^item> The locale \<open>invariant_system\<close>: an initial predicate, a step relation and an inductive
    invariant; every stateful component interprets it on its own operations.
\<close>

named_theorems i64_simps \<open>arithmetic of wrapped signed 64-bit values\<close>

section \<open>Signed 64-bit integers\<close>

definition wrap64 :: "int \<Rightarrow> int" where
  "wrap64 x = (x + 2 ^ 63) mod 2 ^ 64 - 2 ^ 63"

definition i64_ok :: "int \<Rightarrow> bool" where
  "i64_ok x \<longleftrightarrow> - (2 ^ 63) \<le> x \<and> x < 2 ^ 63"

abbreviation I64_MAX :: int where
  "I64_MAX \<equiv> 2 ^ 63 - 1"

abbreviation add64 :: "int \<Rightarrow> int \<Rightarrow> int" where
  "add64 a b \<equiv> wrap64 (a + b)"

abbreviation sub64 :: "int \<Rightarrow> int \<Rightarrow> int" where
  "sub64 a b \<equiv> wrap64 (a - b)"

abbreviation mul64 :: "int \<Rightarrow> int \<Rightarrow> int" where
  "mul64 a b \<equiv> wrap64 (a * b)"

lemma wrap64_id [simp, i64_simps]: "i64_ok x \<Longrightarrow> wrap64 x = x"
  by (simp add: wrap64_def i64_ok_def)

lemma wrap64_ok [simp, intro]: "i64_ok (wrap64 x)"
proof -
  have "0 \<le> (x + 2 ^ 63) mod 2 ^ 64" and "(x + 2 ^ 63) mod 2 ^ 64 < 2 ^ 64"
    by (rule pos_mod_sign pos_mod_bound; simp)+
  then show ?thesis by (simp add: wrap64_def i64_ok_def)
qed

lemma wrap64_idem [simp]: "wrap64 (wrap64 x) = wrap64 x"
  by simp

lemma wrap64_cong: "x mod 2 ^ 64 = y mod 2 ^ 64 \<Longrightarrow> wrap64 x = wrap64 y"
  unfolding wrap64_def by (metis mod_add_left_eq)

lemma wrap64_mod: "wrap64 x mod 2 ^ 64 = x mod 2 ^ 64"
  unfolding wrap64_def by (simp add: mod_simps algebra_simps)

lemma wrap64_add_left [simp, i64_simps]: "wrap64 (wrap64 a + b) = wrap64 (a + b)"
  by (rule wrap64_cong) (metis mod_add_left_eq wrap64_mod)

lemma wrap64_add_right [simp, i64_simps]: "wrap64 (a + wrap64 b) = wrap64 (a + b)"
  by (metis add.commute wrap64_add_left)

lemma wrap64_diff_left [simp, i64_simps]: "wrap64 (wrap64 a - b) = wrap64 (a - b)"
  by (rule wrap64_cong) (metis mod_diff_left_eq wrap64_mod)

lemma wrap64_diff_right [simp, i64_simps]: "wrap64 (a - wrap64 b) = wrap64 (a - b)"
  by (rule wrap64_cong) (metis mod_diff_right_eq wrap64_mod)

lemma wrap64_bounds: "- (2 ^ 63) \<le> wrap64 x" "wrap64 x < 2 ^ 63"
  using wrap64_ok [of x] by (simp_all add: i64_ok_def)

lemma i64_okI: "- (2 ^ 63) \<le> x \<Longrightarrow> x < 2 ^ 63 \<Longrightarrow> i64_ok x"
  by (simp add: i64_ok_def)

lemma i64_ok_between: "0 \<le> x \<Longrightarrow> x \<le> y \<Longrightarrow> i64_ok y \<Longrightarrow> i64_ok x"
  by (simp add: i64_ok_def)

lemma i64_ok_0 [simp]: "i64_ok 0"
  by (simp add: i64_ok_def)

section \<open>Lists and maps\<close>

lemma takeWhile_dropWhile_concat:
  "concat (map f (takeWhile P xs)) @ concat (map f (dropWhile P xs)) = concat (map f xs)"
  by (metis concat_append map_append takeWhile_dropWhile_id)

lemma sum_list_nonneg_le:
  fixes xs :: "int list"
  assumes "\<forall>x \<in> set xs. 0 \<le> x" and "y \<in> set xs"
  shows "y \<le> sum_list xs"
  using assms member_le_sum_list by (metis)

lemma foldl_wrap_add:
  "foldl (\<lambda>a x. wrap64 (a + f x)) (wrap64 s) xs = wrap64 (s + (\<Sum>x\<leftarrow>xs. f x))"
  by (induction xs arbitrary: s) (simp_all add: add.assoc)

lemma sorted_wrt_takeWhile: "sorted_wrt R xs \<Longrightarrow> sorted_wrt R (takeWhile P xs)"
  by (metis sorted_wrt_append takeWhile_dropWhile_id)

lemma sorted_wrt_dropWhile: "sorted_wrt R xs \<Longrightarrow> sorted_wrt R (dropWhile P xs)"
  by (metis sorted_wrt_append takeWhile_dropWhile_id)

lemma map_of_distinct_split:
  "distinct (map fst (xs @ (k, v) # ys)) \<Longrightarrow> map_of (xs @ (k, v) # ys) k = Some v"
  by (auto simp: map_add_Some_iff map_of_eq_None_iff)

text \<open>A sum over an association list after an update.\<close>

lemma sum_update:
  fixes f :: "'b \<Rightarrow> 'c::ab_group_add"
  assumes "distinct (map fst al)"
  shows "(\<Sum>(k, v)\<leftarrow>AList.update k v' al. f v) =
    (\<Sum>(k, v)\<leftarrow>al. f v) + f v' - (case map_of al k of None \<Rightarrow> 0 | Some v \<Rightarrow> f v)"
  using assms
proof (induction al)
  case (Cons a al)
  show ?case
  proof (cases "fst a = k")
    case True
    then have "map_of al k = None" using Cons.prems by (simp add: map_of_eq_None_iff)
    then show ?thesis using True by (cases a) simp
  next
    case False
    then show ?thesis using Cons by (cases a) (simp add: algebra_simps)
  qed
qed simp

lemma update_subset: "set (AList.update k v al) \<subseteq> insert (k, v) (set al)"
  by (induction al) auto

section \<open>Reachability and inductive invariants\<close>

text \<open>
  The interface between a component's operations and its invariant: the initial states satisfy the
  invariant and every step keeps it.  The consequence, that every reachable state satisfies it, is
  proved once.
\<close>

definition reachable :: "('s \<Rightarrow> bool) \<Rightarrow> ('s \<Rightarrow> 's \<Rightarrow> bool) \<Rightarrow> 's \<Rightarrow> bool" where
  "reachable init step s \<longleftrightarrow> (\<exists>s0. init s0 \<and> step\<^sup>*\<^sup>* s0 s)"

lemma reachable_init: "init s \<Longrightarrow> reachable init step s"
  by (auto simp: reachable_def)

lemma reachable_step: "reachable init step s \<Longrightarrow> step s t \<Longrightarrow> reachable init step t"
  unfolding reachable_def by (meson rtranclp.rtrancl_into_rtrancl)

locale invariant_system =
  fixes init :: "'s \<Rightarrow> bool"
    and step :: "'s \<Rightarrow> 's \<Rightarrow> bool"
    and inv :: "'s \<Rightarrow> bool"
  assumes init_inv: "init s \<Longrightarrow> inv s"
    and step_inv: "inv s \<Longrightarrow> step s t \<Longrightarrow> inv t"
begin

lemma steps_inv: "step\<^sup>*\<^sup>* s t \<Longrightarrow> inv s \<Longrightarrow> inv t"
  by (induction rule: rtranclp_induct) (auto intro: step_inv)

lemma reachable_inv: "reachable init step s \<Longrightarrow> inv s"
  unfolding reachable_def by (auto intro: steps_inv init_inv)

end

end
