(* ===== verification/Types.thy ===== *)
theory Types
  imports Prelude "HOL-Library.Char_ord" "HOL-Library.List_Lexorder"
begin

text \<open>
  \<^verbatim>\<open>src/common/types.hpp\<close> and \<^verbatim>\<open>src/common/constants.hpp\<close>: type aliases, enumerations, the
  fixed-size \<^verbatim>\<open>Symbol\<close> with its hash, and the plain structures passed between the modules.
  A structure is a record with the source's fields behind a short prefix (Isabelle record fields are
  global), a zero-initialised structure is its \<open>_default\<close> constant.  \<^verbatim>\<open>char cl_ord_id[20]\<close> is a
  string that is only ever copied as a whole.
\<close>

section \<open>Aliases and enumerations\<close>

type_synonym OrderId = "64 word"
type_synonym TraderId = "64 word"
type_synonym Price = int
type_synonym Quantity = int
type_synonym Timestamp = "64 word"

datatype OrderStatus =
  New | PartiallyFilled | Filled | Canceled | Rejected | PendingCancel | PendingReplace

datatype RejectReason =
  NoReason \<comment> \<open>the source's \<^verbatim>\<open>RejectReason::None\<close>\<close>
| UnknownSymbol | InvalidPrice | InvalidQuantity | PositionLimit | RateLimit
| SelfTradePrevention | KillSwitchActive | DuplicateOrderId | InsufficientLiquidity

datatype Side = Buy | Sell

datatype OrderType = Limit | Market

datatype TimeInForce = Day | IOC | FOK | GTC

section \<open>Symbols\<close>

text \<open>
  Eight characters, padded with zero bytes.  \<open>Symbol_of\<close> is the constructor from a C string:
  \<^verbatim>\<open>strlen\<close> stops at the first zero byte and at most \<^verbatim>\<open>MAX_LEN\<close> characters are copied.
\<close>

datatype Symbol = Symbol (sym_data: "char list")

abbreviation NUL :: char where "NUL \<equiv> CHR 0x00"

definition MAX_LEN :: nat where "MAX_LEN = 8"

definition Symbol_default :: Symbol where
  "Symbol_default = Symbol (replicate MAX_LEN NUL)"

definition Symbol_of :: "string \<Rightarrow> Symbol" where
  "Symbol_of s =
     (let c = takeWhile (\<lambda>x. x \<noteq> NUL) s;
          len = (if length c > MAX_LEN then MAX_LEN else length c)
      in Symbol (take len c @ drop len (sym_data Symbol_default)))"

definition to_string :: "Symbol \<Rightarrow> string" where
  "to_string s = takeWhile (\<lambda>x. x \<noteq> NUL) (sym_data s)"

definition Symbol_wf :: "Symbol \<Rightarrow> bool" where
  "Symbol_wf s \<longleftrightarrow> length (sym_data s) = MAX_LEN"

lemma Symbol_default_wf [simp]: "Symbol_wf Symbol_default"
  by (simp add: Symbol_wf_def Symbol_default_def)

lemma Symbol_of_wf [simp]: "Symbol_wf (Symbol_of s)"
  by (simp add: Symbol_wf_def Symbol_of_def Symbol_default_def Let_def MAX_LEN_def)

text \<open>Symbols are ordered by their characters, so that finite sets of them can be listed.\<close>

instantiation Symbol :: linorder
begin

definition less_eq_Symbol :: "Symbol \<Rightarrow> Symbol \<Rightarrow> bool" where
  "less_eq_Symbol a b \<longleftrightarrow> sym_data a \<le> sym_data b"

definition less_Symbol :: "Symbol \<Rightarrow> Symbol \<Rightarrow> bool" where
  "less_Symbol a b \<longleftrightarrow> sym_data a < sym_data b"

instance
  by standard (auto simp: less_eq_Symbol_def less_Symbol_def Symbol.expand)

end

text \<open>\<^verbatim>\<open>SymbolHash\<close>: the eight bytes read as a little-endian word, then a mixing step.\<close>

definition symbol_word :: "Symbol \<Rightarrow> 64 word" where
  "symbol_word s = word_of_int (horner_sum of_char 256 (sym_data s))"

definition symbol_hash :: "Symbol \<Rightarrow> 64 word" where
  "symbol_hash s =
     (let v = symbol_word s;
          v = xor v (drop_bit 33 v);
          v = v * 0xff51afd7ed558ccd;
          v = xor v (drop_bit 33 v)
      in v)"

section \<open>Constants\<close>

definition INVALID_ORDER_ID :: OrderId where "INVALID_ORDER_ID = 0"
definition MAX_DEPTH_LEVELS :: nat where "MAX_DEPTH_LEVELS = 20"
definition DEFAULT_L2_DEPTH :: nat where "DEFAULT_L2_DEPTH = 10"
definition MAX_L2_DEPTH :: nat where "MAX_L2_DEPTH = 20"
definition DEFAULT_POSITION_LIMIT :: Quantity where "DEFAULT_POSITION_LIMIT = 10000"
definition DEFAULT_ORDER_RATE_LIMIT :: "32 word" where "DEFAULT_ORDER_RATE_LIMIT = 1000"
definition DEFAULT_RATE_LIMIT_WINDOW_MS :: "32 word" where "DEFAULT_RATE_LIMIT_WINDOW_MS = 1000"

section \<open>Structures\<close>

definition empty_cl_ord_id :: string where
  "empty_cl_ord_id = replicate 20 NUL"

record Order =
  o_id :: OrderId
  o_trader_id :: TraderId
  o_symbol :: Symbol
  o_side :: Side
  o_type :: OrderType
  o_tif :: TimeInForce
  o_price :: Price
  o_quantity :: Quantity
  o_filled_qty :: Quantity
  o_status :: OrderStatus
  o_submit_time :: Timestamp
  o_accept_time :: Timestamp
  o_queue_position :: "32 word"
  o_cl_ord_id :: string

definition Order_default :: Order where
  "Order_default = \<lparr>o_id = INVALID_ORDER_ID, o_trader_id = 0, o_symbol = Symbol_default,
     o_side = Buy, o_type = Limit, o_tif = Day, o_price = 0, o_quantity = 0, o_filled_qty = 0,
     o_status = New, o_submit_time = 0, o_accept_time = 0, o_queue_position = 0,
     o_cl_ord_id = empty_cl_ord_id\<rparr>"

record CancelRequest =
  c_order_id :: OrderId
  c_trader_id :: TraderId
  c_symbol :: Symbol
  c_submit_time :: Timestamp
  c_cl_ord_id :: string

record ReplaceRequest =
  p_order_id :: OrderId
  p_trader_id :: TraderId
  p_symbol :: Symbol
  p_new_price :: Price
  p_new_qty :: Quantity
  p_submit_time :: Timestamp
  p_cl_ord_id :: string
  p_orig_cl_ord_id :: string

record Trade =
  t_trade_id :: "64 word"
  t_resting_id :: OrderId
  t_incoming_id :: OrderId
  t_resting_trader :: TraderId
  t_incoming_trader :: TraderId
  t_symbol :: Symbol
  t_aggressor_side :: Side
  t_price :: Price
  t_qty :: Quantity
  t_match_timestamp_ns :: Timestamp

record BookLevel =
  bl_price :: Price
  bl_qty :: Quantity
  bl_order_count :: "32 word"

definition BookLevel_default :: BookLevel where
  "BookLevel_default = \<lparr>bl_price = 0, bl_qty = 0, bl_order_count = 0\<rparr>"

record TopOfBook =
  tob_symbol :: Symbol
  tob_best_bid :: BookLevel
  tob_best_ask :: BookLevel
  tob_mid_price :: Price
  tob_micro_price :: Price
  tob_spread :: Price
  tob_timestamp :: Timestamp
  tob_valid :: bool

definition TopOfBook_default :: TopOfBook where
  "TopOfBook_default = \<lparr>tob_symbol = Symbol_default, tob_best_bid = BookLevel_default,
     tob_best_ask = BookLevel_default, tob_mid_price = 0, tob_micro_price = 0, tob_spread = 0,
     tob_timestamp = 0, tob_valid = False\<rparr>"

record ExecutionReport =
  r_order_id :: OrderId
  r_trader_id :: TraderId
  r_symbol :: Symbol
  r_side :: Side
  r_type :: OrderType
  r_status :: OrderStatus
  r_price :: Price
  r_order_qty :: Quantity
  r_filled_qty :: Quantity
  r_last_qty :: Quantity
  r_last_price :: Price
  r_leaves_qty :: Quantity
  r_transact_time :: Timestamp
  r_reject_reason :: RejectReason
  r_cl_ord_id :: string
  r_exec_id :: string

definition ExecutionReport_default :: ExecutionReport where
  "ExecutionReport_default = \<lparr>r_order_id = INVALID_ORDER_ID, r_trader_id = 0,
     r_symbol = Symbol_default, r_side = Buy, r_type = Limit, r_status = New, r_price = 0,
     r_order_qty = 0, r_filled_qty = 0, r_last_qty = 0, r_last_price = 0, r_leaves_qty = 0,
     r_transact_time = 0, r_reject_reason = NoReason, r_cl_ord_id = empty_cl_ord_id,
     r_exec_id = empty_cl_ord_id\<rparr>"

record DepthSnapshot =
  ds_symbol :: Symbol
  ds_bids :: "BookLevel list" \<comment> \<open>an array of \<open>MAX_DEPTH_LEVELS\<close> entries\<close>
  ds_asks :: "BookLevel list"
  ds_bid_levels :: "32 word"
  ds_ask_levels :: "32 word"
  ds_timestamp :: Timestamp

definition DepthSnapshot_default :: DepthSnapshot where
  "DepthSnapshot_default = \<lparr>ds_symbol = Symbol_default,
     ds_bids = replicate MAX_DEPTH_LEVELS BookLevel_default,
     ds_asks = replicate MAX_DEPTH_LEVELS BookLevel_default,
     ds_bid_levels = 0, ds_ask_levels = 0, ds_timestamp = 0\<rparr>"

text \<open>The values the source's types already guarantee for the signed fields of an order.\<close>

definition order_typed :: "Order \<Rightarrow> bool" where
  "order_typed o1 \<longleftrightarrow> i64_ok (o_price o1) \<and> i64_ok (o_quantity o1)"

lemma order_typedD:
  "order_typed o1 \<Longrightarrow> i64_ok (o_price o1)" "order_typed o1 \<Longrightarrow> i64_ok (o_quantity o1)"
  by (simp_all add: order_typed_def)

end
