(* ===== verification/PriceLevels.thy ===== *)
theory PriceLevels
  imports Prelude
begin

text \<open>
  \<^verbatim>\<open>std::map<Price, std::list<T>, Compare>\<close>, the container both order books keep per side: an
  association list in the iteration order of the map, with the comparator (\<^verbatim>\<open>std::greater\<close> for
  bids, \<^verbatim>\<open>std::less\<close> for asks) as the argument \<open>before\<close>.  The locale \<open>price_levels\<close> states what a
  client needs of a comparator and of the price a queue element carries, and proves once what
  finding, pushing, erasing and flattening do; the books interpret it for each side.
\<close>

type_synonym 'q plevels = "(int \<times> 'q list) list"

section \<open>The container operations\<close>

definition lv_find :: "int \<Rightarrow> 'q plevels \<Rightarrow> 'q list option" where
  "lv_find p ls = map_of ls p"

text \<open>\<^verbatim>\<open>levels[p]\<close> as a reference, mutated by \<open>f\<close>: a missing key is inserted with an empty list.\<close>

fun lv_at :: "(int \<Rightarrow> int \<Rightarrow> bool) \<Rightarrow> int \<Rightarrow> ('q list \<Rightarrow> 'q list) \<Rightarrow> 'q plevels \<Rightarrow> 'q plevels" where
  "lv_at before p f [] = [(p, f [])]"
| "lv_at before p f ((k, q) # ls) =
     (if k = p then (k, f q) # ls
      else if before p k then (p, f []) # (k, q) # ls
      else (k, q) # lv_at before p f ls)"

text \<open>Writing through an iterator to an existing key, and erasing a key.\<close>

definition lv_set :: "int \<Rightarrow> 'q list \<Rightarrow> 'q plevels \<Rightarrow> 'q plevels" where
  "lv_set p q ls = map (\<lambda>(k, x). if k = p then (k, q) else (k, x)) ls"

definition lv_erase :: "int \<Rightarrow> 'q plevels \<Rightarrow> 'q plevels" where
  "lv_erase p ls = filter (\<lambda>kq. fst kq \<noteq> p) ls"

text \<open>All queue elements of a side, best price first and oldest first within a price.\<close>

definition nodes :: "'q plevels \<Rightarrow> 'q list" where
  "nodes ls = concat (map snd ls)"

lemma nodes_Nil [simp]: "nodes [] = []"
  by (simp add: nodes_def)

lemma nodes_Cons [simp]: "nodes ((p, q) # ls) = q @ nodes ls"
  by (simp add: nodes_def)

lemma nodes_append [simp]: "nodes (xs @ ys) = nodes xs @ nodes ys"
  by (simp add: nodes_def)

lemma set_nodes: "x \<in> set (nodes ls) \<longleftrightarrow> (\<exists>p q. (p, q) \<in> set ls \<and> x \<in> set q)"
  by (force simp: nodes_def)

section \<open>Well-formed levels\<close>

definition levels_ok :: "(int \<Rightarrow> int \<Rightarrow> bool) \<Rightarrow> ('q \<Rightarrow> int) \<Rightarrow> 'q plevels \<Rightarrow> bool" where
  "levels_ok before key ls \<longleftrightarrow>
     sorted_wrt before (map fst ls) \<and>
     (\<forall>(p, q) \<in> set ls. q \<noteq> [] \<and> (\<forall>x \<in> set q. key x = p))"

text \<open>Insertion in priority order behind the elements of the same price.\<close>

definition stable_insert :: "(int \<Rightarrow> int \<Rightarrow> bool) \<Rightarrow> ('q \<Rightarrow> int) \<Rightarrow> 'q \<Rightarrow> 'q list \<Rightarrow> 'q list" where
  "stable_insert before key x xs =
     takeWhile (\<lambda>y. \<not> before (key x) (key y)) xs @ x # dropWhile (\<lambda>y. \<not> before (key x) (key y)) xs"

lemma set_stable_insert [simp]: "set (stable_insert before key x xs) = insert x (set xs)"
proof -
  have "set (stable_insert before key x xs) =
      insert x (set (takeWhile (\<lambda>y. \<not> before (key x) (key y)) xs @
                     dropWhile (\<lambda>y. \<not> before (key x) (key y)) xs))"
    by (auto simp: stable_insert_def simp del: takeWhile_dropWhile_id)
  then show ?thesis by simp
qed

lemma mset_stable_insert [simp]: "mset (stable_insert before key x xs) = add_mset x (mset xs)"
proof -
  have "mset (stable_insert before key x xs) =
      add_mset x (mset (takeWhile (\<lambda>y. \<not> before (key x) (key y)) xs @
                     dropWhile (\<lambda>y. \<not> before (key x) (key y)) xs))"
    by (simp add: stable_insert_def del: takeWhile_dropWhile_id)
  then show ?thesis by simp
qed

lemma length_stable_insert [simp]: "length (stable_insert before key x xs) = Suc (length xs)"
  by (metis mset_stable_insert size_add_mset size_mset)

lemma levels_ok_Nil [simp]: "levels_ok before key []"
  by (simp add: levels_ok_def)

lemma levels_ok_Cons:
  "levels_ok before key ((p, q) # ls) \<longleftrightarrow>
     q \<noteq> [] \<and> (\<forall>x \<in> set q. key x = p) \<and> (\<forall>k \<in> fst ` set ls. before p k) \<and> levels_ok before key ls"
  by (auto simp: levels_ok_def)

lemma levels_ok_append:
  "levels_ok before key (xs @ ys) \<longleftrightarrow> levels_ok before key xs \<and> levels_ok before key ys \<and>
     (\<forall>p \<in> fst ` set xs. \<forall>k \<in> fst ` set ys. before p k)"
  by (auto simp: levels_ok_def sorted_wrt_append ball_Un)

lemma levels_ok_key:
  "levels_ok before key ls \<Longrightarrow> (p, q) \<in> set ls \<Longrightarrow> x \<in> set q \<Longrightarrow> key x = p"
  by (auto simp: levels_ok_def)

lemma levels_ok_nonempty: "levels_ok before key ls \<Longrightarrow> (p, q) \<in> set ls \<Longrightarrow> q \<noteq> []"
  by (auto simp: levels_ok_def)

lemma levels_ok_keys:
  "levels_ok before key ls \<Longrightarrow> key ` set (nodes ls) = fst ` set ls"
proof (induction ls)
  case (Cons l ls)
  obtain p q where l: "l = (p, q)" by (cases l)
  with Cons.prems have "key ` set q = {p}" by (cases q) (auto simp: levels_ok_Cons)
  then show ?case using Cons l by (simp add: levels_ok_Cons image_Un)
qed simp

locale price_levels =
  fixes before :: "int \<Rightarrow> int \<Rightarrow> bool"
    and key :: "'q \<Rightarrow> int"
  assumes before_irrefl: "\<not> before p p"
    and before_trans: "before p q \<Longrightarrow> before q r \<Longrightarrow> before p r"
    and before_total: "p \<noteq> q \<Longrightarrow> before p q \<or> before q p"
begin

lemma before_asym: "before p q \<Longrightarrow> \<not> before q p"
  using before_trans before_irrefl by blast

lemma not_before_trans: "\<not> before q p \<Longrightarrow> before q r \<Longrightarrow> before p r"
  using before_trans before_total by metis

lemma ok_distinct: "levels_ok before key ls \<Longrightarrow> distinct (map fst ls)"
proof (induction ls)
  case (Cons l ls)
  obtain p q where l: "l = (p, q)" by (cases l)
  with Cons.prems have "p \<notin> fst ` set ls" using before_irrefl by (auto simp: levels_ok_Cons)
  then show ?case using Cons l by (simp add: levels_ok_Cons)
qed simp

lemma ok_sorted_nodes:
  "levels_ok before key ls \<Longrightarrow> sorted_wrt (\<lambda>x y. \<not> before (key y) (key x)) (nodes ls)"
proof (induction ls)
  case Nil
  then show ?case by simp
next
  case (Cons l ls)
  obtain p q where l: "l = (p, q)" by (cases l)
  have same: "sorted_wrt (\<lambda>x y. \<not> before (key y) (key x)) q" if "\<forall>x \<in> set q. key x = p" for q
    using that by (induction q) (auto simp: before_irrefl)
  have later: "\<not> before (key y) (key x)" if "x \<in> set q" "y \<in> set (nodes ls)" for x y
  proof -
    from that Cons.prems l have "key x = p" by (auto simp: levels_ok_Cons)
    moreover from that Cons.prems l have "key y \<in> fst ` set ls"
      using levels_ok_keys [of before key ls] by (auto simp: levels_ok_Cons)
    ultimately show ?thesis using Cons.prems l before_asym by (auto simp: levels_ok_Cons)
  qed
  show ?case
    using Cons l same later by (auto simp: levels_ok_Cons sorted_wrt_append)
qed

lemma keys_lv_at: "fst ` set (lv_at before p f ls) = insert p (fst ` set ls)"
  by (induction before p f ls rule: lv_at.induct) (auto simp: insert_commute)

lemma find_Some: "levels_ok before key ls \<Longrightarrow> lv_find p ls = Some q \<longleftrightarrow> (p, q) \<in> set ls"
  by (simp add: lv_find_def ok_distinct)

lemma lv_at_before_all:
  "\<forall>k \<in> fst ` set ls. before p k \<Longrightarrow> lv_at before p f ls = (p, f []) # ls"
  by (cases ls) (auto simp: before_irrefl)

lemma lv_at_ok:
  assumes "levels_ok before key ls" and "key x = p"
  shows "levels_ok before key (lv_at before p (\<lambda>q. q @ [x]) ls)"
  using assms
proof (induction ls)
  case (Cons l ls)
  obtain k q where l: "l = (k, q)" by (cases l)
  from Cons.prems l have ok: "levels_ok before key ls"
    and first: "\<forall>k' \<in> fst ` set ls. before k k'"
    by (auto simp: levels_ok_Cons)
  show ?case
    using Cons.IH [OF ok] Cons.prems l first before_total [of k p]
    by (auto simp: levels_ok_Cons keys_lv_at intro: before_trans)
qed (simp add: levels_ok_Cons)

text \<open>Pushing to a level is the stable insertion into the flat priority list.\<close>

lemma nodes_lv_at:
  assumes "levels_ok before key ls" and "key x = p"
  shows "nodes (lv_at before p (\<lambda>q. q @ [x]) ls) = stable_insert before key x (nodes ls)"
  using assms
proof (induction ls)
  case (Cons l ls)
  obtain k q where l: "l = (k, q)" by (cases l)
  from Cons.prems l have ok: "levels_ok before key ls" and q: "q \<noteq> []" "\<forall>y \<in> set q. key y = k"
    and first: "\<forall>k' \<in> fst ` set ls. before k k'"
    by (auto simp: levels_ok_Cons)
  have rest: "key y \<in> fst ` set ls" if "y \<in> set (nodes ls)" for y
    using levels_ok_keys [OF ok] that by auto
  consider (same) "k = p" | (before) "k \<noteq> p" "before p k" | (after) "k \<noteq> p" "before k p"
    using before_total [of k p] by auto
  then show ?case
  proof cases
    case same
    have "takeWhile (\<lambda>y. \<not> before p (key y)) (nodes ls) = []"
      using first rest [of "hd (nodes ls)"] same by (cases "nodes ls") force+
    moreover from this have "dropWhile (\<lambda>y. \<not> before p (key y)) (nodes ls) = nodes ls"
      by (metis append_Nil takeWhile_dropWhile_id)
    ultimately show ?thesis
      using same q Cons.prems l by (simp add: stable_insert_def before_irrefl)
  next
    case before
    then have "takeWhile (\<lambda>y. \<not> before p (key y)) q = []" "q \<noteq> []"
      "dropWhile (\<lambda>y. \<not> before p (key y)) q = q"
      using q by (cases q; auto)+
    then show ?thesis
      using before q Cons.prems l
      by (cases q) (auto simp: stable_insert_def)
  next
    case after
    then have "\<not> before p k" by (blast dest: before_asym)
    then show ?thesis
      using after q Cons l ok by (simp add: stable_insert_def)
  qed
qed (simp add: stable_insert_def)

lemma lv_erase_ok: "levels_ok before key ls \<Longrightarrow> levels_ok before key (lv_erase p ls)"
  by (induction ls) (auto simp: levels_ok_Cons lv_erase_def)

lemma lv_set_ok:
  assumes "levels_ok before key ls" and "q \<noteq> []" and "\<forall>x \<in> set q. key x = p"
  shows "levels_ok before key (lv_set p q ls)"
  using assms(1)
proof (induction ls)
  case (Cons l ls)
  have "fst ` set (lv_set p q ls) = fst ` set ls"
    by (force simp: lv_set_def split: if_splits)
  moreover obtain k q' where "l = (k, q')" by (cases l)
  moreover have "lv_set p q ((k, q') # ls) = (if k = p then (k, q) else (k, q')) # lv_set p q ls"
    for k q' by (simp add: lv_set_def)
  ultimately show ?case
    using Cons assms(2,3) by (auto simp: levels_ok_Cons)
qed (simp add: lv_set_def)

text \<open>
  Erasing from the queue of one price and dropping an emptied level, as the cancel operations do,
  is filtering the flat list, when what is filtered out lives at that price only.
\<close>

lemma nodes_remove:
  assumes "levels_ok before key ls" and "(p, q) \<in> set ls"
    and "\<forall>x \<in> set (nodes ls). \<not> P x \<longrightarrow> x \<in> set q"
  shows "nodes (if filter P q = [] then lv_erase p ls else lv_set p (filter P q) ls) =
     filter P (nodes ls)"
  using assms
proof (induction ls)
  case (Cons l ls)
  obtain k r where l: "l = (k, r)" by (cases l)
  from Cons.prems l have ok: "levels_ok before key ls"
    and first: "\<forall>k' \<in> fst ` set ls. before k k'"
    by (auto simp: levels_ok_Cons)
  show ?case
  proof (cases "k = p")
    case True
    then have absent: "p \<notin> fst ` set ls" using first before_irrefl by blast
    then have same: "q = r" using Cons.prems(2) l True by force
    have erase: "lv_erase p ls = ls" "lv_set p (filter P q) ls = ls"
      using absent by (force simp: lv_erase_def lv_set_def filter_id_conv intro!: map_idI)+
    have outside: "x \<notin> set q" if "x \<in> set (nodes ls)" for x
    proof
      assume "x \<in> set q"
      then have "key x = p" using Cons.prems(1,2) by (auto dest: levels_ok_key)
      then show False using levels_ok_keys [OF ok] that absent by auto
    qed
    then have "filter P (nodes ls) = nodes ls"
      using Cons.prems(3) l by (auto simp: filter_id_conv)
    then show ?thesis
      using True same erase l by (simp add: lv_erase_def lv_set_def)
  next
    case False
    then have mem: "(p, q) \<in> set ls" using Cons.prems(2) l by auto
    have keep: "filter P r = r"
    proof (rule filter_id_conv [THEN iffD2], rule ballI, rule ccontr)
      fix x assume x: "x \<in> set r" "\<not> P x"
      then have "x \<in> set q" using Cons.prems(3) l by auto
      then have "key x = p" using mem ok by (auto dest: levels_ok_key)
      moreover have "key x = k" using x Cons.prems(1) l by (auto simp: levels_ok_Cons)
      ultimately show False using False by simp
    qed
    show ?thesis
      using Cons.IH [OF ok mem] Cons.prems(3) l False keep
      by (auto simp: lv_erase_def lv_set_def)
  qed
qed simp

lemma remove_ok:
  assumes "levels_ok before key ls" and "(p, q) \<in> set ls"
  shows "levels_ok before key
    (if filter P q = [] then lv_erase p ls else lv_set p (filter P q) ls)"
proof (cases "filter P q = []")
  case True
  then show ?thesis using lv_erase_ok [OF assms(1)] by simp
next
  case False
  moreover have "\<forall>x \<in> set (filter P q). key x = p"
    using levels_ok_key [OF assms] by simp
  ultimately show ?thesis using lv_set_ok [OF assms(1)] by simp
qed

lemma find_none_before:
  "levels_ok before key ls \<Longrightarrow> \<forall>k \<in> fst ` set ls. before p k \<Longrightarrow> lv_find p ls = None"
  using before_irrefl by (auto simp: lv_find_def map_of_eq_None_iff)

lemma find_lv_at:
  assumes "levels_ok before key ls"
  shows "lv_find k (lv_at before p f ls) =
    (if k = p then Some (f (case lv_find p ls of None \<Rightarrow> [] | Some q \<Rightarrow> q)) else lv_find k ls)"
  using assms
proof (induction ls)
  case (Cons l ls)
  obtain k' q where l: "l = (k', q)" by (cases l)
  with Cons.prems have ok: "levels_ok before key ls"
    and first: "\<forall>k \<in> fst ` set ls. before k' k"
    by (auto simp: levels_ok_Cons)
  show ?case
  proof (cases "k' \<noteq> p \<and> before p k'")
    case True
    then have "\<forall>k \<in> fst ` set ls. before p k" using first before_trans by blast
    from find_none_before [OF ok this] True show ?thesis
      using l by (simp add: lv_find_def)
  next
    case False
    then show ?thesis using Cons.IH [OF ok] l by (auto simp: lv_find_def)
  qed
qed (simp add: lv_find_def)

lemma lv_at_cong:
  assumes "levels_ok before key ls"
    and "f (case lv_find p ls of None \<Rightarrow> [] | Some q \<Rightarrow> q) = g (case lv_find p ls of None \<Rightarrow> [] | Some q \<Rightarrow> q)"
  shows "lv_at before p f ls = lv_at before p g ls"
  using assms
proof (induction ls)
  case (Cons l ls)
  obtain k q where l: "l = (k, q)" by (cases l)
  with Cons.prems(1) have ok: "levels_ok before key ls"
    and first: "\<forall>k' \<in> fst ` set ls. before k k'"
    by (auto simp: levels_ok_Cons)
  show ?case
  proof (cases "k \<noteq> p \<and> before p k")
    case True
    then have "\<forall>k' \<in> fst ` set ls. before p k'" using first before_trans by blast
    from find_none_before [OF ok this] True Cons.prems(2) l show ?thesis
      by (simp add: lv_find_def)
  next
    case False
    then show ?thesis using Cons.IH [OF ok] Cons.prems(2) l
      by (cases "k = p") (simp_all add: lv_find_def)
  qed
qed (simp add: lv_find_def)

lemma nodes_lv_set_map:
  assumes "levels_ok before key ls" and "(p, q) \<in> set ls" and "map f q' = map f q"
  shows "map f (nodes (lv_set p q' ls)) = map f (nodes ls)"
  using assms(1,2)
proof (induction ls)
  case (Cons l ls)
  obtain k r where l: "l = (k, r)" by (cases l)
  with Cons.prems(1) have ok: "levels_ok before key ls"
    and first: "\<forall>k' \<in> fst ` set ls. before k k'"
    by (auto simp: levels_ok_Cons)
  have set_Cons: "lv_set p q' ((k, r) # ls) = (if k = p then (k, q') else (k, r)) # lv_set p q' ls"
    by (simp add: lv_set_def)
  show ?case
  proof (cases "k = p")
    case True
    then have "p \<notin> fst ` set ls" using first before_irrefl by blast
    then have "lv_set p q' ls = ls" "q = r"
      using Cons.prems(2) l True by (force simp: lv_set_def intro!: map_idI)+
    then show ?thesis using True assms(3) l set_Cons by simp
  next
    case False
    then show ?thesis using Cons.IH [OF ok] Cons.prems(2) l set_Cons by simp
  qed
qed simp

lemma find_lv_set: "levels_ok before key ls \<Longrightarrow> (p, q) \<in> set ls \<Longrightarrow> lv_find p (lv_set p q' ls) = Some q'"
  by (induction ls) (auto simp: levels_ok_Cons lv_find_def lv_set_def)

lemma node_level:
  assumes "levels_ok before key ls" and "x \<in> set (nodes ls)"
  obtains q where "(key x, q) \<in> set ls" "x \<in> set q" "lv_find (key x) ls = Some q"
proof -
  obtain p q where "(p, q) \<in> set ls" "x \<in> set q" using assms(2) by (auto simp: set_nodes)
  moreover from this have "key x = p" using levels_ok_key [OF assms(1)] by blast
  ultimately show thesis using that find_Some [OF assms(1)] by blast
qed

end

lemma lv_set_twice [simp]: "lv_set p q2 (lv_set p q1 ls) = lv_set p q2 ls"
  by (auto simp: lv_set_def)

text \<open>The two comparators of the books.\<close>

interpretation bid: price_levels "(>) :: int \<Rightarrow> int \<Rightarrow> bool" key
  for key :: "'q \<Rightarrow> int"
  by unfold_locales (simp_all add: linorder_neq_iff disj_commute)

interpretation ask: price_levels "(<) :: int \<Rightarrow> int \<Rightarrow> bool" key
  for key :: "'q \<Rightarrow> int"
  by unfold_locales (simp_all add: linorder_neq_iff)

end
