(* ===== verification/L3Book.thy ===== *)
theory L3Book
  imports Types PriceLevels
begin

text \<open>
  \<^verbatim>\<open>src/orderbook/l3_order_book.hpp\<close> and \<^verbatim>\<open>.cpp\<close>: the order-level book.

  A list node is a pair of a handle and the order it stores.  A \<^verbatim>\<open>std::list\<close> iterator is the handle
  of the node it points to: handles are given out by \<open>bk_next_node\<close> and never reused, an
  iterator that no live node carries is dangling.  Dereferencing a dangling iterator, or erasing
  it from a list that does not hold it, is undefined behaviour; the operations that do so return
  \<^const>\<open>None\<close>, and \<open>L3Invariant\<close> shows that this never happens.

  Callbacks are \<^verbatim>\<open>std::function\<close>s: the book records whether one is registered, and an operation
  returns the list of the calls it makes, in order.  A callback that calls back into the same
  book is outside the model.
\<close>

section \<open>State\<close>

record L3Order =
  l_id :: OrderId
  l_trader_id :: TraderId
  l_side :: Side
  l_price :: Price
  l_visible_qty :: Quantity
  l_hidden_qty :: Quantity
  l_filled_qty :: Quantity
  l_entry_time :: Timestamp
  l_queue_pos :: "32 word"
  l_is_iceberg :: bool
  l_cl_ord_id :: string

type_synonym node = "nat \<times> L3Order"
type_synonym OrderQueue = "node list"

record OrderLocation =
  loc_side :: Side
  loc_price :: Price
  loc_it :: nat

text \<open>A description of a level that no operation uses.\<close>

record PriceLevelInfo =
  pli_price :: Price
  pli_total_visible :: Quantity
  pli_total_hidden :: Quantity
  pli_order_count :: "32 word"

definition PriceLevelInfo_default :: PriceLevelInfo where
  "PriceLevelInfo_default = \<lparr>pli_price = 0, pli_total_visible = 0, pli_total_hidden = 0, pli_order_count = 0\<rparr>"

record L3OrderBook =
  bk_symbol :: Symbol
  bk_bids :: "node plevels"
  bk_asks :: "node plevels"
  bk_order_index :: "OrderId \<rightharpoonup> OrderLocation"
  bk_trade_count :: "64 word"
  bk_next_trade_id :: "64 word"
  bk_total_volume :: Quantity
  bk_last_trade_price :: Price
  bk_bid_order_count :: "64 word"
  bk_ask_order_count :: "64 word"
  bk_trade_cb :: bool
  bk_tob_cb :: bool
  bk_depth_cb :: bool
  bk_next_node :: nat

datatype book_event = TradeEv Trade | TobEv TopOfBook

record MatchResult =
  mr_trades :: "Trade list"
  mr_remaining_qty :: Quantity
  mr_fully_filled :: bool

definition L3OrderBook_init :: "Symbol \<Rightarrow> L3OrderBook" where
  "L3OrderBook_init symbol = \<lparr>bk_symbol = symbol, bk_bids = [], bk_asks = [],
     bk_order_index = Map.empty, bk_trade_count = 0, bk_next_trade_id = 1, bk_total_volume = 0,
     bk_last_trade_price = 0, bk_bid_order_count = 0, bk_ask_order_count = 0,
     bk_trade_cb = False, bk_tob_cb = False, bk_depth_cb = False, bk_next_node = 0\<rparr>"

text \<open>The queries of the header that return a member.\<close>

definition book_symbol :: "L3OrderBook \<Rightarrow> Symbol" where
  "book_symbol b = bk_symbol b"

definition total_bid_orders :: "L3OrderBook \<Rightarrow> 64 word" where
  "total_bid_orders b = bk_bid_order_count b"

definition total_ask_orders :: "L3OrderBook \<Rightarrow> 64 word" where
  "total_ask_orders b = bk_ask_order_count b"

definition total_trades :: "L3OrderBook \<Rightarrow> 64 word" where
  "total_trades b = bk_trade_count b"

definition total_volume :: "L3OrderBook \<Rightarrow> Quantity" where
  "total_volume b = bk_total_volume b"

definition last_trade_price :: "L3OrderBook \<Rightarrow> Price" where
  "last_trade_price b = bk_last_trade_price b"

definition on_trade :: "L3OrderBook \<Rightarrow> L3OrderBook" where
  "on_trade b = b\<lparr>bk_trade_cb := True\<rparr>"

definition on_top_of_book :: "L3OrderBook \<Rightarrow> L3OrderBook" where
  "on_top_of_book b = b\<lparr>bk_tob_cb := True\<rparr>"

definition on_depth :: "L3OrderBook \<Rightarrow> L3OrderBook" where
  "on_depth b = b\<lparr>bk_depth_cb := True\<rparr>"

text \<open>The nodes of both sides, and following an iterator.\<close>

definition all_nodes :: "L3OrderBook \<Rightarrow> node list" where
  "all_nodes b = nodes (bk_bids b) @ nodes (bk_asks b)"

definition deref :: "L3OrderBook \<Rightarrow> nat \<Rightarrow> L3Order option" where
  "deref b h = map_of (all_nodes b) h"

definition open_qty :: "L3Order \<Rightarrow> Quantity" where
  "open_qty r = add64 (l_visible_qty r) (l_hidden_qty r)"

section \<open>Queries\<close>

definition level_info :: "Price \<Rightarrow> OrderQueue \<Rightarrow> BookLevel" where
  "level_info price queue =
     (let tc = foldl (\<lambda>(total, count) n. (add64 total (l_visible_qty (snd n)), count + 1))
                 (0, 0) queue
      in \<lparr>bl_price = price, bl_qty = fst tc, bl_order_count = snd tc\<rparr>)"

definition best_bid :: "L3OrderBook \<Rightarrow> BookLevel option" where
  "best_bid b = (case bk_bids b of [] \<Rightarrow> None | (price, queue) # _ \<Rightarrow> Some (level_info price queue))"

definition best_ask :: "L3OrderBook \<Rightarrow> BookLevel option" where
  "best_ask b = (case bk_asks b of [] \<Rightarrow> None | (price, queue) # _ \<Rightarrow> Some (level_info price queue))"

definition top_of_book :: "L3OrderBook \<Rightarrow> Timestamp \<Rightarrow> TopOfBook" where
  "top_of_book b ts =
     (let tob = TopOfBook_default\<lparr>tob_symbol := bk_symbol b, tob_timestamp := ts\<rparr>
      in case (best_bid b, best_ask b) of
           (Some bb, Some ba) \<Rightarrow>
             (let mid = add64 (bl_price bb) (bl_price ba) sdiv 2;
                  total_qty = add64 (bl_qty bb) (bl_qty ba)
              in tob\<lparr>tob_valid := True, tob_best_bid := bb, tob_best_ask := ba,
                     tob_mid_price := mid,
                     tob_spread := sub64 (bl_price ba) (bl_price bb),
                     tob_micro_price :=
                       (if total_qty > 0
                        then add64 (mul64 (bl_price bb) (bl_qty ba)) (mul64 (bl_price ba) (bl_qty bb))
                             sdiv total_qty
                        else mid)\<rparr>)
         | (Some bb, None) \<Rightarrow> tob\<lparr>tob_valid := True, tob_best_bid := bb, tob_mid_price := bl_price bb\<rparr>
         | (None, Some ba) \<Rightarrow> tob\<lparr>tob_valid := True, tob_best_ask := ba, tob_mid_price := bl_price ba\<rparr>
         | (None, None) \<Rightarrow> tob)"

fun depth_loop :: "nat \<Rightarrow> nat \<Rightarrow> node plevels \<Rightarrow> BookLevel list" where
  "depth_loop levels n [] = []"
| "depth_loop levels n ((price, queue) # ls) =
     (if n \<ge> levels then [] else level_info price queue # depth_loop levels (n + 1) ls)"

definition bid_depth :: "L3OrderBook \<Rightarrow> nat \<Rightarrow> BookLevel list" where
  "bid_depth b levels = depth_loop levels 0 (bk_bids b)"

definition ask_depth :: "L3OrderBook \<Rightarrow> nat \<Rightarrow> BookLevel list" where
  "ask_depth b levels = depth_loop levels 0 (bk_asks b)"

definition orders_at_price :: "L3OrderBook \<Rightarrow> Side \<Rightarrow> Price \<Rightarrow> L3Order list" where
  "orders_at_price b side price =
     (case side of
        Buy \<Rightarrow> (case lv_find price (bk_bids b) of None \<Rightarrow> [] | Some q \<Rightarrow> map snd q)
      | Sell \<Rightarrow> (case lv_find price (bk_asks b) of None \<Rightarrow> [] | Some q \<Rightarrow> map snd q))"

definition queue_position :: "L3OrderBook \<Rightarrow> OrderId \<Rightarrow> 32 word option" where
  "queue_position b id1 =
     (case bk_order_index b id1 of
        None \<Rightarrow> Some (- 1)
      | Some loc \<Rightarrow> map_option l_queue_pos (deref b (loc_it loc)))"

fun ahead_loop :: "OrderId \<Rightarrow> OrderQueue \<Rightarrow> Quantity \<Rightarrow> Quantity" where
  "ahead_loop id1 [] ahead = ahead"
| "ahead_loop id1 ((h, r) # q) ahead =
     (if l_id r = id1 then ahead else ahead_loop id1 q (add64 ahead (l_visible_qty r)))"

definition quantity_ahead :: "L3OrderBook \<Rightarrow> OrderId \<Rightarrow> Quantity" where
  "quantity_ahead b id1 =
     (case bk_order_index b id1 of
        None \<Rightarrow> 0
      | Some loc \<Rightarrow>
          (case loc_side loc of
             Buy \<Rightarrow> (case lv_find (loc_price loc) (bk_bids b) of
                       None \<Rightarrow> 0 | Some q \<Rightarrow> ahead_loop id1 q 0)
           | Sell \<Rightarrow> (case lv_find (loc_price loc) (bk_asks b) of
                       None \<Rightarrow> 0 | Some q \<Rightarrow> ahead_loop id1 q 0)))"

definition publish_tob :: "L3OrderBook \<Rightarrow> Timestamp \<Rightarrow> book_event list" where
  "publish_tob b ts = (if bk_tob_cb b then [TobEv (top_of_book b ts)] else [])"

section \<open>Matching\<close>

text \<open>The price check of both matching loops: the level is beyond the limit.\<close>

definition beyond_limit :: "Order \<Rightarrow> Price \<Rightarrow> bool" where
  "beyond_limit inc level_price \<longleftrightarrow>
     o_type inc = Limit \<and>
     (o_side inc = Buy \<and> level_price > o_price inc \<or> o_side inc = Sell \<and> level_price < o_price inc)"

definition make_trade :: "L3OrderBook \<Rightarrow> Order \<Rightarrow> L3Order \<Rightarrow> Price \<Rightarrow> Quantity \<Rightarrow> Timestamp \<Rightarrow> Trade" where
  "make_trade b inc resting level_price match_qty ts =
     \<lparr>t_trade_id = bk_next_trade_id b, t_resting_id = l_id resting, t_incoming_id = o_id inc,
      t_resting_trader = l_trader_id resting, t_incoming_trader = o_trader_id inc,
      t_symbol = bk_symbol b, t_aggressor_side = o_side inc, t_price = level_price,
      t_qty = match_qty, t_match_timestamp_ns = ts\<rparr>"

definition count_trade :: "Price \<Rightarrow> Quantity \<Rightarrow> L3OrderBook \<Rightarrow> L3OrderBook" where
  "count_trade level_price match_qty b =
     b\<lparr>bk_next_trade_id := bk_next_trade_id b + 1, bk_trade_count := bk_trade_count b + 1,
       bk_total_volume := add64 (bk_total_volume b) match_qty,
       bk_last_trade_price := level_price\<rparr>"

text \<open>What a match does to the resting order: fill, reduce, replenish an iceberg.\<close>

definition reduce_order :: "Quantity \<Rightarrow> L3Order \<Rightarrow> L3Order" where
  "reduce_order match_qty resting0 =
     (let resting = resting0\<lparr>l_filled_qty := add64 (l_filled_qty resting0) match_qty\<rparr>;
          resting =
            (if match_qty \<le> l_visible_qty resting
             then resting\<lparr>l_visible_qty := sub64 (l_visible_qty resting) match_qty\<rparr>
             else (let from_hidden = sub64 match_qty (l_visible_qty resting)
                   in resting\<lparr>l_visible_qty := 0,
                              l_hidden_qty := sub64 (l_hidden_qty resting) from_hidden\<rparr>))
      in if l_visible_qty resting = 0 \<and> l_hidden_qty resting > 0 \<and> l_is_iceberg resting
         then (let replenish = min (l_hidden_qty resting) 100
               in resting\<lparr>l_visible_qty := replenish,
                          l_hidden_qty := sub64 (l_hidden_qty resting) replenish\<rparr>)
         else resting)"

definition forget_order :: "L3Order \<Rightarrow> L3OrderBook \<Rightarrow> L3OrderBook" where
  "forget_order resting b =
     (let b = b\<lparr>bk_order_index := (bk_order_index b)(l_id resting := None)\<rparr>
      in case l_side resting of
           Buy \<Rightarrow> b\<lparr>bk_bid_order_count := bk_bid_order_count b - 1\<rparr>
         | Sell \<Rightarrow> b\<lparr>bk_ask_order_count := bk_ask_order_count b - 1\<rparr>)"

text \<open>The inner loop over the queue of one level; \<open>b\<close> carries the counters and the index.\<close>

fun match_queue :: "Order \<Rightarrow> Price \<Rightarrow> Timestamp \<Rightarrow> Quantity \<Rightarrow> OrderQueue \<Rightarrow> L3OrderBook
    \<Rightarrow> Quantity \<times> OrderQueue \<times> Trade list \<times> L3OrderBook" where
  "match_queue inc level_price ts remaining [] b = (remaining, [], [], b)"
| "match_queue inc level_price ts remaining ((h, resting) # q) b =
     (if remaining > 0
      then (let match_qty = min remaining (open_qty resting);
                trade = make_trade b inc resting level_price match_qty ts;
                b = count_trade level_price match_qty b;
                remaining = sub64 remaining match_qty;
                resting = reduce_order match_qty resting
            in if open_qty resting = 0
               then (case match_queue inc level_price ts remaining q (forget_order resting b) of
                       (remaining, q, trades, b) \<Rightarrow> (remaining, q, trade # trades, b))
               else (case match_queue inc level_price ts remaining q b of
                       (remaining, q, trades, b) \<Rightarrow> (remaining, (h, resting) # q, trade # trades, b)))
      else (remaining, (h, resting) # q, [], b))"

text \<open>The outer loop over the levels, best price first.\<close>

fun match_against :: "Order \<Rightarrow> Timestamp \<Rightarrow> Quantity \<Rightarrow> node plevels \<Rightarrow> L3OrderBook
    \<Rightarrow> Quantity \<times> node plevels \<times> Trade list \<times> L3OrderBook" where
  "match_against inc ts remaining [] b = (remaining, [], [], b)"
| "match_against inc ts remaining ((level_price, queue) # ls) b =
     (if remaining > 0 \<and> \<not> beyond_limit inc level_price
      then (case match_queue inc level_price ts remaining queue b of
              (remaining, queue, trades, b) \<Rightarrow>
                (case match_against inc ts remaining ls b of
                   (remaining, ls, trades', b) \<Rightarrow>
                     (remaining, (if queue = [] then ls else (level_price, queue) # ls),
                      trades @ trades', b)))
      else (remaining, (level_price, queue) # ls, [], b))"

text \<open>The fill-or-kill look-ahead over the levels of the opposite side.\<close>

fun fok_available :: "Order \<Rightarrow> node plevels \<Rightarrow> Quantity \<Rightarrow> Quantity" where
  "fok_available inc [] available = available"
| "fok_available inc ((price, queue) # ls) available =
     (if beyond_limit inc price then available
      else (let available = foldl (\<lambda>a n. add64 a (open_qty (snd n))) available queue
            in if available \<ge> o_quantity inc then available else fok_available inc ls available))"

definition match_incoming :: "Order \<Rightarrow> Timestamp \<Rightarrow> L3OrderBook \<Rightarrow> MatchResult \<times> L3OrderBook" where
  "match_incoming inc ts b =
     (let remaining = o_quantity inc in
      if o_tif inc = FOK \<and>
         fok_available inc (case o_side inc of Buy \<Rightarrow> bk_asks b | Sell \<Rightarrow> bk_bids b) 0 < o_quantity inc
      then (\<lparr>mr_trades = [], mr_remaining_qty = remaining, mr_fully_filled = False\<rparr>, b)
      else (case o_side inc of
              Buy \<Rightarrow> (case match_against inc ts remaining (bk_asks b) b of
                        (remaining, asks, trades, b) \<Rightarrow>
                          (\<lparr>mr_trades = trades, mr_remaining_qty = remaining,
                            mr_fully_filled = (remaining = 0)\<rparr>, b\<lparr>bk_asks := asks\<rparr>))
            | Sell \<Rightarrow> (case match_against inc ts remaining (bk_bids b) b of
                        (remaining, bids, trades, b) \<Rightarrow>
                          (\<lparr>mr_trades = trades, mr_remaining_qty = remaining,
                            mr_fully_filled = (remaining = 0)\<rparr>, b\<lparr>bk_bids := bids\<rparr>))))"

section \<open>Resting, cancelling, replacing\<close>

definition resting_node :: "Order \<Rightarrow> Quantity \<Rightarrow> Timestamp \<Rightarrow> nat \<Rightarrow> nat \<Rightarrow> node" where
  "resting_node inc remaining ts h queue_size =
     (h, \<lparr>l_id = o_id inc, l_trader_id = o_trader_id inc, l_side = o_side inc,
          l_price = o_price inc, l_visible_qty = remaining, l_hidden_qty = 0,
          l_filled_qty = sub64 (o_quantity inc) remaining, l_entry_time = ts,
          l_queue_pos = of_nat (queue_size - 1), l_is_iceberg = False,
          l_cl_ord_id = o_cl_ord_id inc\<rparr>)"

text \<open>\<open>queue_size\<close> is the size after the push, so \<^verbatim>\<open>queue.size() - 1\<close> is the old size.\<close>

definition queue_at :: "Price \<Rightarrow> node plevels \<Rightarrow> OrderQueue" where
  "queue_at price ls = (case lv_find price ls of None \<Rightarrow> [] | Some q \<Rightarrow> q)"

definition add_resting_order :: "Order \<Rightarrow> Quantity \<Rightarrow> Timestamp \<Rightarrow> L3OrderBook \<Rightarrow> L3OrderBook" where
  "add_resting_order inc remaining ts b =
     (let h = bk_next_node b;
          price = o_price inc;
          b = b\<lparr>bk_next_node := h + 1,
                bk_order_index := (bk_order_index b)
                  (o_id inc \<mapsto> \<lparr>loc_side = o_side inc, loc_price = price, loc_it = h\<rparr>)\<rparr>
      in case o_side inc of
           Buy \<Rightarrow>
             b\<lparr>bk_bids := lv_at (>) price
                 (\<lambda>q. q @ [resting_node inc remaining ts h (length q + 1)]) (bk_bids b),
               bk_bid_order_count := bk_bid_order_count b + 1\<rparr>
         | Sell \<Rightarrow>
             b\<lparr>bk_asks := lv_at (<) price
                 (\<lambda>q. q @ [resting_node inc remaining ts h (length q + 1)]) (bk_asks b),
               bk_ask_order_count := bk_ask_order_count b + 1\<rparr>)"

definition base_report :: "Order \<Rightarrow> Timestamp \<Rightarrow> ExecutionReport" where
  "base_report inc ts = ExecutionReport_default
     \<lparr>r_order_id := o_id inc, r_trader_id := o_trader_id inc, r_symbol := o_symbol inc,
      r_side := o_side inc, r_type := o_type inc, r_price := o_price inc,
      r_order_qty := o_quantity inc, r_transact_time := ts, r_cl_ord_id := o_cl_ord_id inc\<rparr>"

definition fill_report :: "Order \<Rightarrow> Timestamp \<Rightarrow> MatchResult \<Rightarrow> ExecutionReport" where
  "fill_report inc ts result =
     (let filled = sub64 (o_quantity inc) (mr_remaining_qty result);
          rpt = (base_report inc ts)\<lparr>r_filled_qty := filled, r_leaves_qty := mr_remaining_qty result\<rparr>
      in if mr_remaining_qty result = 0 then rpt\<lparr>r_status := Filled\<rparr>
         else if filled > 0
         then (let rpt = rpt\<lparr>r_status := PartiallyFilled\<rparr>
               in if mr_trades result \<noteq> []
                  then rpt\<lparr>r_last_qty := t_qty (last (mr_trades result)),
                           r_last_price := t_price (last (mr_trades result))\<rparr>
                  else rpt)
         else rpt\<lparr>r_status := New\<rparr>)"

definition settle_remainder :: "Order \<Rightarrow> Timestamp \<Rightarrow> MatchResult \<Rightarrow> ExecutionReport \<Rightarrow> L3OrderBook
    \<Rightarrow> ExecutionReport \<times> L3OrderBook" where
  "settle_remainder inc ts result rpt b =
     (if mr_remaining_qty result > 0 \<and> o_type inc = Limit
      then (case o_tif inc of
              Day \<Rightarrow> (rpt, add_resting_order inc (mr_remaining_qty result) ts b)
            | GTC \<Rightarrow> (rpt, add_resting_order inc (mr_remaining_qty result) ts b)
            | IOC \<Rightarrow> (rpt\<lparr>r_status := (if r_filled_qty rpt > 0 then PartiallyFilled else Canceled),
                          r_leaves_qty := 0\<rparr>, b)
            | FOK \<Rightarrow> (rpt\<lparr>r_status := Rejected, r_reject_reason := InsufficientLiquidity,
                          r_filled_qty := 0, r_leaves_qty := 0\<rparr>, b))
      else (rpt, b))"

definition add_order :: "L3OrderBook \<Rightarrow> Order \<Rightarrow> Timestamp
    \<Rightarrow> ExecutionReport \<times> L3OrderBook \<times> book_event list" where
  "add_order b inc ts =
     (if bk_order_index b (o_id inc) \<noteq> None
      then ((base_report inc ts)\<lparr>r_status := Rejected, r_reject_reason := DuplicateOrderId,
              r_leaves_qty := 0\<rparr>, b, [])
      else (let (result, b1) = match_incoming inc ts b;
                (rpt, b2) = settle_remainder inc ts result (fill_report inc ts result) b1;
                trade_calls = (if bk_trade_cb b then map TradeEv (mr_trades result) else [])
            in (rpt, b2,
                trade_calls @
                (if mr_trades result \<noteq> [] \<or> r_status rpt = New then publish_tob b2 ts else []))))"

fun renumber :: "32 word \<Rightarrow> OrderQueue \<Rightarrow> OrderQueue" where
  "renumber pos [] = []"
| "renumber pos ((h, r) # q) = (h, r\<lparr>l_queue_pos := pos\<rparr>) # renumber (pos + 1) q"

definition update_queue_positions :: "Side \<Rightarrow> Price \<Rightarrow> L3OrderBook \<Rightarrow> L3OrderBook" where
  "update_queue_positions side price b =
     (case side of
        Buy \<Rightarrow> (case lv_find price (bk_bids b) of
                  None \<Rightarrow> b
                | Some q \<Rightarrow> b\<lparr>bk_bids := lv_set price (renumber 0 q) (bk_bids b)\<rparr>)
      | Sell \<Rightarrow> (case lv_find price (bk_asks b) of
                  None \<Rightarrow> b
                | Some q \<Rightarrow> b\<lparr>bk_asks := lv_set price (renumber 0 q) (bk_asks b)\<rparr>))"

text \<open>\<^verbatim>\<open>queue.erase(it)\<close>: undefined when the queue does not hold the node.\<close>

definition erase_node :: "nat \<Rightarrow> OrderQueue \<Rightarrow> OrderQueue option" where
  "erase_node h q = (if h \<in> fst ` set q then Some (filter (\<lambda>n. fst n \<noteq> h) q) else None)"

definition remove_from_book :: "OrderLocation \<Rightarrow> L3OrderBook \<Rightarrow> L3OrderBook option" where
  "remove_from_book loc b =
     (let price = loc_price loc in
      case loc_side loc of
        Buy \<Rightarrow>
          map_option (\<lambda>b. b\<lparr>bk_bid_order_count := bk_bid_order_count b - 1\<rparr>)
            (case lv_find price (bk_bids b) of
               None \<Rightarrow> Some b
             | Some q \<Rightarrow>
                 map_option
                   (\<lambda>q. if q = [] then b\<lparr>bk_bids := lv_erase price (bk_bids b)\<rparr>
                        else update_queue_positions Buy price
                               (b\<lparr>bk_bids := lv_set price q (bk_bids b)\<rparr>))
                   (erase_node (loc_it loc) q))
      | Sell \<Rightarrow>
          map_option (\<lambda>b. b\<lparr>bk_ask_order_count := bk_ask_order_count b - 1\<rparr>)
            (case lv_find price (bk_asks b) of
               None \<Rightarrow> Some b
             | Some q \<Rightarrow>
                 map_option
                   (\<lambda>q. if q = [] then b\<lparr>bk_asks := lv_erase price (bk_asks b)\<rparr>
                        else update_queue_positions Sell price
                               (b\<lparr>bk_asks := lv_set price q (bk_asks b)\<rparr>))
                   (erase_node (loc_it loc) q)))"

definition cancel_report :: "L3OrderBook \<Rightarrow> OrderId \<Rightarrow> L3Order \<Rightarrow> Timestamp \<Rightarrow> ExecutionReport" where
  "cancel_report b id1 l3 ts = ExecutionReport_default
     \<lparr>r_order_id := id1, r_transact_time := ts, r_trader_id := l_trader_id l3,
      r_symbol := bk_symbol b, r_side := l_side l3, r_price := l_price l3,
      r_order_qty := add64 (add64 (l_visible_qty l3) (l_hidden_qty l3)) (l_filled_qty l3),
      r_filled_qty := l_filled_qty l3, r_leaves_qty := 0, r_status := Canceled,
      r_cl_ord_id := l_cl_ord_id l3\<rparr>"

definition cancel_order :: "L3OrderBook \<Rightarrow> OrderId \<Rightarrow> Timestamp
    \<Rightarrow> (ExecutionReport \<times> L3OrderBook \<times> book_event list) option" where
  "cancel_order b id1 ts =
     (case bk_order_index b id1 of
        None \<Rightarrow> Some (ExecutionReport_default\<lparr>r_order_id := id1, r_transact_time := ts,
                        r_status := Rejected, r_reject_reason := NoReason\<rparr>, b, [])
      | Some loc \<Rightarrow>
          (case deref b (loc_it loc) of
             None \<Rightarrow> None
           | Some l3 \<Rightarrow>
               (case remove_from_book loc b of
                  None \<Rightarrow> None
                | Some b1 \<Rightarrow>
                    (let b2 = b1\<lparr>bk_order_index := (bk_order_index b1)(id1 := None)\<rparr>
                     in Some (cancel_report b id1 l3 ts, b2, publish_tob b2 ts)))))"

definition replacement_order :: "ReplaceRequest \<Rightarrow> ExecutionReport \<Rightarrow> Timestamp \<Rightarrow> Order" where
  "replacement_order req cancel_rpt ts = Order_default
     \<lparr>o_id := p_order_id req, o_trader_id := p_trader_id req, o_symbol := p_symbol req,
      o_side := r_side cancel_rpt, o_type := Limit, o_tif := Day, o_price := p_new_price req,
      o_quantity := p_new_qty req, o_submit_time := ts, o_cl_ord_id := p_cl_ord_id req\<rparr>"

definition replace_order :: "L3OrderBook \<Rightarrow> ReplaceRequest \<Rightarrow> Timestamp
    \<Rightarrow> (ExecutionReport \<times> L3OrderBook \<times> book_event list) option" where
  "replace_order b req ts =
     (case cancel_order b (p_order_id req) ts of
        None \<Rightarrow> None
      | Some (cancel_rpt, b1, calls) \<Rightarrow>
          if r_status cancel_rpt \<noteq> Canceled
          then Some (cancel_rpt\<lparr>r_status := Rejected\<rparr>, b1, calls)
          else (case add_order b1 (replacement_order req cancel_rpt ts) ts of
                  (rpt, b2, calls') \<Rightarrow> Some (rpt, b2, calls @ calls')))"

end
