(* ===== verification/L3Match.thy ===== *)
theory L3Match
  imports L3Book
begin

text \<open>
  The matching loops of the order book against a flat reference.  \<open>fill\<close> walks one list of resting
  orders and hands out a quantity; the nested loops over levels and queues, with their counters,
  index updates and erased levels, are shown to compute it on the eligible orders in price-time
  priority (\<open>match_queue_fill\<close>, \<open>match_against_fill\<close>).  \<open>fill_split\<close> then gives every consequence
  of a match: a consumed prefix, at most one partially filled order, the rest untouched.
\<close>

section \<open>Well-formed resting orders\<close>

definition order_ok :: "L3Order \<Rightarrow> bool" where
  "order_ok r \<longleftrightarrow> 0 \<le> l_visible_qty r \<and> 0 \<le> l_hidden_qty r \<and> 0 \<le> l_filled_qty r \<and>
     0 < l_visible_qty r + l_hidden_qty r \<and>
     l_visible_qty r + l_hidden_qty r + l_filled_qty r \<le> I64_MAX"

abbreviation node_price :: "node \<Rightarrow> Price" where "node_price n \<equiv> l_price (snd n)"
abbreviation node_id :: "node \<Rightarrow> OrderId" where "node_id n \<equiv> l_id (snd n)"
abbreviation node_open :: "node \<Rightarrow> Quantity" where "node_open n \<equiv> open_qty (snd n)"
abbreviation nodes_ok :: "node list \<Rightarrow> bool" where "nodes_ok ns \<equiv> \<forall>n \<in> set ns. order_ok (snd n)"

lemma open_qty_ok: "order_ok r \<Longrightarrow> open_qty r = l_visible_qty r + l_hidden_qty r"
  by (simp add: open_qty_def order_ok_def i64_ok_def)

lemma open_qty_pos: "order_ok r \<Longrightarrow> 0 < open_qty r"
  by (simp add: open_qty_ok) (simp add: order_ok_def)

lemma open_qty_bound: "order_ok r \<Longrightarrow> open_qty r + l_filled_qty r \<le> I64_MAX"
  by (simp add: open_qty_ok) (simp add: order_ok_def)

lemma reduce_order_fields [simp]:
  "l_id (reduce_order m r) = l_id r" "l_trader_id (reduce_order m r) = l_trader_id r"
  "l_side (reduce_order m r) = l_side r" "l_price (reduce_order m r) = l_price r"
  "l_entry_time (reduce_order m r) = l_entry_time r"
  "l_queue_pos (reduce_order m r) = l_queue_pos r"
  "l_is_iceberg (reduce_order m r) = l_is_iceberg r"
  "l_cl_ord_id (reduce_order m r) = l_cl_ord_id r"
  by (simp_all add: reduce_order_def Let_def)

text \<open>No step of the reduction leaves the 64-bit range, and open plus filled is preserved.\<close>

lemma reduce_order_spec:
  assumes "order_ok r" and "0 < m" and "m \<le> open_qty r"
  shows "l_visible_qty (reduce_order m r) + l_hidden_qty (reduce_order m r) = open_qty r - m"
    and "l_filled_qty (reduce_order m r) = l_filled_qty r + m"
    and "0 \<le> l_visible_qty (reduce_order m r)" and "0 \<le> l_hidden_qty (reduce_order m r)"
proof -
  from assms have b: "0 \<le> l_visible_qty r" "0 \<le> l_hidden_qty r" "0 \<le> l_filled_qty r"
    "l_visible_qty r + l_hidden_qty r + l_filled_qty r \<le> I64_MAX"
    "m \<le> l_visible_qty r + l_hidden_qty r"
    by (simp_all add: order_ok_def open_qty_ok)
  note w = wrap64_id [OF i64_okI]
  have filled: "wrap64 (l_filled_qty r + m) = l_filled_qty r + m" by (rule w) (use b assms(2) in auto)
  have visible: "wrap64 (l_visible_qty r - m) = l_visible_qty r - m" if "m \<le> l_visible_qty r"
    by (rule w) (use b assms(2) that in auto)
  have from_hidden: "wrap64 (l_hidden_qty r - (m - l_visible_qty r)) =
      l_hidden_qty r - (m - l_visible_qty r)" if "\<not> m \<le> l_visible_qty r"
    by (rule w) (use b assms(2) that in auto)
  have replenish: "wrap64 (x - min x 100) = x - min x 100" if "0 \<le> x" "x \<le> I64_MAX" for x
    by (rule w) (use that in auto)
  note all = filled visible from_hidden replenish
  show "l_filled_qty (reduce_order m r) = l_filled_qty r + m"
    by (simp add: reduce_order_def Let_def filled)
  show "l_visible_qty (reduce_order m r) + l_hidden_qty (reduce_order m r) = open_qty r - m"
    using b assms(2) by (auto simp: reduce_order_def Let_def all open_qty_ok [OF assms(1)])
  show "0 \<le> l_visible_qty (reduce_order m r)"
    using b assms(2) by (auto simp: reduce_order_def Let_def all)
  show "0 \<le> l_hidden_qty (reduce_order m r)"
    using b assms(2) by (auto simp: reduce_order_def Let_def all)
qed

lemma reduce_order_open:
  assumes "order_ok r" and "0 < m" and "m \<le> open_qty r"
  shows "open_qty (reduce_order m r) = open_qty r - m"
proof -
  have "i64_ok (open_qty r - m)"
    using open_qty_bound [OF assms(1)] assms by (simp add: i64_ok_def order_ok_def)
  then show ?thesis by (simp add: open_qty_def [of "reduce_order m r"] reduce_order_spec [OF assms])
qed

lemma reduce_order_ok:
  assumes "order_ok r" and "0 < m" and "m < open_qty r"
  shows "order_ok (reduce_order m r)"
  using reduce_order_spec [of r m] open_qty_bound [of r] assms by (auto simp: order_ok_def)

section \<open>The flat reference\<close>

fun fill :: "Quantity \<Rightarrow> node list \<Rightarrow> Quantity \<times> node list \<times> (node \<times> Quantity) list" where
  "fill remaining [] = (remaining, [], [])"
| "fill remaining (n # ns) =
     (if remaining \<le> 0 then (remaining, n # ns, [])
      else if node_open n \<le> remaining
      then (case fill (remaining - node_open n) ns of
              (r, kept, fs) \<Rightarrow> (r, kept, (n, node_open n) # fs))
      else (0, (fst n, reduce_order remaining (snd n)) # ns, [(n, remaining)]))"

lemma fill_nonpos [simp]: "remaining \<le> 0 \<Longrightarrow> fill remaining ns = (remaining, ns, [])"
  by (cases ns) auto

lemma fill_append:
  "fill remaining (xs @ ys) =
     (case fill remaining xs of (r1, k1, f1) \<Rightarrow>
        (case fill r1 ys of (r2, k2, f2) \<Rightarrow> (r2, k1 @ k2, f1 @ f2)))"
  by (induction xs arbitrary: remaining) (auto split: prod.splits)

abbreviation total_open :: "node list \<Rightarrow> Quantity" where
  "total_open ns \<equiv> (\<Sum>n\<leftarrow>ns. node_open n)"

abbreviation whole_fills :: "node list \<Rightarrow> (node \<times> Quantity) list" where
  "whole_fills ns \<equiv> map (\<lambda>n. (n, node_open n)) ns"

lemma total_open_nonneg: "nodes_ok ns \<Longrightarrow> 0 \<le> total_open ns"
  by (intro sum_list_nonneg) (auto dest!: bspec open_qty_pos)

lemma total_open_pos: "nodes_ok ns \<Longrightarrow> ns \<noteq> [] \<Longrightarrow> 0 < total_open ns"
  by (cases ns) (auto dest: open_qty_pos intro!: add_pos_nonneg total_open_nonneg)

text \<open>What a fill does: whole orders from the front, then at most one partial fill.\<close>

inductive fill_shape :: "Quantity \<Rightarrow> node list \<Rightarrow> Quantity \<Rightarrow> node list \<Rightarrow> (node \<times> Quantity) list \<Rightarrow> bool" where
  whole: "0 \<le> r \<Longrightarrow> r = 0 \<or> kept = [] \<Longrightarrow> remaining = r + total_open xs \<Longrightarrow>
    fill_shape remaining (xs @ kept) r kept (whole_fills xs)"
| partial: "0 < m \<Longrightarrow> m < node_open n \<Longrightarrow> remaining = total_open xs + m \<Longrightarrow>
    fill_shape remaining (xs @ n # later) 0 ((fst n, reduce_order m (snd n)) # later) (whole_fills xs @ [(n, m)])"

lemma fill_shape_Cons:
  assumes "fill_shape (remaining - node_open n) ns r kept fs"
  shows "fill_shape remaining (n # ns) r kept ((n, node_open n) # fs)"
  using assms
proof cases
  case (whole xs)
  then have "fill_shape remaining ((n # xs) @ kept) r kept (whole_fills (n # xs))"
    by (intro fill_shape.whole) auto
  with whole show ?thesis by simp
next
  case (partial m n' xs later)
  then have "fill_shape remaining ((n # xs) @ n' # later) 0 ((fst n', reduce_order m (snd n')) # later)
      (whole_fills (n # xs) @ [(n', m)])"
    by (intro fill_shape.partial) auto
  with partial show ?thesis by simp
qed

lemma fill_has_shape:
  "fill remaining ns = (r, kept, fs) \<Longrightarrow> 0 \<le> remaining \<Longrightarrow> fill_shape remaining ns r kept fs"
proof (induction ns arbitrary: remaining r kept fs)
  case Nil
  then show ?case using fill_shape.whole [of r "[]" remaining "[]"] by simp
next
  case (Cons n ns)
  consider (stop) "remaining = 0" | (take) "0 < remaining" "node_open n \<le> remaining"
    | (part) "0 < remaining" "remaining < node_open n"
    using Cons.prems(2) by linarith
  then show ?case
  proof cases
    case stop
    with Cons.prems show ?thesis using fill_shape.whole [of 0 "n # ns" 0 "[]"] by simp
  next
    case part
    with Cons.prems show ?thesis
      using fill_shape.partial [of remaining n remaining "[]" ns] by auto
  next
    case take
    obtain r' k' f' where rest: "fill (remaining - node_open n) ns = (r', k', f')"
      by (metis prod_cases3)
    with Cons.prems take have "r = r'" "kept = k'" "fs = (n, node_open n) # f'" by auto
    then show ?thesis using Cons.IH [OF rest] take by (simp add: fill_shape_Cons)
  qed
qed

lemmas fill_split = fill_shape.cases [OF fill_has_shape, consumes 2, case_names whole partial]

lemma sum_whole_fills: "(\<Sum>(n, m)\<leftarrow>whole_fills ns. m) = total_open ns"
  by (induction ns) auto

lemma fill_conserves:
  assumes "fill remaining ns = (r, kept, fs)" and "nodes_ok ns" and "0 \<le> remaining"
  shows "(\<Sum>(n, m)\<leftarrow>fs. m) = remaining - r" (is ?sum)
    and "0 \<le> r" and "r \<le> remaining"
    and "total_open kept = total_open ns - (remaining - r)" (is ?open)
    and "nodes_ok kept"
    and "\<forall>(n, m) \<in> set fs. n \<in> set ns \<and> 0 < m \<and> m \<le> node_open n" (is ?each)
    and "0 < r \<Longrightarrow> kept = [] \<and> fs = whole_fills ns"
proof -
  have "?sum \<and> 0 \<le> r \<and> r \<le> remaining \<and> ?open \<and> nodes_ok kept \<and> ?each \<and>
      (0 < r \<longrightarrow> kept = [] \<and> fs = whole_fills ns)"
    using assms(1,3)
  proof (cases rule: fill_split)
    case (whole r kept remaining xs)
    moreover have "0 \<le> total_open xs" using whole assms(2) by (intro total_open_nonneg) auto
    moreover have "\<forall>n \<in> set xs. 0 < node_open n" using whole assms(2) by (auto intro: open_qty_pos)
    ultimately show ?thesis using assms(2) sum_whole_fills [of xs] by auto
  next
    case (partial m n remaining xs later)
    then have ok: "order_ok (snd n)" "nodes_ok xs" "nodes_ok later" using assms(2) by auto
    have "0 \<le> total_open xs" using ok(2) by (rule total_open_nonneg)
    moreover have "open_qty (reduce_order m (snd n)) = node_open n - m"
      "order_ok (reduce_order m (snd n))"
      using reduce_order_open [OF ok(1)] reduce_order_ok [OF ok(1)] partial by auto
    moreover have "\<forall>n \<in> set xs. 0 < node_open n" using ok(2) by (auto intro: open_qty_pos)
    ultimately show ?thesis using partial ok sum_whole_fills [of xs] by auto
  qed
  then show ?sum and "0 \<le> r" and "r \<le> remaining" and ?open and "nodes_ok kept" and ?each
    and "0 < r \<Longrightarrow> kept = [] \<and> fs = whole_fills ns"
    by blast+
qed

section \<open>The effect of the fills on the counters and the index\<close>

fun apply_fills :: "(node \<times> Quantity) list \<Rightarrow> L3OrderBook \<Rightarrow> L3OrderBook" where
  "apply_fills [] b = b"
| "apply_fills ((n, m) # fs) b =
     apply_fills fs ((if m = node_open n then forget_order (snd n) else id)
                       (count_trade (node_price n) m b))"

fun trades_of :: "L3OrderBook \<Rightarrow> Order \<Rightarrow> Timestamp \<Rightarrow> (node \<times> Quantity) list \<Rightarrow> Trade list" where
  "trades_of b inc ts [] = []"
| "trades_of b inc ts ((n, m) # fs) =
     make_trade b inc (snd n) (node_price n) m ts #
     trades_of (count_trade (node_price n) m b) inc ts fs"

lemma forget_reduced [simp]: "forget_order (reduce_order m r) b = forget_order r b"
  by (simp add: forget_order_def)

lemma trades_of_cong:
  "bk_next_trade_id b = bk_next_trade_id b' \<Longrightarrow> bk_symbol b = bk_symbol b' \<Longrightarrow>
   trades_of b inc ts fs = trades_of b' inc ts fs"
  by (induction fs arbitrary: b b') (auto simp: make_trade_def count_trade_def)

lemma forget_order_frame [simp]:
  "bk_next_trade_id (forget_order r b) = bk_next_trade_id b"
  "bk_symbol (forget_order r b) = bk_symbol b"
  by (simp_all add: forget_order_def Let_def split: Side.split)

lemma trades_of_forget [simp]: "trades_of (forget_order r b) inc ts fs = trades_of b inc ts fs"
  by (rule trades_of_cong) simp_all

lemma match_queue_stop [simp]: "remaining \<le> 0 \<Longrightarrow>
  match_queue inc p ts remaining q b = (remaining, q, [], b)"
  by (cases q) auto

lemma match_queue_fill:
  assumes "nodes_ok q" and "\<forall>n \<in> set q. node_price n = p" and "i64_ok remaining"
  shows "match_queue inc p ts remaining q b =
    (case fill remaining q of (r, kept, fs) \<Rightarrow> (r, kept, trades_of b inc ts fs, apply_fills fs b))"
  using assms
proof (induction q arbitrary: remaining b)
  case Nil
  then show ?case by simp
next
  case (Cons n q)
  obtain h r where n: "n = (h, r)" by (cases n)
  from Cons.prems n have ok: "order_ok r" and price: "l_price r = p" by auto
  note pos = open_qty_pos [OF ok]
  show ?case
  proof (cases "0 < remaining")
    case True
    show ?thesis
    proof (cases "open_qty r \<le> remaining")
      case whole: True
      have zero: "open_qty (reduce_order (open_qty r) r) = 0"
        using reduce_order_open [OF ok pos] by simp
      have sub: "wrap64 (remaining - open_qty r) = remaining - open_qty r"
        "i64_ok (remaining - open_qty r)"
        using Cons.prems(3) pos whole by (auto simp: i64_ok_def intro!: wrap64_id)
      have "match_queue inc p ts remaining ((h, r) # q) b =
          (case match_queue inc p ts (remaining - open_qty r) q
                  (forget_order r (count_trade p (open_qty r) b)) of
             (r', q', t', b') \<Rightarrow> (r', q', make_trade b inc r p (open_qty r) ts # t', b'))"
        using True whole zero sub(1) by (simp add: Let_def min_absorb2)
      also have "\<dots> = (case fill remaining ((h, r) # q) of
          (r', k, fs) \<Rightarrow> (r', k, trades_of b inc ts fs, apply_fills fs b))"
        using Cons.IH [OF _ _ sub(2)] Cons.prems n True whole price
        by (simp split: prod.split)
      finally show ?thesis using n by simp
    next
      case False
      then have "open_qty (reduce_order remaining r) \<noteq> 0" "min remaining (open_qty r) = remaining"
        using reduce_order_open [OF ok True] by simp_all
      then show ?thesis
        using True False n price by (simp add: Let_def)
    qed
  qed simp
qed

abbreviation eligible :: "Order \<Rightarrow> node plevels \<Rightarrow> node plevels" where
  "eligible inc ls \<equiv> takeWhile (\<lambda>l. \<not> beyond_limit inc (fst l)) ls"

abbreviation ineligible :: "Order \<Rightarrow> node plevels \<Rightarrow> node plevels" where
  "ineligible inc ls \<equiv> dropWhile (\<lambda>l. \<not> beyond_limit inc (fst l)) ls"

lemma apply_fills_append [simp]: "apply_fills (fs @ gs) b = apply_fills gs (apply_fills fs b)"
  by (induction fs arbitrary: b) auto

lemma trades_of_append:
  "trades_of b inc ts (fs @ gs) = trades_of b inc ts fs @ trades_of (apply_fills fs b) inc ts gs"
proof (induction fs arbitrary: b)
  case (Cons f fs)
  obtain n m where f: "f = (n, m)" by (cases f)
  let ?b = "(if m = node_open n then forget_order (snd n) else id) (count_trade (node_price n) m b)"
  have "trades_of (count_trade (node_price n) m b) inc ts (fs @ gs) = trades_of ?b inc ts (fs @ gs)"
    by simp
  with Cons f show ?case by simp
qed simp

lemma match_against_fill:
  assumes "levels_ok before node_price ls" and "nodes_ok (nodes ls)" and "i64_ok remaining"
    and "match_against inc ts remaining ls b = (r, ls', trades, b')"
    and "fill remaining (nodes (eligible inc ls)) = (fr, kept, fs)"
  shows "r = fr \<and> trades = trades_of b inc ts fs \<and> b' = apply_fills fs b \<and>
    nodes ls' = kept @ nodes (ineligible inc ls) \<and> levels_ok before node_price ls' \<and>
    fst ` set ls' \<subseteq> fst ` set ls"
  using assms
proof (induction ls arbitrary: remaining b r ls' trades b' fr kept fs)
  case Nil
  then show ?case by simp
next
  case (Cons l ls)
  obtain p q where l: "l = (p, q)" by (cases l)
  show ?case
  proof (cases "0 < remaining \<and> \<not> beyond_limit inc p")
    case False
    show ?thesis
    proof (cases "beyond_limit inc p")
      case True
      then have "(r, ls', trades, b') = (remaining, l # ls, [], b)"
        using Cons.prems(4) l by simp
      moreover have "(fr, kept, fs) = (remaining, [], [])" using Cons.prems(5) l True by simp
      ultimately show ?thesis using Cons.prems l True by simp
    next
      case elig: False
      then have "remaining \<le> 0" using False by simp
      then have "nodes ls' = nodes (eligible inc (l # ls)) @ nodes (ineligible inc (l # ls))"
        using Cons.prems(4) l elig
        by (simp only: nodes_append [symmetric] takeWhile_dropWhile_id) simp
      then show ?thesis using Cons.prems l elig \<open>remaining \<le> 0\<close> by auto
    qed
  next
    case True
    obtain r1 k1 f1 where f1: "fill remaining q = (r1, k1, f1)" by (metis prod_cases3)
    have q_ok: "nodes_ok q" "\<forall>n \<in> set q. node_price n = p"
      using Cons.prems(1,2) l by (auto simp: levels_ok_Cons)
    have mq: "match_queue inc p ts remaining q b = (r1, k1, trades_of b inc ts f1, apply_fills f1 b)"
      using match_queue_fill [OF q_ok Cons.prems(3)] f1 by simp
    have r1: "0 \<le> r1" "r1 \<le> remaining" and k1: "nodes_ok k1"
      using fill_conserves [OF f1 q_ok(1)] True by auto
    then have r1_ok: "i64_ok r1" using Cons.prems(3) by (auto intro: i64_ok_between)
    obtain r2 ls2 t2 b2 where m2: "match_against inc ts r1 ls (apply_fills f1 b) = (r2, ls2, t2, b2)"
      by (metis prod_cases4)
    obtain fr2 k2 f2 where f2: "fill r1 (nodes (eligible inc ls)) = (fr2, k2, f2)"
      by (metis prod_cases3)
    have ls_ok: "levels_ok before node_price ls" "nodes_ok (nodes ls)"
      using Cons.prems(1,2) l by (auto simp: levels_ok_Cons)
    note IH = Cons.IH [OF ls_ok r1_ok m2 f2]
    have out: "r = r2" "ls' = (if k1 = [] then ls2 else (p, k1) # ls2)"
      "trades = trades_of b inc ts f1 @ t2" "b' = b2"
      using Cons.prems(4) l True mq m2 by auto
    have flat: "fr = fr2" "kept = k1 @ k2" "fs = f1 @ f2"
      using Cons.prems(5) l True f1 f2 by (auto simp: fill_append)
    have price: "\<forall>n \<in> set k1. node_price n = p"
    proof -
      have "0 \<le> remaining" using True by simp
      from fill_split [OF f1 this] show ?thesis using q_ok(2) by cases auto
    qed
    have "\<forall>k \<in> fst ` set ls2. before p k"
    proof -
      have "\<forall>k \<in> fst ` set ls. before p k" using Cons.prems(1) l by (simp add: levels_ok_Cons)
      then show ?thesis using IH by blast
    qed
    then have "levels_ok before node_price ls'"
      using IH out(2) price by (auto simp: levels_ok_Cons)
    then show ?thesis
      using IH out flat l True by (auto simp: trades_of_append)
  qed
qed

section \<open>Closed forms\<close>

definition gone :: "(node \<times> Quantity) list \<Rightarrow> node list" where
  "gone fs = map fst (filter (\<lambda>(n, m). m = node_open n) fs)"

lemma gone_simps [simp]:
  "gone [] = []"
  "gone ((n, m) # fs) = (if m = node_open n then n # gone fs else gone fs)"
  "gone (fs @ gs) = gone fs @ gone gs"
  by (simp_all add: gone_def)

lemma gone_whole [simp]: "gone (whole_fills ns) = ns"
  by (induction ns) auto

lemma apply_fills_frame [simp]:
  "bk_symbol (apply_fills fs b) = bk_symbol b" "bk_bids (apply_fills fs b) = bk_bids b"
  "bk_asks (apply_fills fs b) = bk_asks b" "bk_trade_cb (apply_fills fs b) = bk_trade_cb b"
  "bk_tob_cb (apply_fills fs b) = bk_tob_cb b" "bk_depth_cb (apply_fills fs b) = bk_depth_cb b"
  "bk_next_node (apply_fills fs b) = bk_next_node b"
  by (induction fs b rule: apply_fills.induct)
     (auto simp: count_trade_def forget_order_def Let_def split: Side.split)

lemma apply_fills_index:
  "bk_order_index (apply_fills fs b) =
     (\<lambda>i. if i \<in> node_id ` set (gone fs) then None else bk_order_index b i)"
proof (induction fs b rule: apply_fills.induct)
  case (2 n m fs b)
  have "bk_order_index (forget_order r b) = (bk_order_index b)(l_id r := None)" for r b
    by (simp add: forget_order_def Let_def split: Side.split)
  moreover have "bk_order_index (count_trade p m b) = bk_order_index b" for p
    by (simp add: count_trade_def)
  ultimately show ?case using 2 by (auto simp: fun_eq_iff)
qed simp

lemma apply_fills_counts:
  "bk_bid_order_count (apply_fills fs b) =
     bk_bid_order_count b - of_nat (length (filter (\<lambda>n. l_side (snd n) = Buy) (gone fs)))"
  "bk_ask_order_count (apply_fills fs b) =
     bk_ask_order_count b - of_nat (length (filter (\<lambda>n. l_side (snd n) = Sell) (gone fs)))"
  by (induction fs b rule: apply_fills.induct)
     (auto simp: count_trade_def forget_order_def Let_def split: Side.split)

lemma apply_fills_trades:
  "bk_next_trade_id (apply_fills fs b) = bk_next_trade_id b + of_nat (length fs)"
  "bk_trade_count (apply_fills fs b) = bk_trade_count b + of_nat (length fs)"
  "bk_last_trade_price (apply_fills fs b) =
     (if fs = [] then bk_last_trade_price b else node_price (fst (last fs)))"
  by (induction fs b rule: apply_fills.induct)
     (auto simp: count_trade_def forget_order_def Let_def split: Side.split)

lemma apply_fills_volume:
  assumes "i64_ok (bk_total_volume b)"
  shows "bk_total_volume (apply_fills fs b) = wrap64 (bk_total_volume b + (\<Sum>(n, m)\<leftarrow>fs. m))"
  using assms
proof (induction fs b rule: apply_fills.induct)
  case (2 n m fs b)
  have "bk_total_volume (forget_order r b) = bk_total_volume b" for r b
    by (simp add: forget_order_def Let_def split: Side.split)
  moreover have "bk_total_volume (count_trade p m b) = wrap64 (bk_total_volume b + m)" for p
    by (simp add: count_trade_def)
  ultimately show ?case using 2 by (auto simp: add.assoc)
qed simp

lemma trades_of_fields:
  "map t_qty (trades_of b inc ts fs) = map snd fs"
  "map t_price (trades_of b inc ts fs) = map (node_price \<circ> fst) fs"
  "map t_resting_id (trades_of b inc ts fs) = map (node_id \<circ> fst) fs"
  "length (trades_of b inc ts fs) = length fs"
  by (induction b inc ts fs rule: trades_of.induct) (auto simp: make_trade_def)

lemma trades_of_Nil_iff [simp]: "trades_of b inc ts fs = [] \<longleftrightarrow> fs = []"
  by (cases fs) auto

lemma trades_of_nth:
  "k < length fs \<Longrightarrow> trades_of b inc ts fs ! k =
     \<lparr>t_trade_id = bk_next_trade_id b + of_nat k, t_resting_id = node_id (fst (fs ! k)),
      t_incoming_id = o_id inc, t_resting_trader = l_trader_id (snd (fst (fs ! k))),
      t_incoming_trader = o_trader_id inc, t_symbol = bk_symbol b,
      t_aggressor_side = o_side inc, t_price = node_price (fst (fs ! k)),
      t_qty = snd (fs ! k), t_match_timestamp_ns = ts\<rparr>"
proof (induction b inc ts fs arbitrary: k rule: trades_of.induct)
  case (2 b inc ts n m fs)
  then show ?case
    by (cases k) (auto simp: make_trade_def count_trade_def add.assoc)
qed simp

section \<open>The fill-or-kill look-ahead\<close>

lemma fok_available_spec:
  assumes "nodes_ok (nodes ls)" and "0 \<le> a" and "a + total_open (nodes ls) \<le> I64_MAX"
  shows "fok_available inc ls a \<ge> o_quantity inc \<longleftrightarrow>
     (if nodes (eligible inc ls) = [] then a else a + total_open (nodes (eligible inc ls)))
       \<ge> o_quantity inc"
  using assms
proof (induction ls arbitrary: a)
  case Nil
  then show ?case by simp
next
  case (Cons l ls)
  obtain p q where l: "l = (p, q)" by (cases l)
  have nonneg: "0 \<le> total_open q" "0 \<le> total_open (nodes ls)"
    "0 \<le> total_open (nodes (eligible inc ls))"
    using Cons.prems(1) l
    by (auto intro!: total_open_nonneg) (force simp: set_nodes dest: set_takeWhileD)
  have "foldl (\<lambda>a n. wrap64 (a + node_open n)) a q = wrap64 (a + total_open q)"
    using foldl_wrap_add [where s = a and xs = q and f = node_open] Cons.prems nonneg l
    by (simp add: i64_ok_def)
  also have "\<dots> = a + total_open q"
    using Cons.prems nonneg l by (simp add: i64_ok_def)
  finally have fold: "foldl (\<lambda>a n. wrap64 (a + node_open n)) a q = a + total_open q" .
  show ?case
    using Cons.IH [of "a + total_open q"] Cons.prems nonneg l fold
    by (auto simp: Let_def add.assoc)
qed

end
