(* ===== verification/L3Invariant.thy ===== *)
theory L3Invariant
  imports L3Match
begin

text \<open>
  The invariant of the order book and its preservation by every public operation.  It says that
  the levels of each side are sorted and non-empty, every resting order carries the side and price
  of its level and positive open quantity in range, identifiers and nodes are distinct, the order
  index holds exactly the resting orders and the iterators to their nodes, the order counters
  count, and the book is not crossed.  \<open>cancel_effect\<close> is the memory-safety argument: under the
  invariant no operation follows or erases a dangling iterator.
\<close>

section \<open>The invariant\<close>

definition loc_of :: "node \<Rightarrow> OrderLocation" where
  "loc_of n = \<lparr>loc_side = l_side (snd n), loc_price = node_price n, loc_it = fst n\<rparr>"

text \<open>What identifies a node: matching and renumbering keep it.\<close>

definition node_key :: "node \<Rightarrow> nat \<times> OrderId \<times> Side \<times> Price" where
  "node_key n = (fst n, node_id n, l_side (snd n), node_price n)"

definition index_ok :: "(OrderId \<rightharpoonup> OrderLocation) \<Rightarrow> node list \<Rightarrow> bool" where
  "index_ok idx ns \<longleftrightarrow>
     (\<forall>i loc. idx i = Some loc \<longleftrightarrow> (i, loc) \<in> (\<lambda>n. (node_id n, loc_of n)) ` set ns)"

definition pool_ok :: "(OrderId \<rightharpoonup> OrderLocation) \<Rightarrow> nat \<Rightarrow> node list \<Rightarrow> bool" where
  "pool_ok idx next ns \<longleftrightarrow> distinct (map fst ns) \<and> distinct (map node_id ns) \<and>
     (\<forall>n \<in> set ns. fst n < next) \<and> index_ok idx ns"

definition side_ok :: "(Price \<Rightarrow> Price \<Rightarrow> bool) \<Rightarrow> Side \<Rightarrow> node plevels \<Rightarrow> bool" where
  "side_ok before s ls \<longleftrightarrow> levels_ok before node_price ls \<and>
     (\<forall>n \<in> set (nodes ls). l_side (snd n) = s \<and> order_ok (snd n) \<and> i64_ok (node_price n))"

definition uncrossed :: "L3OrderBook \<Rightarrow> bool" where
  "uncrossed b \<longleftrightarrow>
     (\<forall>x \<in> set (nodes (bk_bids b)). \<forall>y \<in> set (nodes (bk_asks b)). node_price x < node_price y)"

definition l3_inv :: "L3OrderBook \<Rightarrow> bool" where
  "l3_inv b \<longleftrightarrow> side_ok (>) Buy (bk_bids b) \<and> side_ok (<) Sell (bk_asks b) \<and>
     pool_ok (bk_order_index b) (bk_next_node b) (all_nodes b) \<and>
     bk_bid_order_count b = of_nat (length (nodes (bk_bids b))) \<and>
     bk_ask_order_count b = of_nat (length (nodes (bk_asks b))) \<and>
     uncrossed b \<and> i64_ok (bk_total_volume b) \<and> bk_next_trade_id b = bk_trade_count b + 1"

lemma l3_inv_init: "l3_inv (L3OrderBook_init s)"
  by (simp add: l3_inv_def L3OrderBook_init_def side_ok_def pool_ok_def index_ok_def all_nodes_def
      uncrossed_def)

lemma l3_invD:
  assumes "l3_inv b"
  shows "side_ok (>) Buy (bk_bids b)" "side_ok (<) Sell (bk_asks b)"
    "pool_ok (bk_order_index b) (bk_next_node b) (all_nodes b)" "uncrossed b"
    "levels_ok (>) node_price (bk_bids b)" "levels_ok (<) node_price (bk_asks b)"
    "nodes_ok (nodes (bk_bids b))" "nodes_ok (nodes (bk_asks b))" "nodes_ok (all_nodes b)"
  using assms by (auto simp: l3_inv_def side_ok_def all_nodes_def)

section \<open>Lemmas on the pool of nodes\<close>

lemma loc_of_key: "node_key n = node_key n' \<Longrightarrow> loc_of n = loc_of n'"
  by (simp add: node_key_def loc_of_def)

lemma pool_ok_mset: "mset ns = mset ns' \<Longrightarrow> pool_ok idx next ns = pool_ok idx next ns'"
proof -
  assume m: "mset ns = mset ns'"
  then have "distinct (map fst ns) = distinct (map fst ns')"
    "distinct (map node_id ns) = distinct (map node_id ns')"
    by (metis mset_eq_imp_distinct_iff mset_map)+
  then show ?thesis using mset_eq_setD [OF m] by (simp only: pool_ok_def index_ok_def)
qed

lemma pool_ok_key_cong:
  assumes "map node_key ns = map node_key ns'"
  shows "pool_ok idx next ns = pool_ok idx next ns'"
proof -
  have eq: "map (f \<circ> node_key) ns = map (f \<circ> node_key) ns'" for f :: "_ \<Rightarrow> 'b"
    using assms by (metis map_map)
  have fst_eq: "map fst ns = map fst ns'" using eq [of fst] by (simp add: node_key_def comp_def)
  have id_eq: "map node_id ns = map node_id ns'"
    using eq [of "fst \<circ> snd"] by (simp add: node_key_def comp_def)
  have "map (\<lambda>n. (node_id n, loc_of n)) ns = map (\<lambda>n. (node_id n, loc_of n)) ns'"
    using eq [of "\<lambda>(h, i, s, p). (i, \<lparr>loc_side = s, loc_price = p, loc_it = h\<rparr>)"]
    by (simp add: node_key_def loc_of_def [abs_def] comp_def)
  from arg_cong [OF this, where f = set]
  have "(\<lambda>n. (node_id n, loc_of n)) ` set ns = (\<lambda>n. (node_id n, loc_of n)) ` set ns'"
    by (simp only: set_map)
  moreover from arg_cong [OF fst_eq, where f = set] have "fst ` set ns = fst ` set ns'"
    by (simp only: set_map)
  moreover have "(\<forall>n \<in> set ns. fst n < next) \<longleftrightarrow> (\<forall>k \<in> fst ` set ns. k < next)" for ns :: "node list"
    by simp
  ultimately show ?thesis using fst_eq id_eq by (simp only: pool_ok_def index_ok_def)
qed

lemma pool_ok_add:
  assumes "pool_ok idx (fst n) ns" and "idx (node_id n) = None"
  shows "pool_ok (idx(node_id n \<mapsto> loc_of n)) (fst n + 1) (n # ns)"
proof -
  have fresh: "node_id n \<notin> node_id ` set ns"
  proof
    assume "node_id n \<in> node_id ` set ns"
    then obtain m where m: "m \<in> set ns" "node_id n = node_id m" by auto
    then have "(node_id n, loc_of m) \<in> (\<lambda>n. (node_id n, loc_of n)) ` set ns" by simp
    then have "idx (node_id n) = Some (loc_of m)"
      using assms(1) unfolding pool_ok_def index_ok_def by blast
    then show False using assms(2) by simp
  qed
  moreover have "index_ok (idx(node_id n \<mapsto> loc_of n)) (n # ns)"
    using assms(1) fresh by (auto simp: pool_ok_def index_ok_def image_iff)
  ultimately show ?thesis
    using assms(1) by (auto simp: pool_ok_def less_Suc_eq)
qed

lemma pool_ok_drop:
  assumes "pool_ok idx next (xs @ ns)"
  shows "pool_ok (\<lambda>i. if i \<in> node_id ` set xs then None else idx i) next ns"
proof -
  from assms have "node_id ` set xs \<inter> node_id ` set ns = {}"
    by (auto simp: pool_ok_def)
  then show ?thesis using assms by (auto simp: pool_ok_def index_ok_def)
qed

lemma pool_ok_find:
  assumes "pool_ok idx next ns" and "n \<in> set ns"
  shows "map_of ns (fst n) = Some (snd n)" and "idx (node_id n) = Some (loc_of n)"
  using assms by (cases n, auto simp: pool_ok_def index_ok_def)

section \<open>The effect of matching\<close>

definition opposite :: "Order \<Rightarrow> L3OrderBook \<Rightarrow> node plevels" where
  "opposite inc b = (case o_side inc of Buy \<Rightarrow> bk_asks b | Sell \<Rightarrow> bk_bids b)"

definition set_opposite :: "Order \<Rightarrow> node plevels \<Rightarrow> L3OrderBook \<Rightarrow> L3OrderBook" where
  "set_opposite inc ls b =
     (case o_side inc of Buy \<Rightarrow> b\<lparr>bk_asks := ls\<rparr> | Sell \<Rightarrow> b\<lparr>bk_bids := ls\<rparr>)"

definition opp_before :: "Order \<Rightarrow> Price \<Rightarrow> Price \<Rightarrow> bool" where
  "opp_before inc = (case o_side inc of Buy \<Rightarrow> (<) | Sell \<Rightarrow> (>))"

definition fok_fails :: "Order \<Rightarrow> L3OrderBook \<Rightarrow> bool" where
  "fok_fails inc b \<longleftrightarrow> o_tif inc = FOK \<and> fok_available inc (opposite inc b) 0 < o_quantity inc"

lemma opposite_ok:
  assumes "l3_inv b"
  shows "levels_ok (opp_before inc) node_price (opposite inc b)"
    and "nodes_ok (nodes (opposite inc b))"
    and "set (nodes (opposite inc b)) \<subseteq> set (all_nodes b)"
  using l3_invD [OF assms] by (auto simp: opp_before_def opposite_def all_nodes_def split: Side.split)

lemma nodes_split: "nodes (eligible inc ls) @ nodes (ineligible inc ls) = nodes ls"
  by (metis nodes_append takeWhile_dropWhile_id)

lemma match_incoming_fok: "fok_fails inc b \<Longrightarrow> match_incoming inc ts b =
    (\<lparr>mr_trades = [], mr_remaining_qty = o_quantity inc, mr_fully_filled = False\<rparr>, b)"
  by (simp add: match_incoming_def fok_fails_def opposite_def)

lemma match_incoming_fill:
  assumes "l3_inv b" and "order_typed inc" and "\<not> fok_fails inc b"
    and "fill (o_quantity inc) (nodes (eligible inc (opposite inc b))) = (r, kept, fs)"
  obtains ls' where
    "match_incoming inc ts b =
       (\<lparr>mr_trades = trades_of b inc ts fs, mr_remaining_qty = r, mr_fully_filled = (r = 0)\<rparr>,
        set_opposite inc ls' (apply_fills fs b))"
    "nodes ls' = kept @ nodes (ineligible inc (opposite inc b))"
    "levels_ok (opp_before inc) node_price ls'"
proof -
  obtain r' ls' trades b' where
    m: "match_against inc ts (o_quantity inc) (opposite inc b) b = (r', ls', trades, b')"
    by (metis prod_cases4)
  note res = match_against_fill [OF opposite_ok(1,2) [OF assms(1)] order_typedD(2) [OF assms(2)]
      m assms(4)]
  have "match_incoming inc ts b =
      (\<lparr>mr_trades = trades, mr_remaining_qty = r', mr_fully_filled = (r' = 0)\<rparr>,
       set_opposite inc ls' b')"
    using m assms(3)
    by (auto simp: match_incoming_def fok_fails_def opposite_def set_opposite_def
        split: Side.splits)
  then show thesis using res by (intro that) auto
qed

lemma fill_keys:
  assumes "fill remaining ns = (r, kept, fs)"
  shows "map node_key (gone fs @ kept) = map node_key ns"
proof (cases "0 \<le> remaining")
  case True
  from fill_split [OF assms True] show ?thesis by cases (auto simp: node_key_def)
next
  case False
  then show ?thesis using assms by (auto simp: gone_def)
qed

lemma fill_gone: "fill remaining ns = (r, kept, fs) \<Longrightarrow> set (gone fs) \<subseteq> set ns"
proof (induction remaining ns arbitrary: r kept fs rule: fill.induct)
  case (2 remaining n ns)
  then show ?case by (auto split: if_splits prod.splits)
qed simp

lemma beyond_ineligible:
  assumes "levels_ok (opp_before inc) node_price ls" and "n \<in> set (nodes (ineligible inc ls))"
  shows "beyond_limit inc (node_price n)"
proof -
  have ok: "levels_ok (opp_before inc) node_price (ineligible inc ls)"
    using assms(1) levels_ok_append [of "opp_before inc" node_price "eligible inc ls"
        "ineligible inc ls"] by simp
  obtain p q where pq: "(p, q) \<in> set (ineligible inc ls)" "n \<in> set q"
    using assms(2) by (auto simp: set_nodes)
  then obtain p0 q0 rest where ls: "ineligible inc ls = (p0, q0) # rest"
    by (cases "ineligible inc ls") auto
  then have first: "beyond_limit inc p0" by (auto simp: dropWhile_eq_Cons_conv)
  moreover have "p = p0 \<or> opp_before inc p0 p" using ok pq(1) ls by (auto simp: levels_ok_Cons)
  ultimately have "beyond_limit inc p"
    by (auto simp: beyond_limit_def opp_before_def split: Side.splits)
  then show ?thesis using pq ok by (auto dest: levels_ok_key)
qed

text \<open>Consuming eligible orders keeps the invariant, whatever happens to the remainder.\<close>

lemma match_preserves:
  assumes inv: "l3_inv b"
    and f: "fill remaining (nodes (eligible inc (opposite inc b))) = (r, kept, fs)"
    and rem: "0 \<le> remaining"
    and ls': "nodes ls' = kept @ nodes (ineligible inc (opposite inc b))"
      "levels_ok (opp_before inc) node_price ls'"
  shows "l3_inv (set_opposite inc ls' (apply_fills fs b))"
proof -
  define el inel where "el = nodes (eligible inc (opposite inc b))"
    and "inel = nodes (ineligible inc (opposite inc b))"
  have opp: "nodes (opposite inc b) = el @ inel" by (simp add: el_def inel_def nodes_split)
  note f' = f [folded el_def]
  have el_ok: "nodes_ok el" using opposite_ok(2) [OF inv, of inc] opp by simp
  have keys: "map node_key (gone fs @ kept) = map node_key el" by (rule fill_keys [OF f'])
  have len: "length el = length (gone fs) + length kept"
    using arg_cong [OF keys, where f = length] by simp
  have kept_ok: "nodes_ok kept" by (rule fill_conserves(5) [OF f' el_ok rem])
  have key_in: "node_key n \<in> node_key ` set el" if "n \<in> set kept" for n
    using arg_cong [OF keys, where f = set] that by auto
  have kept_el: "\<exists>n' \<in> set el. node_id n' = node_id n \<and> l_side (snd n') = l_side (snd n) \<and>
      node_price n' = node_price n" if "n \<in> set kept" for n
  proof -
    from key_in [OF that] obtain m where "m \<in> set el" "node_key m = node_key n" by auto
    then show ?thesis by (intro bexI [of _ m]) (simp_all add: node_key_def)
  qed
  have kept_from_el: "P (l_side (snd n)) (node_price n)"
    if "\<forall>m \<in> set el. P (l_side (snd m)) (node_price m)" "n \<in> set kept" for P n
    using kept_el [OF that(2)] that(1) by metis
  have gone_el: "set (gone fs) \<subseteq> set el" by (rule fill_gone [OF f'])
  have pool: "pool_ok (bk_order_index (apply_fills fs b)) (bk_next_node b) (own @ kept @ inel)"
    if own: "mset (all_nodes b) = mset (own @ el @ inel)" for own
  proof -
    have "pool_ok (bk_order_index b) (bk_next_node b) (el @ inel @ own)"
      using l3_invD(3) [OF inv] pool_ok_mset [of "all_nodes b" "el @ inel @ own"] own by simp
    then have "pool_ok (bk_order_index b) (bk_next_node b) (gone fs @ kept @ inel @ own)"
      using pool_ok_key_cong [of "el @ inel @ own" "gone fs @ kept @ inel @ own"] keys by simp
    from pool_ok_drop [OF this]
    have "pool_ok (bk_order_index (apply_fills fs b)) (bk_next_node b) (kept @ inel @ own)"
      by (simp add: apply_fills_index)
    then show ?thesis using pool_ok_mset [of "kept @ inel @ own" "own @ kept @ inel"] by simp
  qed
  have volume: "i64_ok (bk_total_volume (apply_fills fs b))"
    using inv by (simp add: apply_fills_volume l3_inv_def)
  show ?thesis
  proof (cases "o_side inc")
    case Buy
    then have asks: "nodes (bk_asks b) = el @ inel" using opp by (simp add: opposite_def)
    have sell: "\<forall>n \<in> set (el @ inel). l_side (snd n) = Sell \<and> order_ok (snd n) \<and> i64_ok (node_price n)"
      using inv asks by (simp add: l3_inv_def side_ok_def)
    have "side_ok (<) Sell ls'"
      using ls' Buy sell kept_ok kept_from_el [where P = "\<lambda>s p. s = Sell \<and> i64_ok p"]
      by (auto simp: side_ok_def opp_before_def inel_def)
    moreover have "node_price x < node_price y"
      if "x \<in> set (nodes (bk_bids b))" "y \<in> set kept" for x y
      using l3_invD(4) [OF inv] asks that
        kept_from_el [where P = "\<lambda>s p. node_price x < p", of y]
      by (simp add: uncrossed_def)
    then have "uncrossed (b\<lparr>bk_asks := ls'\<rparr>)"
      using l3_invD(4) [OF inv] asks ls'(1)
      unfolding uncrossed_def inel_def by simp blast
    moreover have "\<forall>n \<in> set (gone fs). l_side (snd n) = Sell" using sell gone_el by auto
    then have "filter (\<lambda>n. l_side (snd n) = Sell) (gone fs) = gone fs"
      "filter (\<lambda>n. l_side (snd n) = Buy) (gone fs) = []"
      by (simp_all add: filter_id_conv filter_empty_conv)
    ultimately show ?thesis
      using inv pool [of "nodes (bk_bids b)"] asks ls'(1) volume len Buy
      by (auto simp: l3_inv_def set_opposite_def all_nodes_def inel_def uncrossed_def
          apply_fills_counts apply_fills_trades)
  next
    case Sell
    then have bids: "nodes (bk_bids b) = el @ inel" using opp by (simp add: opposite_def)
    have buy: "\<forall>n \<in> set (el @ inel). l_side (snd n) = Buy \<and> order_ok (snd n) \<and> i64_ok (node_price n)"
      using inv bids by (simp add: l3_inv_def side_ok_def)
    have "side_ok (>) Buy ls'"
      using ls' Sell buy kept_ok kept_from_el [where P = "\<lambda>s p. s = Buy \<and> i64_ok p"]
      by (auto simp: side_ok_def opp_before_def inel_def)
    moreover have "node_price x < node_price y"
      if "y \<in> set (nodes (bk_asks b))" "x \<in> set kept" for x y
      using l3_invD(4) [OF inv] bids that
        kept_from_el [where P = "\<lambda>s p. p < node_price y", of x]
      by (simp add: uncrossed_def)
    then have "uncrossed (b\<lparr>bk_bids := ls'\<rparr>)"
      using l3_invD(4) [OF inv] bids ls'(1)
      unfolding uncrossed_def inel_def by simp blast
    moreover have "\<forall>n \<in> set (gone fs). l_side (snd n) = Buy" using buy gone_el by auto
    then have "filter (\<lambda>n. l_side (snd n) = Buy) (gone fs) = gone fs"
      "filter (\<lambda>n. l_side (snd n) = Sell) (gone fs) = []"
      by (simp_all add: filter_id_conv filter_empty_conv)
    moreover have "pool_ok (bk_order_index (apply_fills fs b)) (bk_next_node b)
        (nodes ls' @ nodes (bk_asks b))"
      using pool [of "nodes (bk_asks b)"] bids ls'(1)
        pool_ok_mset [of "nodes (bk_asks b) @ kept @ inel" "nodes ls' @ nodes (bk_asks b)"]
      by (simp add: all_nodes_def inel_def)
    ultimately show ?thesis
      using inv bids ls'(1) volume len Sell
      by (auto simp: l3_inv_def set_opposite_def all_nodes_def inel_def uncrossed_def
          apply_fills_counts apply_fills_trades)
  qed
qed

end
