(* ===== verification/L3Operations.thy ===== *)
theory L3Operations
  imports L3Invariant
begin

text \<open>
  The effect of resting, cancelling and replacing on the book, the preservation of the invariant by
  every public operation, and its interpretation as an invariant of the reachable books.
\<close>

section \<open>Resting an order\<close>

definition own :: "Order \<Rightarrow> L3OrderBook \<Rightarrow> node plevels" where
  "own inc b = (case o_side inc of Buy \<Rightarrow> bk_bids b | Sell \<Rightarrow> bk_asks b)"

definition own_before :: "Order \<Rightarrow> Price \<Rightarrow> Price \<Rightarrow> bool" where
  "own_before inc = (case o_side inc of Buy \<Rightarrow> (>) | Sell \<Rightarrow> (<))"

definition new_node :: "Order \<Rightarrow> Quantity \<Rightarrow> Timestamp \<Rightarrow> L3OrderBook \<Rightarrow> node" where
  "new_node inc remaining ts b =
     resting_node inc remaining ts (bk_next_node b)
       (length (queue_at (o_price inc) (own inc b)) + 1)"

lemma new_node_simps [simp]:
  "fst (new_node inc remaining ts b) = bk_next_node b"
  "node_id (new_node inc remaining ts b) = o_id inc"
  "node_price (new_node inc remaining ts b) = o_price inc"
  "l_side (snd (new_node inc remaining ts b)) = o_side inc"
  "l_trader_id (snd (new_node inc remaining ts b)) = o_trader_id inc"
  "l_visible_qty (snd (new_node inc remaining ts b)) = remaining"
  "l_hidden_qty (snd (new_node inc remaining ts b)) = 0"
  "l_filled_qty (snd (new_node inc remaining ts b)) = sub64 (o_quantity inc) remaining"
  "l_is_iceberg (snd (new_node inc remaining ts b)) = False"
  "l_queue_pos (snd (new_node inc remaining ts b)) =
     of_nat (length (queue_at (o_price inc) (own inc b)))"
  by (simp_all add: new_node_def resting_node_def)

lemma new_node_ok:
  assumes "order_typed inc" and "0 < remaining" and "remaining \<le> o_quantity inc"
  shows "order_ok (snd (new_node inc remaining ts b))"
  using assms by (auto simp: order_ok_def order_typed_def i64_ok_def)

lemma add_resting_own:
  assumes "l3_inv b"
  shows "nodes (own inc (add_resting_order inc remaining ts b)) =
      stable_insert (own_before inc) node_price (new_node inc remaining ts b) (nodes (own inc b))"
    and "levels_ok (own_before inc) node_price (own inc (add_resting_order inc remaining ts b))"
proof -
  note ok = l3_invD(5,6) [OF assms]
  let ?n = "new_node inc remaining ts b"
  let ?f = "\<lambda>q. q @ [resting_node inc remaining ts (bk_next_node b) (length q + 1)]"
  have bids: "lv_at (>) (o_price inc) ?f (bk_bids b) =
      lv_at (>) (o_price inc) (\<lambda>q. q @ [?n]) (bk_bids b)" if "o_side inc = Buy"
    by (rule bid.lv_at_cong [OF ok(1)]) (simp add: that new_node_def own_def queue_at_def)
  have asks: "lv_at (<) (o_price inc) ?f (bk_asks b) =
      lv_at (<) (o_price inc) (\<lambda>q. q @ [?n]) (bk_asks b)" if "o_side inc = Sell"
    by (rule ask.lv_at_cong [OF ok(2)]) (simp add: that new_node_def own_def queue_at_def)
  show "nodes (own inc (add_resting_order inc remaining ts b)) =
      stable_insert (own_before inc) node_price ?n (nodes (own inc b))"
    using bids asks bid.nodes_lv_at [OF ok(1), of ?n] ask.nodes_lv_at [OF ok(2), of ?n]
    by (cases "o_side inc") (simp_all add: own_def own_before_def add_resting_order_def Let_def)
  show "levels_ok (own_before inc) node_price (own inc (add_resting_order inc remaining ts b))"
    using bids asks bid.lv_at_ok [OF ok(1), of ?n] ask.lv_at_ok [OF ok(2), of ?n]
    by (cases "o_side inc") (simp_all add: own_def own_before_def add_resting_order_def Let_def)
qed

lemma add_resting_frame [simp]:
  "opposite inc (add_resting_order inc remaining ts b) = opposite inc b"
  "bk_symbol (add_resting_order inc remaining ts b) = bk_symbol b"
  "bk_trade_count (add_resting_order inc remaining ts b) = bk_trade_count b"
  "bk_next_trade_id (add_resting_order inc remaining ts b) = bk_next_trade_id b"
  "bk_total_volume (add_resting_order inc remaining ts b) = bk_total_volume b"
  "bk_last_trade_price (add_resting_order inc remaining ts b) = bk_last_trade_price b"
  "bk_trade_cb (add_resting_order inc remaining ts b) = bk_trade_cb b"
  "bk_tob_cb (add_resting_order inc remaining ts b) = bk_tob_cb b"
  "bk_next_node (add_resting_order inc remaining ts b) = bk_next_node b + 1"
  "bk_order_index (add_resting_order inc remaining ts b) =
     (bk_order_index b)(o_id inc \<mapsto> loc_of (new_node inc remaining ts b))"
  by (auto simp: add_resting_order_def Let_def opposite_def loc_of_def split: Side.split)

lemma add_resting_counts:
  "bk_bid_order_count (add_resting_order inc remaining ts b) =
     bk_bid_order_count b + (if o_side inc = Buy then 1 else 0)"
  "bk_ask_order_count (add_resting_order inc remaining ts b) =
     bk_ask_order_count b + (if o_side inc = Sell then 1 else 0)"
  by (auto simp: add_resting_order_def Let_def split: Side.split)

lemma add_resting_preserves:
  assumes inv: "l3_inv b" and typed: "order_typed inc" and fresh: "bk_order_index b (o_id inc) = None"
    and rem: "0 < remaining" "remaining \<le> o_quantity inc"
    and away: "\<forall>n \<in> set (nodes (opposite inc b)). beyond_limit inc (node_price n)"
  shows "l3_inv (add_resting_order inc remaining ts b)"
proof -
  let ?n = "new_node inc remaining ts b" and ?b = "add_resting_order inc remaining ts b"
  note own' = add_resting_own [OF inv, of inc remaining ts]
  have pool: "pool_ok (bk_order_index ?b) (bk_next_node ?b) (?n # all_nodes b)"
    using pool_ok_add [of "bk_order_index b" ?n "all_nodes b"] l3_invD(3) [OF inv] fresh by simp
  have n_ok: "order_ok (snd ?n)" by (rule new_node_ok [OF typed rem])
  show ?thesis
  proof (cases "o_side inc")
    case Buy
    then have o: "nodes (bk_bids ?b) = stable_insert (>) node_price ?n (nodes (bk_bids b))"
      "levels_ok (>) node_price (bk_bids ?b)" "bk_asks ?b = bk_asks b"
      using own' by (simp_all add: own_def own_before_def add_resting_order_def Let_def)
    have "pool_ok (bk_order_index ?b) (bk_next_node ?b) (all_nodes ?b)"
      using pool o(1,3) pool_ok_mset [of "all_nodes ?b" "?n # all_nodes b"]
      by (simp add: all_nodes_def)
    moreover have "side_ok (>) Buy (bk_bids ?b)"
      using inv o n_ok Buy typed by (auto simp: l3_inv_def side_ok_def order_typed_def)
    moreover have "uncrossed ?b"
      using l3_invD(4) [OF inv] o away Buy
      by (auto simp: uncrossed_def opposite_def beyond_limit_def)
    ultimately show ?thesis
      using inv o Buy by (simp add: l3_inv_def add_resting_counts)
  next
    case Sell
    then have o: "nodes (bk_asks ?b) = stable_insert (<) node_price ?n (nodes (bk_asks b))"
      "levels_ok (<) node_price (bk_asks ?b)" "bk_bids ?b = bk_bids b"
      using own' by (simp_all add: own_def own_before_def add_resting_order_def Let_def)
    have "pool_ok (bk_order_index ?b) (bk_next_node ?b) (all_nodes ?b)"
      using pool o(1,3) pool_ok_mset [of "all_nodes ?b" "?n # all_nodes b"]
      by (simp add: all_nodes_def)
    moreover have "side_ok (<) Sell (bk_asks ?b)"
      using inv o n_ok Sell typed by (auto simp: l3_inv_def side_ok_def order_typed_def)
    moreover have "uncrossed ?b"
      using l3_invD(4) [OF inv] o away Sell
      by (auto simp: uncrossed_def opposite_def beyond_limit_def)
    ultimately show ?thesis
      using inv o Sell by (simp add: l3_inv_def add_resting_counts)
  qed
qed

section \<open>Adding an order\<close>

text \<open>
  The possible courses of \<open>add_order\<close> on a fresh identifier: the order is killed or has nothing to
  do, or it is filled against the eligible opposite orders and the remainder is settled.
\<close>

lemma match_incoming_nonpos:
  assumes "l3_inv b" and "o_quantity inc \<le> 0"
  shows "match_incoming inc ts b =
    (\<lparr>mr_trades = [], mr_remaining_qty = o_quantity inc, mr_fully_filled = (o_quantity inc = 0)\<rparr>, b)
    \<or> match_incoming inc ts b =
    (\<lparr>mr_trades = [], mr_remaining_qty = o_quantity inc, mr_fully_filled = False\<rparr>, b)"
proof -
  have stop: "match_against inc ts r ls b = (r, ls, [], b)" if "r \<le> 0" for r ls
    using that by (cases "(inc, ts, r, ls, b)" rule: match_against.cases) auto
  show ?thesis
    using stop [OF assms(2)] by (auto simp: match_incoming_def Let_def split: Side.splits)
qed

lemma settle_no_remainder [simp]:
  "mr_remaining_qty result \<le> 0 \<Longrightarrow> settle_remainder inc ts result rpt b = (rpt, b)"
  by (simp add: settle_remainder_def)

lemma settle_book:
  "snd (settle_remainder inc ts result rpt b) =
     (if mr_remaining_qty result > 0 \<and> o_type inc = Limit \<and> o_tif inc \<in> {Day, GTC}
      then add_resting_order inc (mr_remaining_qty result) ts b else b)"
  by (auto simp: settle_remainder_def split: TimeInForce.split)

lemma add_order_book:
  "fst (snd (add_order b inc ts)) =
     (if bk_order_index b (o_id inc) \<noteq> None then b
      else snd (settle_remainder inc ts (fst (match_incoming inc ts b))
                  (fill_report inc ts (fst (match_incoming inc ts b)))
                  (snd (match_incoming inc ts b))))"
  by (simp add: add_order_def Let_def split: prod.splits)

lemma index_after_fills:
  "bk_order_index b i = None \<Longrightarrow> bk_order_index (set_opposite inc ls (apply_fills fs b)) i = None"
  by (simp add: set_opposite_def apply_fills_index split: Side.split)

lemma opposite_set_opposite [simp]: "opposite inc (set_opposite inc ls b) = ls"
  by (simp add: opposite_def set_opposite_def split: Side.split)

lemma own_set_opposite [simp]: "own inc (set_opposite inc ls b) = own inc b"
  by (simp add: own_def set_opposite_def split: Side.split)

lemma match_incoming_preserves:
  assumes inv: "l3_inv b" and typed: "order_typed inc"
    and m: "match_incoming inc ts b = (result, b1)"
  shows "l3_inv b1" and "bk_order_index b i = None \<Longrightarrow> bk_order_index b1 i = None"
    and "mr_remaining_qty result \<le> o_quantity inc"
    and "0 < mr_remaining_qty result \<Longrightarrow> o_tif inc \<noteq> FOK \<Longrightarrow>
      \<forall>n \<in> set (nodes (opposite inc b1)). beyond_limit inc (node_price n)"
proof -
  have "l3_inv b1 \<and> (bk_order_index b i = None \<longrightarrow> bk_order_index b1 i = None) \<and>
      mr_remaining_qty result \<le> o_quantity inc \<and>
      (0 < mr_remaining_qty result \<longrightarrow> o_tif inc \<noteq> FOK \<longrightarrow>
        (\<forall>n \<in> set (nodes (opposite inc b1)). beyond_limit inc (node_price n)))"
  proof (cases "fok_fails inc b \<or> o_quantity inc \<le> 0")
    case True
    then show ?thesis
      using match_incoming_fok [of inc b ts] match_incoming_nonpos [OF inv, of inc ts] m inv
      by (auto simp: fok_fails_def)
  next
    case False
    obtain r kept fs where f:
      "fill (o_quantity inc) (nodes (eligible inc (opposite inc b))) = (r, kept, fs)"
      by (metis prod_cases3)
    from match_incoming_fill [OF inv typed _ f] False obtain ls' where
      ls': "match_incoming inc ts b =
         (\<lparr>mr_trades = trades_of b inc ts fs, mr_remaining_qty = r, mr_fully_filled = (r = 0)\<rparr>,
          set_opposite inc ls' (apply_fills fs b))"
        "nodes ls' = kept @ nodes (ineligible inc (opposite inc b))"
        "levels_ok (opp_before inc) node_price ls'"
      by metis
    have el_ok: "nodes_ok (nodes (eligible inc (opposite inc b)))"
      using opposite_ok(2) [OF inv, of inc] nodes_split [of inc "opposite inc b"]
      by (metis Un_iff set_append)
    have qty: "0 \<le> o_quantity inc" using False by simp
    have "\<forall>n \<in> set (nodes ls'). beyond_limit inc (node_price n)" if "0 < r"
      using fill_conserves(7) [OF f el_ok qty that] ls'(2)
        beyond_ineligible [OF opposite_ok(1) [OF inv]] by simp
    then show ?thesis
      using ls' m match_preserves [OF inv f qty ls'(2,3)] index_after_fills
        fill_conserves(3) [OF f el_ok qty]
      by auto
  qed
  then show "l3_inv b1" and "bk_order_index b i = None \<Longrightarrow> bk_order_index b1 i = None"
    and "mr_remaining_qty result \<le> o_quantity inc"
    and "0 < mr_remaining_qty result \<Longrightarrow> o_tif inc \<noteq> FOK \<Longrightarrow>
      \<forall>n \<in> set (nodes (opposite inc b1)). beyond_limit inc (node_price n)"
    by blast+
qed

lemma add_order_preserves:
  assumes inv: "l3_inv b" and typed: "order_typed inc"
  shows "l3_inv (fst (snd (add_order b inc ts)))"
proof (cases "bk_order_index b (o_id inc) = None")
  case True
  obtain result b1 where m: "match_incoming inc ts b = (result, b1)" by (metis surj_pair)
  note mp = match_incoming_preserves [OF inv typed m]
  show ?thesis
    using True m mp add_resting_preserves [OF mp(1) typed mp(2) [OF True], of _ ts]
    by (auto simp: add_order_book settle_book)
qed (simp add: add_order_book inv)

section \<open>Cancelling\<close>

lemma renumber_key [simp]: "map node_key (renumber pos q) = map node_key q"
  by (induction pos q rule: renumber.induct) (simp_all add: node_key_def)

text \<open>A node up to its queue position.\<close>

definition node_core :: "node \<Rightarrow> node" where
  "node_core n = (fst n, (snd n)\<lparr>l_queue_pos := 0\<rparr>)"

lemma renumber_core [simp]: "map node_core (renumber pos q) = map node_core q"
  by (induction pos q rule: renumber.induct) (simp_all add: node_core_def)

lemma renumber_Nil [simp]: "renumber pos q = [] \<longleftrightarrow> q = []"
  by (cases q) auto

lemma renumber_price [simp]: "map node_price (renumber pos q) = map node_price q"
  by (induction pos q rule: renumber.induct) simp_all

lemma core_fields:
  "fst (node_core n) = fst n" "node_key (node_core n) = node_key n"
  "order_ok (snd (node_core n)) = order_ok (snd n)" "node_price (node_core n) = node_price n"
  "l_side (snd (node_core n)) = l_side (snd n)" "node_open (node_core n) = node_open n"
  "node_id (node_core n) = node_id n" "l_trader_id (snd (node_core n)) = l_trader_id (snd n)"
  by (simp_all add: node_core_def node_key_def order_ok_def open_qty_def)

text \<open>Removing one node from the levels of a side, as both branches of the code do.\<close>

definition drop_node :: "Price \<Rightarrow> nat \<Rightarrow> node plevels \<Rightarrow> node plevels" where
  "drop_node price h ls =
     (case lv_find price ls of
        None \<Rightarrow> ls
      | Some q \<Rightarrow> (let q' = filter (\<lambda>n. fst n \<noteq> h) q
                  in if q' = [] then lv_erase price ls else lv_set price (renumber 0 q') ls))"

lemma drop_node_spec:
  fixes before
  assumes "price_levels before" and ok: "levels_ok before node_price ls"
    and n: "n \<in> set (nodes ls)" and distinct: "distinct (map fst (nodes ls))"
  shows "map node_core (nodes (drop_node (node_price n) (fst n) ls)) =
      map node_core (filter (\<lambda>m. fst m \<noteq> fst n) (nodes ls))"
    and "levels_ok before node_price (drop_node (node_price n) (fst n) ls)"
proof -
  define P where "P = (\<lambda>m :: node. fst m \<noteq> fst n)"
  obtain q where q: "(node_price n, q) \<in> set ls" "n \<in> set q" "lv_find (node_price n) ls = Some q"
    using price_levels.node_level [OF assms(1) ok n] .
  define ls' where "ls' = (if filter P q = [] then lv_erase (node_price n) ls
    else lv_set (node_price n) (filter P q) ls)"
  have outside: "\<forall>x \<in> set (nodes ls). \<not> P x \<longrightarrow> x \<in> set q"
    using distinct n q(2) by (auto simp: P_def distinct_map inj_on_def)
  have flat: "nodes ls' = filter P (nodes ls)"
    unfolding ls'_def by (rule price_levels.nodes_remove [OF assms(1) ok q(1) outside])
  have ok': "levels_ok before node_price ls'"
    unfolding ls'_def by (rule price_levels.remove_ok [OF assms(1) ok q(1)])
  have result: "drop_node (node_price n) (fst n) ls =
      (if filter P q = [] then ls' else lv_set (node_price n) (renumber 0 (filter P q)) ls')"
    using q(3) by (simp add: drop_node_def ls'_def P_def)
  have level: "(node_price n, filter P q) \<in> set ls'" if "filter P q \<noteq> []"
    using that q(1) by (force simp: ls'_def lv_set_def)
  show "map node_core (nodes (drop_node (node_price n) (fst n) ls)) =
      map node_core (filter (\<lambda>m. fst m \<noteq> fst n) (nodes ls))"
    using flat result price_levels.nodes_lv_set_map [OF assms(1) ok' level, of node_core]
    by (simp add: P_def)
  from arg_cong [OF renumber_price [of 0 "filter P q"], where f = set]
  have "node_price ` set (renumber 0 (filter P q)) = node_price ` set (filter P q)"
    by (simp only: set_map)
  then have "node_price x = node_price n" if "x \<in> set (renumber 0 (filter P q))" for x
  proof -
    have "node_price x \<in> node_price ` set (renumber 0 (filter P q))" using that by simp
    then have "node_price x \<in> node_price ` set (filter P q)"
      using \<open>node_price ` set (renumber 0 (filter P q)) = _\<close> by simp
    then show ?thesis using levels_ok_key [OF ok q(1)] by auto
  qed
  then show "levels_ok before node_price (drop_node (node_price n) (fst n) ls)"
    using result ok' price_levels.lv_set_ok [OF assms(1) ok'] by simp
qed

text \<open>The book after the node of a resting order has been removed.\<close>

definition cancelled :: "node \<Rightarrow> L3OrderBook \<Rightarrow> L3OrderBook" where
  "cancelled n b =
     (case l_side (snd n) of
        Buy \<Rightarrow> b\<lparr>bk_bids := drop_node (node_price n) (fst n) (bk_bids b),
                 bk_bid_order_count := bk_bid_order_count b - 1,
                 bk_order_index := (bk_order_index b)(node_id n := None)\<rparr>
      | Sell \<Rightarrow> b\<lparr>bk_asks := drop_node (node_price n) (fst n) (bk_asks b),
                 bk_ask_order_count := bk_ask_order_count b - 1,
                 bk_order_index := (bk_order_index b)(node_id n := None)\<rparr>)"

lemma side_of_node:
  assumes "l3_inv b" and "n \<in> set (all_nodes b)"
  shows "l_side (snd n) = Buy \<longleftrightarrow> n \<in> set (nodes (bk_bids b))"
    and "l_side (snd n) = Sell \<longleftrightarrow> n \<in> set (nodes (bk_asks b))"
  using assms by (auto simp: l3_inv_def side_ok_def all_nodes_def)

lemma erase_level:
  assumes "price_levels before" and "levels_ok before node_price ls" and "n \<in> set (nodes ls)"
  obtains q where "lv_find (node_price n) ls = Some q" "(node_price n, q) \<in> set ls"
    "erase_node (fst n) q = Some (filter (\<lambda>m. fst m \<noteq> fst n) q)"
    "\<And>q'. lv_find (node_price n) (lv_set (node_price n) q' ls) = Some q'"
proof -
  obtain q where q: "(node_price n, q) \<in> set ls" "n \<in> set q" "lv_find (node_price n) ls = Some q"
    using price_levels.node_level [OF assms] .
  then show thesis
    using that [of q] price_levels.find_lv_set [OF assms(1,2) q(1)] by (simp add: erase_node_def)
qed

lemma remove_from_book_spec:
  assumes inv: "l3_inv b" and n: "n \<in> set (all_nodes b)"
  obtains b1 where "remove_from_book (loc_of n) b = Some b1"
    "b1\<lparr>bk_order_index := (bk_order_index b1)(node_id n := None)\<rparr> = cancelled n b"
proof (cases "l_side (snd n)")
  case Buy
  then have "n \<in> set (nodes (bk_bids b))" using side_of_node [OF inv n] by simp
  from erase_level [OF bid.price_levels_axioms l3_invD(5) [OF inv] this] obtain q where
    "lv_find (node_price n) (bk_bids b) = Some q"
    "erase_node (fst n) q = Some (filter (\<lambda>m. fst m \<noteq> fst n) q)"
    "\<And>q'. lv_find (node_price n) (lv_set (node_price n) q' (bk_bids b)) = Some q'"
    by metis
  then show thesis
    using Buy that
    by (simp add: remove_from_book_def loc_of_def cancelled_def drop_node_def Let_def
        update_queue_positions_def)
next
  case Sell
  then have "n \<in> set (nodes (bk_asks b))" using side_of_node [OF inv n] by simp
  from erase_level [OF ask.price_levels_axioms l3_invD(6) [OF inv] this] obtain q where
    "lv_find (node_price n) (bk_asks b) = Some q"
    "erase_node (fst n) q = Some (filter (\<lambda>m. fst m \<noteq> fst n) q)"
    "\<And>q'. lv_find (node_price n) (lv_set (node_price n) q' (bk_asks b)) = Some q'"
    by metis
  then show thesis
    using Sell that
    by (simp add: remove_from_book_def loc_of_def cancelled_def drop_node_def Let_def
        update_queue_positions_def)
qed

lemma index_node:
  assumes "l3_inv b" and "bk_order_index b i = Some loc"
  obtains n where "n \<in> set (all_nodes b)" "node_id n = i" "loc = loc_of n"
proof -
  have "(i, loc) \<in> (\<lambda>n. (node_id n, loc_of n)) ` set (all_nodes b)"
    using l3_invD(3) [OF assms(1)] assms(2) unfolding pool_ok_def index_ok_def by blast
  then show thesis using that by auto
qed

text \<open>
  Memory safety of cancellation: the iterator in the index always points to the node of the order,
  in the queue of its level.
\<close>

lemma cancel_effect:
  assumes inv: "l3_inv b" and n: "n \<in> set (all_nodes b)"
  shows "cancel_order b (node_id n) ts =
    Some (cancel_report b (node_id n) (snd n) ts, cancelled n b, publish_tob (cancelled n b) ts)"
proof -
  note f = pool_ok_find [OF l3_invD(3) [OF inv] n]
  obtain b1 where "remove_from_book (loc_of n) b = Some b1"
    "b1\<lparr>bk_order_index := (bk_order_index b1)(node_id n := None)\<rparr> = cancelled n b"
    using remove_from_book_spec [OF inv n] .
  moreover have "deref b (loc_it (loc_of n)) = Some (snd n)"
    using f(1) by (simp add: deref_def loc_of_def)
  ultimately show ?thesis using f(2) by (simp add: cancel_order_def Let_def)
qed

lemma cancel_unknown:
  "bk_order_index b i = None \<Longrightarrow> cancel_order b i ts =
    Some (ExecutionReport_default\<lparr>r_order_id := i, r_transact_time := ts, r_status := Rejected,
            r_reject_reason := NoReason\<rparr>, b, [])"
  by (simp add: cancel_order_def)

lemma cancelled_sides:
  assumes inv: "l3_inv b" and n: "n \<in> set (all_nodes b)"
  shows "map node_core (nodes (bk_bids (cancelled n b))) =
      map node_core (filter (\<lambda>m. fst m \<noteq> fst n) (nodes (bk_bids b)))" (is ?bids)
    and "map node_core (nodes (bk_asks (cancelled n b))) =
      map node_core (filter (\<lambda>m. fst m \<noteq> fst n) (nodes (bk_asks b)))" (is ?asks)
    and "levels_ok (>) node_price (bk_bids (cancelled n b))" (is ?lbids)
    and "levels_ok (<) node_price (bk_asks (cancelled n b))" (is ?lasks)
proof -
  have distinct: "distinct (map fst (nodes (bk_bids b)))" "distinct (map fst (nodes (bk_asks b)))"
    using l3_invD(3) [OF inv] by (simp_all add: pool_ok_def all_nodes_def)
  have other: "filter (\<lambda>m. fst m \<noteq> fst n) ns = ns"
    if "n \<in> set ns'" "fst ` set ns \<inter> fst ` set ns' = {}" for ns ns' :: "node list"
    using that by (auto simp: filter_id_conv)
  have disj: "fst ` set (nodes (bk_bids b)) \<inter> fst ` set (nodes (bk_asks b)) = {}"
    using l3_invD(3) [OF inv] by (simp add: pool_ok_def all_nodes_def)
  have "?bids \<and> ?asks \<and> ?lbids \<and> ?lasks"
  proof (cases "l_side (snd n)")
    case Buy
    then have mem: "n \<in> set (nodes (bk_bids b))" using side_of_node [OF inv n] by simp
    note d = drop_node_spec [OF bid.price_levels_axioms l3_invD(5) [OF inv] mem distinct(1)]
    have "filter (\<lambda>m. fst m \<noteq> fst n) (nodes (bk_asks b)) = nodes (bk_asks b)"
      using other [OF mem] disj by blast
    then show ?thesis using d Buy l3_invD(6) [OF inv] by (simp add: cancelled_def)
  next
    case Sell
    then have mem: "n \<in> set (nodes (bk_asks b))" using side_of_node [OF inv n] by simp
    note d = drop_node_spec [OF ask.price_levels_axioms l3_invD(6) [OF inv] mem distinct(2)]
    have "filter (\<lambda>m. fst m \<noteq> fst n) (nodes (bk_bids b)) = nodes (bk_bids b)"
      using other [OF mem] disj by blast
    then show ?thesis using d Sell l3_invD(5) [OF inv] by (simp add: cancelled_def)
  qed
  then show ?bids and ?asks and ?lbids and ?lasks by blast+
qed

lemma cancelled_frame [simp]:
  "bk_symbol (cancelled n b) = bk_symbol b" "bk_trade_count (cancelled n b) = bk_trade_count b"
  "bk_next_trade_id (cancelled n b) = bk_next_trade_id b"
  "bk_total_volume (cancelled n b) = bk_total_volume b"
  "bk_last_trade_price (cancelled n b) = bk_last_trade_price b"
  "bk_trade_cb (cancelled n b) = bk_trade_cb b" "bk_tob_cb (cancelled n b) = bk_tob_cb b"
  "bk_next_node (cancelled n b) = bk_next_node b"
  "bk_order_index (cancelled n b) = (bk_order_index b)(node_id n := None)"
  by (simp_all add: cancelled_def split: Side.split)

lemma map_core_transfer:
  assumes "map node_core xs = map node_core ys"
  shows "map node_key xs = map node_key ys" "length xs = length ys"
    "(\<forall>n \<in> set xs. P (node_core n)) = (\<forall>n \<in> set ys. P (node_core n))"
proof -
  have "map (node_key \<circ> node_core) xs = map (node_key \<circ> node_core) ys"
    using assms by (metis map_map)
  then show "map node_key xs = map node_key ys" by (simp add: comp_def core_fields)
  show "length xs = length ys" using assms by (rule map_eq_imp_length_eq)
  have "node_core ` set xs = node_core ` set ys" using assms by (metis list.set_map)
  then show "(\<forall>n \<in> set xs. P (node_core n)) = (\<forall>n \<in> set ys. P (node_core n))"
    by (metis (mono_tags, lifting) image_iff)
qed

end
