(* ===== verification/L3Reachable.thy ===== *)
theory L3Reachable
  imports L3Operations
begin

lemma map_core_filter_key:
  assumes "map node_core xs = map node_core (filter (\<lambda>m. fst m \<noteq> h) ys)"
  shows "map node_key xs = map node_key (filter (\<lambda>m. fst m \<noteq> h) ys)"
  by (rule map_core_transfer(1) [OF assms])

lemma filter_one_key:
  assumes "n \<in> set ns" and "distinct (map fst ns)"
  obtains xs ys where "ns = xs @ n # ys" "filter (\<lambda>m. fst m \<noteq> fst n) ns = xs @ ys"
proof -
  obtain xs ys where xy: "ns = xs @ n # ys" using assms(1) by (meson split_list)
  have away: "filter (\<lambda>m. fst m \<noteq> fst n) zs = zs" if "fst n \<notin> fst ` set zs" for zs
    using that by (intro filter_True) (metis imageI)
  have "filter (\<lambda>m. fst m \<noteq> fst n) ns = xs @ ys"
    using assms(2) xy away [of xs] away [of ys] by simp
  then show thesis using xy that by blast
qed

lemma cancelled_preserves:
  assumes inv: "l3_inv b" and n: "n \<in> set (all_nodes b)"
  shows "l3_inv (cancelled n b)"
proof -
  let ?P = "\<lambda>m :: node. fst m \<noteq> fst n" and ?b = "cancelled n b"
  let ?bids = "nodes (bk_bids b)" and ?asks = "nodes (bk_asks b)"
  note sides = cancelled_sides [OF inv n]
  have distinct: "distinct (map fst (all_nodes b))" and disj: "fst ` set ?bids \<inter> fst ` set ?asks = {}"
    using l3_invD(3) [OF inv] by (simp_all add: pool_ok_def all_nodes_def)
  have removed: "mset (all_nodes b) = add_mset n (mset (filter ?P (all_nodes b)))"
  proof -
    obtain xs ys where xy: "all_nodes b = xs @ n # ys" "filter ?P (all_nodes b) = xs @ ys"
      using filter_one_key [OF n distinct] .
    show ?thesis by (simp only: xy(2)) (simp add: xy(1))
  qed
  have pool: "pool_ok (bk_order_index ?b) (bk_next_node ?b) (all_nodes ?b)"
  proof -
    have "pool_ok (bk_order_index b) (bk_next_node b) ([n] @ filter ?P (all_nodes b))"
    proof -
      have "mset (all_nodes b) = mset ([n] @ filter ?P (all_nodes b))"
        by (simp only: mset.simps append.simps removed)
      from pool_ok_mset [OF this] show ?thesis using l3_invD(3) [OF inv] by blast
    qed
    from pool_ok_drop [OF this]
    have "pool_ok (bk_order_index ?b) (bk_next_node ?b) (filter ?P (all_nodes b))"
      by (simp add: fun_upd_def)
    moreover have "map node_key (all_nodes ?b) = map node_key (filter ?P (all_nodes b))"
      using map_core_transfer(1) [OF sides(1)] map_core_transfer(1) [OF sides(2)]
      by (simp add: all_nodes_def)
    ultimately show ?thesis using pool_ok_key_cong by blast
  qed
  have transfer: "(\<forall>m \<in> set xs. Q (node_core m)) = (\<forall>m \<in> set (filter ?P ys). Q (node_core m))"
    if "map node_core xs = map node_core (filter ?P ys)" for xs ys Q
    using map_core_transfer(3) [OF that] .
  have side: "\<forall>m \<in> set xs. l_side (snd m) = s \<and> order_ok (snd m) \<and> i64_ok (node_price m)"
    if "map node_core xs = map node_core (filter ?P ys)"
      "\<forall>m \<in> set ys. l_side (snd m) = s \<and> order_ok (snd m) \<and> i64_ok (node_price m)" for xs ys s
    using transfer [OF that(1), of "\<lambda>m. l_side (snd m) = s \<and> order_ok (snd m) \<and> i64_ok (node_price m)"]
      that(2) by (simp add: core_fields)
  have "side_ok (>) Buy (bk_bids ?b)" "side_ok (<) Sell (bk_asks ?b)"
    unfolding side_ok_def
    by (rule conjI, rule sides(3), rule side [OF sides(1)],
        rule l3_invD(1) [OF inv, unfolded side_ok_def, THEN conjunct2])
      (rule conjI, rule sides(4), rule side [OF sides(2)],
        rule l3_invD(2) [OF inv, unfolded side_ok_def, THEN conjunct2])
  moreover have "uncrossed ?b"
  proof -
    have b: "node_price ` set (nodes (bk_bids ?b)) \<subseteq> node_price ` set ?bids"
      "node_price ` set (nodes (bk_asks ?b)) \<subseteq> node_price ` set ?asks"
      using transfer [OF sides(1), of "\<lambda>m. node_price m \<in> node_price ` set ?bids"]
        transfer [OF sides(2), of "\<lambda>m. node_price m \<in> node_price ` set ?asks"]
      unfolding core_fields by auto
    have "\<forall>x \<in> node_price ` set ?bids. \<forall>y \<in> node_price ` set ?asks. x < y"
      using l3_invD(4) [OF inv] by (auto simp: uncrossed_def)
    then show ?thesis using b unfolding uncrossed_def by blast
  qed
  moreover have "bk_bid_order_count ?b = of_nat (length (nodes (bk_bids ?b)))"
    "bk_ask_order_count ?b = of_nat (length (nodes (bk_asks ?b)))"
  proof -
    have len: "length (nodes (bk_bids ?b)) = length (filter ?P ?bids)"
      "length (nodes (bk_asks ?b)) = length (filter ?P ?asks)"
      using map_core_transfer(2) [OF sides(1)] map_core_transfer(2) [OF sides(2)] by simp_all
    have one: "length ns = Suc (length (filter ?P ns))" if mem: "n \<in> set ns" and dist: "distinct (map fst ns)" for ns
    proof -
      obtain xs ys where xy: "ns = xs @ n # ys" "filter ?P ns = xs @ ys"
        by (rule filter_one_key [OF mem dist])
      show ?thesis by (simp only: xy(2)) (simp add: xy(1))
    qed
    have none: "length (filter ?P ns) = length ns" if "fst n \<notin> fst ` set ns" for ns
      using that by (metis (mono_tags, lifting) filter_True imageI)
    have "bk_bid_order_count ?b = of_nat (length (filter ?P ?bids)) \<and>
        bk_ask_order_count ?b = of_nat (length (filter ?P ?asks))"
    proof (cases "l_side (snd n)")
      case Buy
      then have "n \<in> set ?bids" using side_of_node [OF inv n] by simp
      moreover from this have "fst n \<notin> fst ` set ?asks" using disj by blast
      ultimately show ?thesis
        using inv Buy one [of ?bids] none [of ?asks] distinct
        by (simp add: l3_inv_def cancelled_def all_nodes_def)
    next
      case Sell
      then have "n \<in> set ?asks" using side_of_node [OF inv n] by simp
      moreover from this have "fst n \<notin> fst ` set ?bids" using disj by blast
      ultimately show ?thesis
        using inv Sell one [of ?asks] none [of ?bids] distinct
        by (simp add: l3_inv_def cancelled_def all_nodes_def)
    qed
    then show "bk_bid_order_count ?b = of_nat (length (nodes (bk_bids ?b)))"
      "bk_ask_order_count ?b = of_nat (length (nodes (bk_asks ?b)))" using len by simp_all
  qed
  ultimately show ?thesis using inv pool sides by (simp add: l3_inv_def)
qed

lemma cancel_order_cases:
  assumes "l3_inv b"
  obtains (unknown) "bk_order_index b i = None" "cancel_order b i ts =
      Some (ExecutionReport_default\<lparr>r_order_id := i, r_transact_time := ts, r_status := Rejected,
              r_reject_reason := NoReason\<rparr>, b, [])"
  | (live) n where "n \<in> set (all_nodes b)" "node_id n = i" "cancel_order b i ts =
      Some (cancel_report b i (snd n) ts, cancelled n b, publish_tob (cancelled n b) ts)"
proof (cases "bk_order_index b i")
  case None
  then show thesis using unknown cancel_unknown by blast
next
  case (Some loc)
  from index_node [OF assms this] live cancel_effect [OF assms] show thesis by metis
qed

definition replace_typed :: "ReplaceRequest \<Rightarrow> bool" where
  "replace_typed req \<longleftrightarrow> i64_ok (p_new_price req) \<and> i64_ok (p_new_qty req)"

lemma replacement_typed: "replace_typed req \<Longrightarrow> order_typed (replacement_order req rpt ts)"
  by (simp add: replace_typed_def order_typed_def replacement_order_def)

lemma cancel_report_status [simp]: "r_status (cancel_report b i l3 ts) = Canceled"
  by (simp add: cancel_report_def)

lemma replace_order_cases:
  assumes "l3_inv b"
  obtains (unknown) "bk_order_index b (p_order_id req) = None" "replace_order b req ts =
      Some (ExecutionReport_default\<lparr>r_order_id := p_order_id req, r_transact_time := ts,
              r_status := Rejected, r_reject_reason := NoReason\<rparr>, b, [])"
  | (live) n rpt b2 calls where "n \<in> set (all_nodes b)" "node_id n = p_order_id req"
      "add_order (cancelled n b)
         (replacement_order req (cancel_report b (p_order_id req) (snd n) ts) ts) ts = (rpt, b2, calls)"
      "replace_order b req ts = Some (rpt, b2, publish_tob (cancelled n b) ts @ calls)"
proof (cases rule: cancel_order_cases [OF assms, of "p_order_id req" ts])
  case 1
  then show thesis by (intro unknown) (simp_all add: replace_order_def)
next
  case (2 n)
  obtain rpt b2 calls where "add_order (cancelled n b)
      (replacement_order req (cancel_report b (p_order_id req) (snd n) ts) ts) ts = (rpt, b2, calls)"
    by (metis prod_cases3)
  then show thesis using 2 by (intro live) (simp_all add: replace_order_def)
qed

section \<open>Reachable books\<close>

inductive l3_step :: "L3OrderBook \<Rightarrow> L3OrderBook \<Rightarrow> bool" where
  add: "order_typed inc \<Longrightarrow> add_order b inc ts = (rpt, b', calls) \<Longrightarrow> l3_step b b'"
| cancel: "cancel_order b i ts = Some (rpt, b', calls) \<Longrightarrow> l3_step b b'"
| replace: "replace_typed req \<Longrightarrow> replace_order b req ts = Some (rpt, b', calls) \<Longrightarrow> l3_step b b'"
| trade_cb: "l3_step b (on_trade b)"
| tob_cb: "l3_step b (on_top_of_book b)"
| depth_cb: "l3_step b (on_depth b)"

definition l3_initial :: "L3OrderBook \<Rightarrow> bool" where
  "l3_initial b \<longleftrightarrow> b = L3OrderBook_init (bk_symbol b)"

abbreviation l3_reachable :: "L3OrderBook \<Rightarrow> bool" where
  "l3_reachable \<equiv> reachable l3_initial l3_step"

lemma cancel_order_preserves:
  "l3_inv b \<Longrightarrow> cancel_order b i ts = Some (rpt, b', calls) \<Longrightarrow> l3_inv b'"
  by (cases rule: cancel_order_cases [of b i ts]) (auto intro: cancelled_preserves)

lemma replace_order_preserves:
  assumes "l3_inv b" and "replace_typed req" and "replace_order b req ts = Some (rpt, b', calls)"
  shows "l3_inv b'"
proof (cases rule: replace_order_cases [OF assms(1), of req ts])
  case 1
  then show ?thesis using assms by simp
next
  case (2 n rpt2 b2 calls2)
  have "l3_inv b2"
    using add_order_preserves [OF cancelled_preserves [OF assms(1) 2(1)]
        replacement_typed [OF assms(2)]] 2(3)
    by (metis fst_conv snd_conv)
  then show ?thesis using 2(4) assms(3) by simp
qed

lemma l3_step_preserves: "l3_step b b' \<Longrightarrow> l3_inv b \<Longrightarrow> l3_inv b'"
proof (induction rule: l3_step.induct)
  case (add inc b ts rpt b' calls)
  then show ?case using add_order_preserves [of b inc ts] by simp
next
  case (cancel b i ts rpt b' calls)
  then show ?case by (blast intro: cancel_order_preserves)
next
  case (replace req b ts rpt b' calls)
  then show ?case by (blast intro: replace_order_preserves)
qed (simp_all add: l3_inv_def on_trade_def on_top_of_book_def on_depth_def all_nodes_def uncrossed_def)

interpretation l3: invariant_system l3_initial l3_step l3_inv
proof
  show "l3_inv s" if "l3_initial s" for s
    using that l3_inv_init by (metis l3_initial_def)
  show "l3_inv t" if "l3_inv s" "l3_step s t" for s t
    using l3_step_preserves that by blast
qed

end
