(* ===== verification/L3Spec.thy ===== *)
theory L3Spec
  imports L3Reachable
begin

text \<open>
  The abstract order book and the refinement.  An abstract book is a pair of flat lists of orders in
  price-time priority, with mathematical integers, no index, no iterators and no levels; submitting,
  cancelling and replacing are a few lines each.  The lemmas show that the operations of
  \<open>L3Book\<close> implement them through the abstraction \<open>abs_book\<close>.
\<close>

section \<open>The abstract book\<close>

record aorder =
  a_id :: OrderId
  a_trader :: TraderId
  a_price :: Price
  a_open :: Quantity

record abook =
  a_bids :: "aorder list"
  a_asks :: "aorder list"

definition tradable :: "Order \<Rightarrow> aorder \<Rightarrow> bool" where
  "tradable inc x \<longleftrightarrow> o_type inc = Market \<or>
     (case o_side inc of Buy \<Rightarrow> a_price x \<le> o_price inc | Sell \<Rightarrow> o_price inc \<le> a_price x)"

fun a_take :: "Quantity \<Rightarrow> aorder list \<Rightarrow> Quantity \<times> aorder list \<times> (aorder \<times> Quantity) list" where
  "a_take q [] = (q, [], [])"
| "a_take q (x # xs) =
     (if q \<le> 0 then (q, x # xs, [])
      else if q < a_open x then (0, x\<lparr>a_open := a_open x - q\<rparr> # xs, [(x, q)])
      else (case a_take (q - a_open x) xs of (r, kept, fs) \<Rightarrow> (r, kept, (x, a_open x) # fs)))"

definition a_opposite :: "Order \<Rightarrow> abook \<Rightarrow> aorder list" where
  "a_opposite inc B = (case o_side inc of Buy \<Rightarrow> a_asks B | Sell \<Rightarrow> a_bids B)"

definition a_set_opposite :: "Order \<Rightarrow> aorder list \<Rightarrow> abook \<Rightarrow> abook" where
  "a_set_opposite inc xs B =
     (case o_side inc of Buy \<Rightarrow> B\<lparr>a_asks := xs\<rparr> | Sell \<Rightarrow> B\<lparr>a_bids := xs\<rparr>)"

definition a_rest :: "Order \<Rightarrow> Quantity \<Rightarrow> abook \<Rightarrow> abook" where
  "a_rest inc q B =
     (let x = \<lparr>a_id = o_id inc, a_trader = o_trader_id inc, a_price = o_price inc, a_open = q\<rparr>
      in case o_side inc of
           Buy \<Rightarrow> B\<lparr>a_bids := stable_insert (>) a_price x (a_bids B)\<rparr>
         | Sell \<Rightarrow> B\<lparr>a_asks := stable_insert (<) a_price x (a_asks B)\<rparr>)"

definition a_submit :: "Order \<Rightarrow> abook \<Rightarrow> abook \<times> (aorder \<times> Quantity) list" where
  "a_submit inc B =
     (let offered = filter (tradable inc) (a_opposite inc B);
          others = filter (\<lambda>x. \<not> tradable inc x) (a_opposite inc B)
      in if o_id inc \<in> a_id ` set (a_bids B @ a_asks B) then (B, [])
         else if o_tif inc = FOK \<and> (\<Sum>x\<leftarrow>offered. a_open x) < o_quantity inc then (B, [])
         else (case a_take (o_quantity inc) offered of
                 (r, kept, fs) \<Rightarrow>
                   (let B1 = a_set_opposite inc (kept @ others) B
                    in (if r > 0 \<and> o_type inc = Limit \<and> o_tif inc \<in> {Day, GTC}
                        then a_rest inc r B1 else B1, fs))))"

definition a_cancel :: "OrderId \<Rightarrow> abook \<Rightarrow> abook" where
  "a_cancel i B = \<lparr>a_bids = filter (\<lambda>x. a_id x \<noteq> i) (a_bids B),
                  a_asks = filter (\<lambda>x. a_id x \<noteq> i) (a_asks B)\<rparr>"

section \<open>The abstraction\<close>

definition abs_node :: "node \<Rightarrow> aorder" where
  "abs_node n = \<lparr>a_id = node_id n, a_trader = l_trader_id (snd n), a_price = node_price n,
     a_open = node_open n\<rparr>"

definition abs_book :: "L3OrderBook \<Rightarrow> abook" where
  "abs_book b = \<lparr>a_bids = map abs_node (nodes (bk_bids b)), a_asks = map abs_node (nodes (bk_asks b))\<rparr>"

lemma abs_node_simps [simp]:
  "a_id (abs_node n) = node_id n" "a_trader (abs_node n) = l_trader_id (snd n)"
  "a_price (abs_node n) = node_price n" "a_open (abs_node n) = node_open n"
  by (simp_all add: abs_node_def)

lemma abs_book_simps [simp]:
  "a_bids (abs_book b) = map abs_node (nodes (bk_bids b))"
  "a_asks (abs_book b) = map abs_node (nodes (bk_asks b))"
  "a_opposite inc (abs_book b) = map abs_node (nodes (opposite inc b))"
  by (simp_all add: abs_book_def a_opposite_def opposite_def split: Side.split)

lemma abs_node_core [simp]: "abs_node (node_core n) = abs_node n"
  by (simp add: abs_node_def core_fields)

lemma map_abs_core: "map node_core xs = map node_core ys \<Longrightarrow> map abs_node xs = map abs_node ys"
proof -
  assume "map node_core xs = map node_core ys"
  then have "map (abs_node \<circ> node_core) xs = map (abs_node \<circ> node_core) ys" by (metis map_map)
  then show ?thesis by (simp add: comp_def)
qed

lemma tradable_abs [simp]: "tradable inc (abs_node n) \<longleftrightarrow> \<not> beyond_limit inc (node_price n)"
  by (cases "o_type inc") (auto simp: tradable_def beyond_limit_def split: Side.split)

lemma abs_taken:
  assumes "nodes_ok ns"
  shows "a_take q (map abs_node ns) =
    (case fill q ns of (r, kept, fs) \<Rightarrow>
      (r, map abs_node kept, map (\<lambda>(n, m). (abs_node n, m)) fs))"
  using assms
proof (induction ns arbitrary: q)
  case (Cons n ns)
  have "abs_node (fst n, reduce_order q (snd n)) = (abs_node n)\<lparr>a_open := node_open n - q\<rparr>"
    if "0 < q" "q < node_open n"
    using that reduce_order_open [of "snd n" q] Cons.prems by (simp add: abs_node_def)
  then show ?case using Cons by (auto split: prod.split)
qed simp

lemma offered_abs:
  assumes "l3_inv b"
  shows "filter (tradable inc) (map abs_node (nodes (opposite inc b))) =
      map abs_node (nodes (eligible inc (opposite inc b)))"
    and "filter (\<lambda>x. \<not> tradable inc x) (map abs_node (nodes (opposite inc b))) =
      map abs_node (nodes (ineligible inc (opposite inc b)))"
proof -
  let ?ls = "opposite inc b"
  have away: "\<forall>n \<in> set (nodes (ineligible inc ?ls)). beyond_limit inc (node_price n)"
    using beyond_ineligible [OF opposite_ok(1) [OF assms]] by blast
  have near: "\<forall>n \<in> set (nodes (eligible inc ?ls)). \<not> beyond_limit inc (node_price n)"
    by (force simp: set_nodes dest: set_takeWhileD levels_ok_key [OF opposite_ok(1) [OF assms]])
  have split: "filter P (map abs_node (nodes ?ls)) = filter P (map abs_node (nodes (eligible inc ?ls))) @
      filter P (map abs_node (nodes (ineligible inc ?ls)))" for P
    by (metis filter_append map_append nodes_split)
  show "filter (tradable inc) (map abs_node (nodes ?ls)) =
      map abs_node (nodes (eligible inc ?ls))"
    unfolding split using away near by (simp add: filter_map comp_def filter_id_conv filter_empty_conv)
  show "filter (\<lambda>x. \<not> tradable inc x) (map abs_node (nodes ?ls)) =
      map abs_node (nodes (ineligible inc ?ls))"
    unfolding split using away near by (simp add: filter_map comp_def filter_id_conv filter_empty_conv)
qed

lemma map_stable_insert:
  assumes "\<And>x. key (f x) = key' x"
  shows "map f (stable_insert before key' x xs) = stable_insert before key (f x) (map f xs)"
  using assms by (simp add: stable_insert_def takeWhile_map dropWhile_map comp_def)

lemma abs_rest:
  assumes "l3_inv b" and "i64_ok q"
  shows "abs_book (add_resting_order inc q ts b) = a_rest inc q (abs_book b)"
proof -
  let ?n = "new_node inc q ts b"
  have new: "abs_node ?n =
      \<lparr>a_id = o_id inc, a_trader = o_trader_id inc, a_price = o_price inc, a_open = q\<rparr>"
    using assms(2) by (simp add: abs_node_def open_qty_def)
  have "map abs_node (stable_insert before node_price ?n ns) =
      stable_insert before a_price (abs_node ?n) (map abs_node ns)" for before ns
    by (rule map_stable_insert) simp
  moreover have "opposite inc (add_resting_order inc q ts b) = opposite inc b" by simp
  ultimately show ?thesis
    using add_resting_own(1) [OF assms(1), of inc q ts] new
    by (cases "o_side inc")
       (simp_all add: abs_book_def a_rest_def own_def own_before_def opposite_def)
qed

section \<open>The courses of \<open>add_order\<close>\<close>

lemma index_iff:
  assumes "l3_inv b"
  shows "bk_order_index b i \<noteq> None \<longleftrightarrow> i \<in> node_id ` set (all_nodes b)"
proof
  assume "bk_order_index b i \<noteq> None"
  then obtain loc where "bk_order_index b i = Some loc" by auto
  from index_node [OF assms this] show "i \<in> node_id ` set (all_nodes b)" by blast
next
  assume "i \<in> node_id ` set (all_nodes b)"
  then show "bk_order_index b i \<noteq> None" using pool_ok_find(2) [OF l3_invD(3) [OF assms]] by auto
qed

definition killed_result :: "Order \<Rightarrow> MatchResult" where
  "killed_result inc = \<lparr>mr_trades = [], mr_remaining_qty = o_quantity inc, mr_fully_filled = False\<rparr>"

lemma add_order_effect:
  assumes inv: "l3_inv b" and typed: "order_typed inc" and add: "add_order b inc ts = (rpt, b', calls)"
  obtains (duplicate) "o_id inc \<in> node_id ` set (all_nodes b)" "b' = b" "calls = []"
      "rpt = (base_report inc ts)\<lparr>r_status := Rejected, r_reject_reason := DuplicateOrderId,
         r_leaves_qty := 0\<rparr>"
  | (killed) "o_id inc \<notin> node_id ` set (all_nodes b)" "fok_fails inc b" "b' = b"
      "rpt = fst (settle_remainder inc ts (killed_result inc) (fill_report inc ts (killed_result inc)) b)"
      "calls = (if r_status rpt = New then publish_tob b ts else [])"
  | (filled) r kept fs ls' result where "o_id inc \<notin> node_id ` set (all_nodes b)" "\<not> fok_fails inc b"
      "fill (o_quantity inc) (nodes (eligible inc (opposite inc b))) = (r, kept, fs)"
      "result = \<lparr>mr_trades = trades_of b inc ts fs, mr_remaining_qty = r, mr_fully_filled = (r = 0)\<rparr>"
      "nodes ls' = kept @ nodes (ineligible inc (opposite inc b))"
      "b' = (if r > 0 \<and> o_type inc = Limit \<and> o_tif inc \<in> {Day, GTC}
             then add_resting_order inc r ts (set_opposite inc ls' (apply_fills fs b))
             else set_opposite inc ls' (apply_fills fs b))"
      "l3_inv (set_opposite inc ls' (apply_fills fs b))"
      "rpt = fst (settle_remainder inc ts result (fill_report inc ts result)
         (set_opposite inc ls' (apply_fills fs b)))"
      "calls = (if bk_trade_cb b then map TradeEv (trades_of b inc ts fs) else []) @
         (if fs \<noteq> [] \<or> r_status rpt = New then publish_tob b' ts else [])"
proof (cases "o_id inc \<in> node_id ` set (all_nodes b)")
  case True
  then show thesis using duplicate add index_iff [OF inv] by (simp add: add_order_def)
next
  case False
  then have fresh: "bk_order_index b (o_id inc) = None" using index_iff [OF inv] by blast
  show thesis
  proof (cases "fok_fails inc b")
    case True
    have "o_tif inc = FOK" using True by (simp add: fok_fails_def)
    then have "snd (settle_remainder inc ts (killed_result inc) rpt b) = b" for rpt
      by (simp add: settle_book)
    then show thesis
      using killed [OF False True] add fresh match_incoming_fok [OF True, of ts]
      by (auto simp: add_order_def killed_result_def prod_eq_iff Let_def split: prod.splits)
  next
    case no_fok: False
    obtain r kept fs where f:
      "fill (o_quantity inc) (nodes (eligible inc (opposite inc b))) = (r, kept, fs)"
      by (metis prod_cases3)
    from match_incoming_fill [OF inv typed no_fok f] obtain ls' where
      ls': "match_incoming inc ts b =
         (\<lparr>mr_trades = trades_of b inc ts fs, mr_remaining_qty = r, mr_fully_filled = (r = 0)\<rparr>,
          set_opposite inc ls' (apply_fills fs b))" (is "_ = (?result, ?b1)")
        "nodes ls' = kept @ nodes (ineligible inc (opposite inc b))"
      by metis
    obtain b2 where settle: "settle_remainder inc ts ?result (fill_report inc ts ?result) ?b1 =
        (rpt, b2)" "b' = b2"
      "calls = (if bk_trade_cb ?b1 then map TradeEv (trades_of b inc ts fs) else []) @
         (if fs \<noteq> [] \<or> r_status rpt = New then publish_tob b2 ts else [])"
      using add fresh ls'(1)
      by (cases "settle_remainder inc ts ?result (fill_report inc ts ?result) ?b1")
         (auto simp: add_order_def settle_remainder_def set_opposite_def split: Side.splits)
    show thesis
    proof (rule filled [OF False no_fok f refl ls'(2)])
      show "l3_inv ?b1" by (rule match_incoming_preserves(1) [OF inv typed ls'(1)])
      show "b' = (if r > 0 \<and> o_type inc = Limit \<and> o_tif inc \<in> {Day, GTC}
          then add_resting_order inc r ts ?b1 else ?b1)"
        using settle(1,2) settle_book [of inc ts ?result "fill_report inc ts ?result" ?b1]
        by (auto split: if_splits)
      show "rpt = fst (settle_remainder inc ts ?result (fill_report inc ts ?result) ?b1)"
        using settle(1) by simp
      have "bk_trade_cb ?b1 = bk_trade_cb b" by (simp add: set_opposite_def split: Side.split)
      then show "calls = (if bk_trade_cb b then map TradeEv (trades_of b inc ts fs) else []) @
          (if fs \<noteq> [] \<or> r_status rpt = New then publish_tob b' ts else [])"
        using settle(2,3) by simp
    qed
  qed
qed

section \<open>The refinement\<close>

text \<open>
  The look-ahead of a fill-or-kill order adds up the open quantity of the levels it visits in 64
  bits; below the range of the type it decides what the abstract sum decides.
\<close>

definition lookahead_in_range :: "Order \<Rightarrow> L3OrderBook \<Rightarrow> bool" where
  "lookahead_in_range inc b \<longleftrightarrow> (o_tif inc = FOK \<longrightarrow> total_open (nodes (opposite inc b)) \<le> I64_MAX)"

lemma fok_fails_abs:
  assumes "l3_inv b" and "lookahead_in_range inc b"
  shows "fok_fails inc b \<longleftrightarrow> o_tif inc = FOK \<and>
    (\<Sum>x\<leftarrow>map abs_node (nodes (eligible inc (opposite inc b))). a_open x) < o_quantity inc"
proof (cases "o_tif inc = FOK")
  case True
  then have "total_open (nodes (opposite inc b)) \<le> I64_MAX"
    using assms(2) by (simp add: lookahead_in_range_def)
  from fok_available_spec [OF opposite_ok(2) [OF assms(1)], of 0 inc inc] this True show ?thesis
    by (auto simp: fok_fails_def comp_def not_le [symmetric])
qed (simp add: fok_fails_def)

lemma abs_set_opposite:
  "abs_book (set_opposite inc ls (apply_fills fs b)) =
     a_set_opposite inc (map abs_node (nodes ls)) (abs_book b)"
  by (simp add: abs_book_def set_opposite_def a_set_opposite_def split: Side.split)


definition trade_events :: "book_event list \<Rightarrow> Trade list" where
  "trade_events calls = concat (map (\<lambda>e. case e of TradeEv t \<Rightarrow> [t] | TobEv _ \<Rightarrow> []) calls)"

definition trade_view :: "Trade \<Rightarrow> OrderId \<times> TraderId \<times> Price \<times> Quantity" where
  "trade_view t = (t_resting_id t, t_resting_trader t, t_price t, t_qty t)"

definition fill_view :: "aorder \<times> Quantity \<Rightarrow> OrderId \<times> TraderId \<times> Price \<times> Quantity" where
  "fill_view f = (a_id (fst f), a_trader (fst f), a_price (fst f), snd f)"

lemma trade_events_simps [simp]:
  "trade_events [] = []" "trade_events (publish_tob b ts) = []"
  "trade_events (map TradeEv trades @ calls) = trades @ trade_events calls"
  by (induction trades) (simp_all add: trade_events_def publish_tob_def)

lemma trades_of_view:
  "map trade_view (trades_of b inc ts fs) = map fill_view (map (\<lambda>(n, m). (abs_node n, m)) fs)"
  by (induction b inc ts fs rule: trades_of.induct)
     (simp_all add: trade_view_def fill_view_def make_trade_def)

lemma fill_remaining_le:
  assumes "fill remaining ns = (r, kept, fs)" and "nodes_ok ns"
  shows "r \<le> remaining"
proof (cases "0 \<le> remaining")
  case False
  then show ?thesis using assms(1) by simp
qed (rule fill_conserves(3) [OF assms])

lemma eligible_ok: "l3_inv b \<Longrightarrow> nodes_ok (nodes (eligible inc (opposite inc b)))"
  using opposite_ok(2) [of b inc] nodes_split [of inc "opposite inc b"] by (metis Un_iff set_append)

lemma abs_ids: "a_id ` set (a_bids (abs_book b) @ a_asks (abs_book b)) = node_id ` set (all_nodes b)"
  by (simp add: all_nodes_def image_Un image_image)

lemma add_order_abs:
  assumes inv: "l3_inv b" and typed: "order_typed inc" and range: "lookahead_in_range inc b"
    and add: "add_order b inc ts = (rpt, b', calls)"
    and submit: "a_submit inc (abs_book b) = (B', fs)"
  shows "abs_book b' = B'"
    and "bk_trade_cb b \<Longrightarrow> map trade_view (trade_events calls) = map fill_view fs"
proof -
  note sub = submit [unfolded a_submit_def Let_def abs_ids, unfolded abs_book_simps offered_abs [OF inv]
      fok_fails_abs [OF inv range, symmetric] abs_taken [OF eligible_ok [OF inv]]]
  have "abs_book b' = B' \<and>
      (bk_trade_cb b \<longrightarrow> map trade_view (trade_events calls) = map fill_view fs)"
  proof (cases rule: add_order_effect [OF inv typed add])
    case 1
    then show ?thesis using sub by simp
  next
    case 2
    then show ?thesis using sub by simp
  next
    case (3 r kept fills ls' result)
    let ?b1 = "set_opposite inc ls' (apply_fills fills b)"
    have "r \<le> o_quantity inc" by (rule fill_remaining_le [OF 3(3) eligible_ok [OF inv]])
    then have "i64_ok r" if "0 < r" using that typed by (simp add: order_typed_def i64_ok_def)
    then have "abs_book (add_resting_order inc r ts ?b1) = a_rest inc r (abs_book ?b1)" if "0 < r"
      using abs_rest [OF 3(7)] that by simp
    then have "abs_book b' = B' \<and> fs = map (\<lambda>(n, m). (abs_node n, m)) fills"
      using sub 3(1,2,3,5,6) abs_set_opposite [of inc ls' fills b] by (auto split: if_splits)
    then show ?thesis using 3(9) trades_of_view [of b inc ts fills] by simp
  qed
  then show "abs_book b' = B'"
    and "bk_trade_cb b \<Longrightarrow> map trade_view (trade_events calls) = map fill_view fs" by blast+
qed

lemma cancelled_abs:
  assumes "l3_inv b" and "n \<in> set (all_nodes b)"
  shows "abs_book (cancelled n b) = a_cancel (node_id n) (abs_book b)"
proof -
  have same: "(fst m \<noteq> fst n) = (node_id m \<noteq> node_id n)" if "m \<in> set (all_nodes b)" for m
    using l3_invD(3) [OF assms(1)] that assms(2)
    by (auto simp: pool_ok_def distinct_map inj_on_def)
  have "filter (\<lambda>m. fst m \<noteq> fst n) ns = filter (\<lambda>m. node_id m \<noteq> node_id n) ns"
    if "set ns \<subseteq> set (all_nodes b)" for ns
    using that same by (intro filter_cong) auto
  then have "filter (\<lambda>m. fst m \<noteq> fst n) (nodes (bk_bids b)) =
      filter (\<lambda>m. node_id m \<noteq> node_id n) (nodes (bk_bids b))"
    "filter (\<lambda>m. fst m \<noteq> fst n) (nodes (bk_asks b)) =
      filter (\<lambda>m. node_id m \<noteq> node_id n) (nodes (bk_asks b))"
    by (simp_all add: all_nodes_def)
  then show ?thesis
    using map_abs_core [OF cancelled_sides(1) [OF assms]] map_abs_core [OF cancelled_sides(2) [OF assms]]
    by (simp add: abs_book_def a_cancel_def filter_map comp_def)
qed

lemma a_cancel_unknown: "l3_inv b \<Longrightarrow> i \<notin> node_id ` set (all_nodes b) \<Longrightarrow> a_cancel i (abs_book b) = abs_book b"
  by (auto simp: a_cancel_def abs_book_def all_nodes_def filter_map comp_def image_iff
      intro!: arg_cong [where f = "map abs_node"] filter_True)

lemma cancel_order_abs:
  assumes "l3_inv b" and "cancel_order b i ts = Some (rpt, b', calls)"
  shows "abs_book b' = a_cancel i (abs_book b)"
    and "(r_status rpt = Canceled) = (i \<in> node_id ` set (all_nodes b))"
proof -
  have "abs_book b' = a_cancel i (abs_book b) \<and>
      (r_status rpt = Canceled) = (i \<in> node_id ` set (all_nodes b))"
  proof (cases rule: cancel_order_cases [OF assms(1), of i ts])
    case 1
    then have "i \<notin> node_id ` set (all_nodes b)" using index_iff [OF assms(1)] by blast
    then show ?thesis using 1 assms a_cancel_unknown by simp
  next
    case (2 n)
    then show ?thesis using assms cancelled_abs [OF assms(1) 2(1)] by auto
  qed
  then show "abs_book b' = a_cancel i (abs_book b)"
    and "(r_status rpt = Canceled) = (i \<in> node_id ` set (all_nodes b))" by blast+
qed

section \<open>Replacing\<close>

definition a_replace :: "ReplaceRequest \<Rightarrow> Timestamp \<Rightarrow> abook \<Rightarrow> abook \<times> (aorder \<times> Quantity) list" where
  "a_replace req ts B =
     (let i = p_order_id req;
          new = (\<lambda>s. replacement_order req (ExecutionReport_default\<lparr>r_side := s\<rparr>) ts)
      in if i \<in> a_id ` set (a_bids B) then a_submit (new Buy) (a_cancel i B)
         else if i \<in> a_id ` set (a_asks B) then a_submit (new Sell) (a_cancel i B)
         else (B, []))"

lemma replacement_side:
  "replacement_order req rpt ts =
     replacement_order req (ExecutionReport_default\<lparr>r_side := r_side rpt\<rparr>) ts"
  by (simp add: replacement_order_def)

lemma trade_events_append [simp]: "trade_events (xs @ ys) = trade_events xs @ trade_events ys"
  by (simp add: trade_events_def)

lemma a_ids_sides:
  "a_id ` set (a_bids (abs_book b)) = node_id ` set (nodes (bk_bids b))"
  "a_id ` set (a_asks (abs_book b)) = node_id ` set (nodes (bk_asks b))"
  by (simp_all add: image_image)

lemma node_id_inj:
  assumes "l3_inv b" and "n \<in> set (all_nodes b)" and "m \<in> set (all_nodes b)" and "node_id n = node_id m"
  shows "n = m"
  using l3_invD(3) [OF assms(1)] assms(2-4) by (auto simp: pool_ok_def distinct_map inj_on_def)

lemma replace_order_abs:
  assumes inv: "l3_inv b" and typed: "replace_typed req"
    and rep: "replace_order b req ts = Some (rpt, b', calls)"
    and a_rep: "a_replace req ts (abs_book b) = (B', fs)"
  shows "abs_book b' = B'"
    and "bk_trade_cb b \<Longrightarrow> map trade_view (trade_events calls) = map fill_view fs"
proof -
  have "abs_book b' = B' \<and>
      (bk_trade_cb b \<longrightarrow> map trade_view (trade_events calls) = map fill_view fs)"
  proof (cases rule: replace_order_cases [OF inv, of req ts])
    case 1
    then have "p_order_id req \<notin> node_id ` set (all_nodes b)" using index_iff [OF inv] by blast
    then have "p_order_id req \<notin> a_id ` set (a_bids (abs_book b))"
      "p_order_id req \<notin> a_id ` set (a_asks (abs_book b))"
      unfolding a_ids_sides by (simp_all add: all_nodes_def image_Un)
    then show ?thesis using 1 rep a_rep by (simp add: a_replace_def Let_def)
  next
    case (2 n rpt2 b2 calls2)
    let ?new = "replacement_order req (cancel_report b (p_order_id req) (snd n) ts) ts"
    have new: "?new = replacement_order req (ExecutionReport_default\<lparr>r_side := l_side (snd n)\<rparr>) ts"
      by (subst replacement_side) (simp add: cancel_report_def)
    have inv1: "l3_inv (cancelled n b)" by (rule cancelled_preserves [OF inv 2(1)])
    have range: "lookahead_in_range ?new (cancelled n b)"
      by (simp add: lookahead_in_range_def replacement_order_def Order_default_def)
    have "a_replace req ts (abs_book b) = a_submit ?new (abs_book (cancelled n b))"
    proof (cases "l_side (snd n)")
      case Buy
      then have "n \<in> set (nodes (bk_bids b))" using side_of_node [OF inv 2(1)] by simp
      then have "p_order_id req \<in> a_id ` set (a_bids (abs_book b))"
        unfolding a_ids_sides using 2(2) by (metis imageI)
      then show ?thesis
        unfolding new cancelled_abs [OF inv 2(1)] 2(2) a_replace_def Let_def using Buy by simp
    next
      case Sell
      then have asks: "n \<in> set (nodes (bk_asks b))" using side_of_node [OF inv 2(1)] by simp
      have "p_order_id req \<notin> node_id ` set (nodes (bk_bids b))"
      proof
        assume "p_order_id req \<in> node_id ` set (nodes (bk_bids b))"
        then obtain m where m: "m \<in> set (nodes (bk_bids b))" "node_id m = node_id n"
          using 2(2) by auto
        then have "m = n" using node_id_inj [OF inv _ 2(1)] by (simp add: all_nodes_def)
        then show False using m Sell side_of_node [OF inv 2(1)] by simp
      qed
      moreover have "p_order_id req \<in> node_id ` set (nodes (bk_asks b))" using asks 2(2) by (metis imageI)
      ultimately show ?thesis
        unfolding new cancelled_abs [OF inv 2(1)] 2(2) a_replace_def Let_def a_ids_sides
        using Sell by simp
    qed
    then have sub: "a_submit ?new (abs_book (cancelled n b)) = (B', fs)" using a_rep by simp
    note r = add_order_abs [OF inv1 replacement_typed [OF typed] range 2(3) sub]
    then show ?thesis using 2(4) rep by simp
  qed
  then show "abs_book b' = B'"
    and "bk_trade_cb b \<Longrightarrow> map trade_view (trade_events calls) = map fill_view fs" by blast+
qed

lemma replace_never_dangles: "l3_inv b \<Longrightarrow> replace_order b req ts \<noteq> None"
  by (cases rule: replace_order_cases [of b req ts]) simp_all

lemma cancel_never_dangles: "l3_inv b \<Longrightarrow> cancel_order b i ts \<noteq> None"
  by (cases rule: cancel_order_cases [of b i ts]) simp_all

section \<open>Reports\<close>

lemma fill_report_fields [simp]:
  "r_filled_qty (fill_report inc ts result) = sub64 (o_quantity inc) (mr_remaining_qty result)"
  "r_leaves_qty (fill_report inc ts result) = mr_remaining_qty result"
  "r_order_id (fill_report inc ts result) = o_id inc"
  by (simp_all add: fill_report_def base_report_def Let_def)

lemma fill_report_status:
  "r_status (fill_report inc ts result) =
     (if mr_remaining_qty result = 0 then Filled
      else if sub64 (o_quantity inc) (mr_remaining_qty result) > 0 then PartiallyFilled else New)"
  by (simp add: fill_report_def base_report_def Let_def)

lemma settled_fields:
  assumes "rpt = fst (settle_remainder inc ts result (fill_report inc ts result) b)"
  shows "r_filled_qty rpt =
      (if mr_remaining_qty result > 0 \<and> o_type inc = Limit \<and> o_tif inc = FOK then 0
       else sub64 (o_quantity inc) (mr_remaining_qty result))"
    and "r_leaves_qty rpt =
      (if mr_remaining_qty result > 0 \<and> o_type inc = Limit \<and> o_tif inc \<in> {IOC, FOK} then 0
       else mr_remaining_qty result)"
    and "r_status rpt =
      (if mr_remaining_qty result = 0 then Filled
       else if mr_remaining_qty result > 0 \<and> o_type inc = Limit \<and> o_tif inc = FOK then Rejected
       else if sub64 (o_quantity inc) (mr_remaining_qty result) > 0 then PartiallyFilled
       else if mr_remaining_qty result > 0 \<and> o_type inc = Limit \<and> o_tif inc = IOC then Canceled
       else New)"
  unfolding assms
  by (auto simp: settle_remainder_def fill_report_status split: TimeInForce.split)

section \<open>The fill-or-kill look-ahead never overestimates\<close>

lemma wrap64_le: "- (2 ^ 63) \<le> x \<Longrightarrow> wrap64 x \<le> x"
proof -
  assume "- (2 ^ 63) \<le> x"
  then have "(x + 2 ^ 63) mod 2 ^ 64 \<le> x + 2 ^ 63" by (intro zmod_le_nonneg_dividend) simp
  then show ?thesis by (simp add: wrap64_def)
qed

lemma fok_available_le:
  assumes "nodes_ok (nodes ls)" and "i64_ok a"
  shows "fok_available inc ls a \<le> a + total_open (nodes (eligible inc ls))"
  using assms
proof (induction ls arbitrary: a)
  case (Cons l ls)
  obtain p q where l: "l = (p, q)" by (cases l)
  have nonneg: "0 \<le> total_open q" "0 \<le> total_open (nodes (eligible inc ls))"
    using Cons.prems(1) l
    by (auto intro!: total_open_nonneg) (force simp: set_nodes dest: set_takeWhileD)
  have fold: "foldl (\<lambda>a n. wrap64 (a + node_open n)) a q = wrap64 (a + total_open q)"
    using foldl_wrap_add [where s = a and xs = q and f = node_open] Cons.prems(2) by simp
  have le: "wrap64 (a + total_open q) \<le> a + total_open q"
    using nonneg(1) Cons.prems(2) by (intro wrap64_le) (simp add: i64_ok_def)
  show ?case
    using Cons.IH [of "wrap64 (a + total_open q)"] Cons.prems(1) l nonneg le
    by (auto simp: Let_def fold)
qed simp

lemma fill_enough:
  assumes "fill q ns = (r, kept, fs)" and "nodes_ok ns" and "0 \<le> q" and "q \<le> total_open ns"
  shows "r = 0"
proof (rule ccontr)
  assume "r \<noteq> 0"
  then have "0 < r" using fill_conserves(2) [OF assms(1-3)] by simp
  then have "kept = []" "fs = whole_fills ns" using fill_conserves(7) [OF assms(1-3)] by auto
  then show False
    using fill_conserves(1) [OF assms(1-3)] sum_whole_fills [of ns] \<open>0 < r\<close> assms(4) by simp
qed

end
