(* ===== verification/MatchInterface.thy ===== *)
theory MatchInterface
  imports L3Spec
begin

text \<open>
  What an order book promises about matching: the incoming order takes the acceptable orders of the
  other side in their priority, as \<^const>\<open>a_take\<close> says, and nothing else changes.  The order-level book and
  the simple book both keep this promise.
\<close>

section \<open>Taking from a list of orders\<close>

definition fill_triple :: "aorder \<times> Quantity \<Rightarrow> OrderId \<times> Price \<times> Quantity" where
  "fill_triple f = (a_id (fst f), a_price (fst f), snd f)"

lemma a_take_spec:
  assumes "a_take q xs = (r, kept, fs)" and "0 \<le> q" and "list_all (\<lambda>x. 0 < a_open x) xs"
  shows "0 \<le> r \<and> (\<Sum>(x, m)\<leftarrow>fs. m) = q - r \<and> (0 < r \<longrightarrow> kept = []) \<and>
    (\<Sum>x\<leftarrow>kept. a_open x) = (\<Sum>x\<leftarrow>xs. a_open x) - (q - r) \<and>
    length fs \<le> length xs \<and> map fst fs = take (length fs) xs \<and>
    list_all (\<lambda>(x, m). 0 < m \<and> m \<le> a_open x) fs \<and>
    (\<forall>j. j + 1 < length fs \<longrightarrow> snd (fs ! j) = a_open (xs ! j))"
  using assms
proof (induction q xs arbitrary: r kept fs rule: a_take.induct)
  case (2 q x xs)
  show ?case
  proof (cases "q \<le> 0 \<or> q < a_open x")
    case True
    then show ?thesis using "2.prems" by (auto split: if_splits)
  next
    case False
    obtain kept1 fs1 where rec: "a_take (q - a_open x) xs = (r, kept1, fs1)"
      and fs: "kept = kept1" "fs = (x, a_open x) # fs1"
      using "2.prems"(1) False by (auto split: prod.splits)
    have "0 \<le> q - a_open x" "list_all (\<lambda>x. 0 < a_open x) xs" using False "2.prems"(3) by simp_all
    with "2.IH" [OF _ _ rec] False have ih: "0 \<le> r \<and> (\<Sum>(x, m)\<leftarrow>fs1. m) = q - a_open x - r \<and>
      (0 < r \<longrightarrow> kept1 = []) \<and> (\<Sum>x\<leftarrow>kept1. a_open x) = (\<Sum>x\<leftarrow>xs. a_open x) - (q - a_open x - r) \<and>
      length fs1 \<le> length xs \<and> map fst fs1 = take (length fs1) xs \<and>
      list_all (\<lambda>(x, m). 0 < m \<and> m \<le> a_open x) fs1 \<and>
      (\<forall>j. j + 1 < length fs1 \<longrightarrow> snd (fs1 ! j) = a_open (xs ! j))" by blast
    have "snd (((x, a_open x) # fs1) ! j) = a_open ((x # xs) ! j)" if "j + 1 < length ((x, a_open x) # fs1)" for j
      using ih that by (cases j) auto
    then show ?thesis using ih "2.prems"(3) by (simp add: fs)
  qed
qed simp

definition trade_triple :: "Trade \<Rightarrow> OrderId \<times> Price \<times> Quantity" where
  "trade_triple t = (t_resting_id t, t_price t, t_qty t)"

lemma sum_open_split:
  "(\<Sum>x\<leftarrow>filter P xs. a_open x) + (\<Sum>x\<leftarrow>filter (\<lambda>x. \<not> P x) xs. a_open x) = (\<Sum>x\<leftarrow>xs. a_open x)"
  by (induction xs) simp_all

section \<open>The interface\<close>

locale priority_matcher =
  fixes inv :: "'b \<Rightarrow> bool"
    and typed :: "'i \<Rightarrow> bool"
    and wanted :: "'i \<Rightarrow> Quantity"
    and accepts :: "'i \<Rightarrow> aorder \<Rightarrow> bool"
    and side :: "'i \<Rightarrow> 'b \<Rightarrow> aorder list"
    and execute :: "'i \<Rightarrow> 'b \<Rightarrow> (OrderId \<times> Price \<times> Quantity) list \<times> Quantity \<times> 'b"
  assumes side_open: "inv b \<Longrightarrow> list_all (\<lambda>x. 0 < a_open x) (side i b)"
    and execute_law: "inv b \<Longrightarrow> typed i \<Longrightarrow> execute i b = (trades, r, b') \<Longrightarrow> inv b' \<and>
      (\<exists>kept fs. a_take (wanted i) (filter (accepts i) (side i b)) = (r, kept, fs) \<and>
         side i b' = kept @ filter (\<lambda>x. \<not> accepts i x) (side i b) \<and> trades = map fill_triple fs)"
begin

lemma acceptable_open: "inv b \<Longrightarrow> list_all (\<lambda>x. 0 < a_open x) (filter (accepts i) (side i b))"
  using side_open [of b i] by (auto simp: list_all_iff)

text \<open>What is traded, what is left of the incoming order, and what is left on the other side.\<close>

lemma conserves:
  assumes "inv b" and "typed i" and "0 \<le> wanted i" and "execute i b = (trades, r, b')"
  shows "0 \<le> r \<and> (\<Sum>(k, p, m)\<leftarrow>trades. m) + r = wanted i \<and>
    (\<Sum>x\<leftarrow>side i b'. a_open x) = (\<Sum>x\<leftarrow>side i b. a_open x) - (wanted i - r)"
proof -
  obtain kept fs where t: "a_take (wanted i) (filter (accepts i) (side i b)) = (r, kept, fs)"
    and s: "side i b' = kept @ filter (\<lambda>x. \<not> accepts i x) (side i b)" and f: "trades = map fill_triple fs"
    using execute_law [OF assms(1,2,4)] by blast
  note spec = a_take_spec [OF t assms(3) acceptable_open [OF assms(1)]]
  have "(\<Sum>(k, p, m)\<leftarrow>trades. m) = (\<Sum>(x, m)\<leftarrow>fs. m)"
    unfolding f by (simp add: fill_triple_def case_prod_unfold comp_def)
  then show ?thesis using spec s sum_open_split [of "accepts i" "side i b"] by simp
qed

text \<open>Matching stops only when the order is filled or nothing acceptable is left.\<close>

lemma exhausts:
  assumes "inv b" and "typed i" and "0 \<le> wanted i" and "execute i b = (trades, r, b')"
  shows "r = 0 \<or> list_all (\<lambda>x. \<not> accepts i x) (side i b')"
proof -
  obtain kept fs where t: "a_take (wanted i) (filter (accepts i) (side i b)) = (r, kept, fs)"
    and s: "side i b' = kept @ filter (\<lambda>x. \<not> accepts i x) (side i b)"
    using execute_law [OF assms(1,2,4)] by blast
  from a_take_spec [OF t assms(3) acceptable_open [OF assms(1)]] s show ?thesis
    by (auto simp: list_all_iff)
qed

text \<open>Priority: a prefix of the acceptable orders trades, each but the last one completely, at its price.\<close>

lemma in_priority:
  assumes "inv b" and "typed i" and "0 \<le> wanted i" and "execute i b = (trades, r, b')"
  shows "length trades \<le> length (filter (accepts i) (side i b)) \<and>
    map (\<lambda>(k, p, m). (k, p)) trades =
      map (\<lambda>x. (a_id x, a_price x)) (take (length trades) (filter (accepts i) (side i b))) \<and>
    (\<forall>j. j + 1 < length trades \<longrightarrow> snd (snd (trades ! j)) = a_open (filter (accepts i) (side i b) ! j))"
proof -
  obtain kept fs where t: "a_take (wanted i) (filter (accepts i) (side i b)) = (r, kept, fs)"
    and f: "trades = map fill_triple fs"
    using execute_law [OF assms(1,2,4)] by blast
  note spec = a_take_spec [OF t assms(3) acceptable_open [OF assms(1)]]
  have "map (\<lambda>(k, p, m). (k, p)) trades = map (\<lambda>x. (a_id x, a_price x)) (map fst fs)"
    unfolding f by (simp add: fill_triple_def comp_def)
  then show ?thesis using spec f by (simp add: fill_triple_def)
qed

end

end
