(* ===== verification/L3Orders.thy ===== *)
theory L3Orders
  imports L3Spec
begin

text \<open>
  Properties of single orders that every resting order of a reachable book has.  The locale says what
  such a property must survive: being matched, resting, and the renumbering of queue positions.
\<close>

section \<open>Properties of resting orders\<close>

definition book_holds :: "(L3Order \<Rightarrow> bool) \<Rightarrow> L3OrderBook \<Rightarrow> bool" where
  "book_holds P b \<longleftrightarrow> l3_inv b \<and> (\<forall>n \<in> set (all_nodes b). P (snd n))"

locale order_property =
  fixes P :: "L3Order \<Rightarrow> bool"
  assumes reduced: "order_ok r \<Longrightarrow> 0 < m \<Longrightarrow> m \<le> open_qty r \<Longrightarrow> P r \<Longrightarrow> P (reduce_order m r)"
    and rested: "order_typed inc \<Longrightarrow> P (snd (new_node inc q ts b))"
    and core: "P (snd (node_core n)) = P (snd n)"
begin

lemma fill_holds:
  assumes "fill q ns = (r, kept, fs)" and "nodes_ok ns" and "\<forall>n \<in> set ns. P (snd n)"
  shows "\<forall>n \<in> set kept. P (snd n)"
proof (cases "0 \<le> q")
  case True
  from fill_split [OF assms(1) True] show ?thesis
    using assms(2,3) by cases (auto intro!: reduced)
next
  case False
  then show ?thesis using assms by simp
qed

lemma add_order_holds:
  assumes "book_holds P b" and "order_typed inc" and "add_order b inc ts = (rpt, b', calls)"
  shows "book_holds P b'"
proof -
  have inv: "l3_inv b" and old: "\<forall>n \<in> set (all_nodes b). P (snd n)"
    using assms(1) by (simp_all add: book_holds_def)
  have inv': "l3_inv b'" using add_order_preserves [OF inv assms(2), of ts] assms(3) by simp
  have "\<forall>n \<in> set (all_nodes b'). P (snd n)"
  proof (cases rule: add_order_effect [OF inv assms(2,3)])
    case (3 r kept fs ls' result)
    let ?b1 = "set_opposite inc ls' (apply_fills fs b)"
    have parts: "set (nodes (opposite inc b)) = set (nodes (eligible inc (opposite inc b))) \<union>
        set (nodes (ineligible inc (opposite inc b)))"
      by (metis nodes_split set_append)
    have opp: "\<forall>n \<in> set (nodes (opposite inc b)). P (snd n)"
      using old opposite_ok(3) [OF inv] by blast
    then have "\<forall>n \<in> set kept. P (snd n)"
      using fill_holds [OF 3(3) eligible_ok [OF inv]] parts by blast
    then have "\<forall>n \<in> set (nodes ls'). P (snd n)" using 3(5) opp parts by auto
    then have b1: "\<forall>n \<in> set (all_nodes ?b1). P (snd n)"
      using old by (auto simp: all_nodes_def set_opposite_def split: Side.split)
    have "P (snd (new_node inc r ts ?b1))" by (rule rested [OF assms(2)])
    moreover have "set (all_nodes (add_resting_order inc r ts ?b1)) =
        insert (new_node inc r ts ?b1) (set (all_nodes ?b1))"
      using add_resting_own(1) [OF 3(7), of inc r ts]
      by (cases "o_side inc") (auto simp: own_def all_nodes_def add_resting_order_def Let_def)
    ultimately show ?thesis using 3(6) b1 by simp
  qed (use old in simp_all)
  then show ?thesis using inv' by (simp add: book_holds_def)
qed

lemma cancelled_holds:
  assumes "book_holds P b" and "n \<in> set (all_nodes b)"
  shows "book_holds P (cancelled n b)"
proof -
  have inv: "l3_inv b" and old: "\<forall>n \<in> set (all_nodes b). P (snd n)"
    using assms(1) by (simp_all add: book_holds_def)
  note s = cancelled_sides [OF inv assms(2)]
  have "\<forall>m \<in> set (all_nodes (cancelled n b)). P (snd m)"
    using map_core_transfer(3) [OF s(1), of "\<lambda>m. P (snd m)"]
      map_core_transfer(3) [OF s(2), of "\<lambda>m. P (snd m)"] old
    unfolding core all_nodes_def by auto
  then show ?thesis using cancelled_preserves [OF inv assms(2)] by (simp add: book_holds_def)
qed

lemma l3_step_holds: "l3_step b b' \<Longrightarrow> book_holds P b \<Longrightarrow> book_holds P b'"
proof (induction rule: l3_step.induct)
  case (add inc b ts rpt b' calls)
  then show ?case by (blast intro: add_order_holds)
next
  case (cancel b i ts rpt b' calls)
  then have inv: "l3_inv b" by (simp add: book_holds_def)
  show ?case using cancel
    by (cases rule: cancel_order_cases [OF inv, of i ts]) (auto intro: cancelled_holds)
next
  case (replace req b ts rpt b' calls)
  then have inv: "l3_inv b" by (simp add: book_holds_def)
  show ?case
  proof (cases rule: replace_order_cases [OF inv, of req ts])
    case 1
    then show ?thesis using replace by simp
  next
    case (2 n rpt2 b2 calls2)
    then show ?thesis
      using add_order_holds [OF cancelled_holds [OF replace(3) 2(1)]
          replacement_typed [OF replace(1)] 2(3)] replace(2) by simp
  qed
qed (simp_all add: book_holds_def l3_inv_def on_trade_def on_top_of_book_def on_depth_def
    all_nodes_def uncrossed_def)

end

sublocale order_property \<subseteq> orders: invariant_system l3_initial l3_step "book_holds P"
proof
  show "book_holds P s" if "l3_initial s" for s
  proof -
    have s: "s = L3OrderBook_init (bk_symbol s)" using that by (simp add: l3_initial_def)
    have "book_holds P (L3OrderBook_init x)" for x
      using l3_inv_init [of x] by (simp add: book_holds_def all_nodes_def L3OrderBook_init_def)
    then show ?thesis by (subst s)
  qed
  show "book_holds P t" if "book_holds P s" "l3_step s t" for s t
    using l3_step_holds that by blast
qed

section \<open>No hidden quantity\<close>

text \<open>No operation creates an iceberg order, so the hidden quantity of every reachable order is 0.\<close>

definition plain_order :: "L3Order \<Rightarrow> bool" where
  "plain_order r \<longleftrightarrow> l_hidden_qty r = 0 \<and> \<not> l_is_iceberg r"

interpretation plain: order_property plain_order
  by unfold_locales (simp_all add: plain_order_def reduce_order_def Let_def open_qty_ok node_core_def)

section \<open>Prices within the type\<close>

definition typed_order :: "L3Order \<Rightarrow> bool" where
  "typed_order r \<longleftrightarrow> i64_ok (l_price r)"

interpretation typed: order_property typed_order
  by unfold_locales
    (simp_all add: typed_order_def reduce_order_fields new_node_simps node_core_def order_typed_def)

lemma reachable_order:
  assumes "l3_reachable b" and "n \<in> set (all_nodes b)"
  shows "order_ok (snd n)" "plain_order (snd n)" "i64_ok (node_price n)"
  using plain.orders.reachable_inv [OF assms(1)] typed.orders.reachable_inv [OF assms(1)] assms(2) l3_invD(9)
  by (auto simp: book_holds_def typed_order_def)

end
