(* ===== verification/L3Priority.thy ===== *)
theory L3Priority
  imports L3Orders
begin

text \<open>
  Price-time priority of the resting orders, stated on the orders themselves: a node is ahead of
  another when its price is strictly better or, at the same price, when it came to rest earlier.  The
  handle of a node says when that was: \<open>add_resting_order\<close> gives it out from a counter that only
  grows, so it is the number of orders that came to rest before this one.
\<close>

section \<open>The priority order\<close>

definition ahead_of :: "(Price \<Rightarrow> Price \<Rightarrow> bool) \<Rightarrow> node \<Rightarrow> node \<Rightarrow> bool" where
  "ahead_of before x y \<longleftrightarrow>
     before (node_price x) (node_price y) \<or> node_price x = node_price y \<and> fst x < fst y"

definition in_priority :: "L3OrderBook \<Rightarrow> bool" where
  "in_priority b \<longleftrightarrow> sorted_wrt (ahead_of (>)) (nodes (bk_bids b)) \<and>
     sorted_wrt (ahead_of (<)) (nodes (bk_asks b))"

lemma ahead_of_key:
  "ahead_of before x y = (\<lambda>(h, i, s, p) (h', i', s', p'). before p p' \<or> p = p' \<and> h < h')
     (node_key x) (node_key y)"
  by (simp add: ahead_of_def node_key_def)

lemma sorted_key_cong:
  assumes "map node_key xs = map node_key ys"
  shows "sorted_wrt (ahead_of before) xs = sorted_wrt (ahead_of before) ys"
proof -
  let ?R = "\<lambda>(h, i, s, p) (h', i', s', p'). before p p' \<or> p = p' \<and> (h :: nat) < h'"
  have "sorted_wrt (ahead_of before) zs = sorted_wrt ?R (map node_key zs)" for zs
    unfolding sorted_wrt_map ahead_of_key [abs_def] ..
  then show ?thesis using assms by simp
qed

context price_levels
begin

text \<open>Pushing a node that is younger than all others keeps the order.\<close>

lemma sorted_push:
  assumes sorted: "sorted_wrt (ahead_of before) ns" and young: "\<forall>m \<in> set ns. fst m < fst n"
  shows "sorted_wrt (ahead_of before) (stable_insert before node_price n ns)"
proof -
  let ?P = "\<lambda>m. \<not> before (node_price n) (node_price m)"
  define xs ys where "xs = takeWhile ?P ns" and "ys = dropWhile ?P ns"
  have ns: "ns = xs @ ys" by (simp add: xs_def ys_def)
  have front: "ahead_of before m n" if "m \<in> set xs" for m
  proof -
    have "?P m" using that set_takeWhileD unfolding xs_def by fastforce
    then have "before (node_price m) (node_price n) \<or> node_price m = node_price n"
      using before_total by blast
    moreover have "fst m < fst n" using that young ns by simp
    ultimately show ?thesis by (simp add: ahead_of_def)
  qed
  have behind: "ahead_of before n m" if m: "m \<in> set ys" for m
  proof -
    obtain z zs where ys: "ys = z # zs" using m by (cases ys) auto
    then have first: "before (node_price n) (node_price z)"
      by (auto simp: ys_def dropWhile_eq_Cons_conv)
    have "m = z \<or> ahead_of before z m" using sorted m by (auto simp: ns ys sorted_wrt_append)
    then have "before (node_price n) (node_price m)"
      using first before_trans by (auto simp: ahead_of_def)
    then show ?thesis by (simp add: ahead_of_def)
  qed
  have "ahead_of before x y" if "x \<in> set xs" "y \<in> set ys" for x y
    using sorted that by (simp add: ns sorted_wrt_append)
  then have "sorted_wrt (ahead_of before) (xs @ n # ys)"
    using sorted front behind by (auto simp: ns sorted_wrt_append)
  then show ?thesis by (simp add: stable_insert_def xs_def ys_def)
qed

end

section \<open>Every operation keeps it\<close>

lemma in_priority_sides:
  "in_priority b \<Longrightarrow> sorted_wrt (ahead_of (opp_before inc)) (nodes (opposite inc b))"
  "in_priority b \<Longrightarrow> sorted_wrt (ahead_of (own_before inc)) (nodes (own inc b))"
  "in_priority b \<longleftrightarrow> sorted_wrt (ahead_of (opp_before inc)) (nodes (opposite inc b)) \<and>
     sorted_wrt (ahead_of (own_before inc)) (nodes (own inc b))"
  by (auto simp: in_priority_def opp_before_def own_before_def opposite_def own_def split: Side.split)

lemma own_push:
  assumes "sorted_wrt (ahead_of (own_before inc)) ns" and "\<forall>m \<in> set ns. fst m < fst n"
  shows "sorted_wrt (ahead_of (own_before inc)) (stable_insert (own_before inc) node_price n ns)"
proof (cases "o_side inc")
  case Buy
  then have before: "own_before inc = (>)" by (simp add: own_before_def)
  show ?thesis using bid.sorted_push [OF assms [unfolded before]] unfolding before .
next
  case Sell
  then have before: "own_before inc = (<)" by (simp add: own_before_def)
  show ?thesis using ask.sorted_push [OF assms [unfolded before]] unfolding before .
qed

lemma add_order_priority:
  assumes inv: "l3_inv b" and prio: "in_priority b" and typed: "order_typed inc"
    and add: "add_order b inc ts = (rpt, b', calls)"
  shows "in_priority b'"
proof (cases rule: add_order_effect [OF inv typed add])
  case (3 r kept fs ls' result)
  let ?b1 = "set_opposite inc ls' (apply_fills fs b)"
  have "map node_key (gone fs @ nodes ls') = map node_key (nodes (opposite inc b))"
    using fill_keys [OF 3(3)] 3(5) nodes_split [of inc "opposite inc b"] by (metis append.assoc map_append)
  then have "sorted_wrt (ahead_of (opp_before inc)) (gone fs @ nodes ls')"
    using sorted_key_cong in_priority_sides(1) [OF prio] by blast
  then have opp: "sorted_wrt (ahead_of (opp_before inc)) (nodes ls')"
    by (simp add: sorted_wrt_append)
  have own: "own inc ?b1 = own inc b"
    by (simp add: own_def set_opposite_def split: Side.split)
  have b1: "in_priority ?b1"
    unfolding in_priority_sides(3) [of _ inc] own using opp in_priority_sides(2) [OF prio] by simp
  let ?n = "new_node inc r ts ?b1"
  have "\<forall>m \<in> set (all_nodes ?b1). fst m < fst ?n"
    using l3_invD(3) [OF 3(7)] by (simp add: pool_ok_def)
  moreover have "set (nodes (own inc ?b1)) \<subseteq> set (all_nodes ?b1)"
    by (simp add: own_def all_nodes_def split: Side.split)
  ultimately have young: "\<forall>m \<in> set (nodes (own inc ?b1)). fst m < fst ?n" by blast
  have "sorted_wrt (ahead_of (own_before inc)) (stable_insert (own_before inc) node_price ?n (nodes (own inc ?b1)))"
    by (rule own_push [OF in_priority_sides(2) [OF b1] young])
  then have "in_priority (add_resting_order inc r ts ?b1)"
    unfolding in_priority_sides(3) [of _ inc] add_resting_own(1) [OF 3(7)] add_resting_frame(1)
    using in_priority_sides(1) [OF b1] by blast
  then show ?thesis using 3(6) b1 by simp
qed (use prio in simp_all)

lemma cancelled_priority:
  assumes "l3_inv b" and "in_priority b" and "n \<in> set (all_nodes b)"
  shows "in_priority (cancelled n b)"
proof -
  note s = cancelled_sides [OF assms(1,3)]
  show ?thesis
    using assms(2) sorted_key_cong [OF map_core_filter_key [OF s(1)]]
      sorted_key_cong [OF map_core_filter_key [OF s(2)]]
    by (simp add: in_priority_def sorted_wrt_filter)
qed

lemma l3_step_priority: "l3_step b b' \<Longrightarrow> l3_inv b \<and> in_priority b \<Longrightarrow> l3_inv b' \<and> in_priority b'"
proof -
  assume step: "l3_step b b'" and b: "l3_inv b \<and> in_priority b"
  note inv = conjunct1 [OF b] and prio = conjunct2 [OF b]
  from step have "in_priority b'"
  proof cases
    case (add inc ts rpt calls)
    then show ?thesis by (blast intro: add_order_priority inv prio)
  next
    case (cancel i ts rpt calls)
    then show ?thesis using inv prio
      by (cases rule: cancel_order_cases [OF inv, of i ts]) (auto intro: cancelled_priority)
  next
    case (replace req ts rpt calls)
    show ?thesis
    proof (cases rule: replace_order_cases [OF inv, of req ts])
      case 1
      then show ?thesis using replace prio by simp
    next
      case (2 n rpt2 b2 calls2)
      then show ?thesis
        using add_order_priority [OF cancelled_preserves [OF inv 2(1)] cancelled_priority [OF inv prio 2(1)]
            replacement_typed [OF replace(1)] 2(3)] replace(2) by simp
    qed
  qed (use prio in \<open>simp_all add: in_priority_def on_trade_def on_top_of_book_def on_depth_def\<close>)
  then show ?thesis using l3_step_preserves [OF step inv] by blast
qed

interpretation priority: invariant_system l3_initial l3_step "\<lambda>b. l3_inv b \<and> in_priority b"
proof
  show "l3_inv s \<and> in_priority s" if "l3_initial s" for s
  proof -
    have s: "s = L3OrderBook_init (bk_symbol s)" using that by (simp add: l3_initial_def)
    have "l3_inv (L3OrderBook_init x) \<and> in_priority (L3OrderBook_init x)" for x
      using l3_inv_init [of x] by (simp add: in_priority_def L3OrderBook_init_def)
    from this [of "bk_symbol s"] show ?thesis by (simp only: s [symmetric])
  qed
  show "l3_inv t \<and> in_priority t" if "l3_inv s \<and> in_priority s" "l3_step s t" for s t
    using l3_step_priority [OF that(2,1)] .
qed

text \<open>What the add does to the handles: an order that comes to rest is younger than all others, and
  every other order keeps its handle.\<close>

lemma add_order_handles:
  assumes inv: "l3_inv b" and typed: "order_typed inc" and add: "add_order b inc ts = (rpt, b', calls)"
    and n: "n \<in> set (all_nodes b')"
  shows "(\<exists>m \<in> set (all_nodes b). fst m = fst n \<and> node_id m = node_id n) \<or>
    node_id n = o_id inc \<and> (\<forall>m \<in> set (all_nodes b). fst m < fst n)"
proof (cases rule: add_order_effect [OF inv typed add])
  case (3 r kept fs ls' result)
  let ?b1 = "set_opposite inc ls' (apply_fills fs b)"
  have keys: "map node_key (gone fs @ nodes ls') = map node_key (nodes (opposite inc b))"
    using fill_keys [OF 3(3)] 3(5) nodes_split [of inc "opposite inc b"] by (metis append.assoc map_append)
  have "node_key ` set (nodes ls') \<subseteq> node_key ` set (nodes (opposite inc b))"
    using arg_cong [OF keys, where f = set] by auto
  then have sub: "node_key ` set (all_nodes ?b1) \<subseteq> node_key ` set (all_nodes b)"
    by (auto simp: all_nodes_def set_opposite_def opposite_def image_Un split: Side.splits)
  have old: "\<exists>m \<in> set (all_nodes b). fst m = fst n \<and> node_id m = node_id n" if "n \<in> set (all_nodes ?b1)"
  proof -
    from that sub have "node_key n \<in> node_key ` set (all_nodes b)" by blast
    then obtain m where "m \<in> set (all_nodes b)" "node_key m = node_key n" by (metis imageE)
    then show ?thesis by (intro bexI [of _ m]) (simp_all add: node_key_def)
  qed
  have "set (all_nodes (add_resting_order inc r ts ?b1)) =
      insert (new_node inc r ts ?b1) (set (all_nodes ?b1))"
    using add_resting_own(1) [OF 3(7), of inc r ts]
    by (cases "o_side inc") (auto simp: own_def all_nodes_def add_resting_order_def Let_def)
  then have "n \<in> set (all_nodes ?b1) \<or> n = new_node inc r ts ?b1"
    using n 3(6) by (auto split: if_splits)
  moreover have "bk_next_node ?b1 = bk_next_node b"
    by (simp add: set_opposite_def split: Side.split)
  ultimately show ?thesis using old l3_invD(3) [OF inv] by (auto simp: pool_ok_def)
qed (use n in auto)

end
