(* ===== verification/L3Properties.thy ===== *)
theory L3Properties
  imports MatchInterface L3Priority
begin

text \<open>
  The properties of the order book: what every reachable book satisfies and what every operation
  does, stated over the operations of \<open>L3Book\<close>, each with a concrete instance on a small book.
\<close>

section \<open>A small book\<close>

definition demo_order :: "OrderId \<Rightarrow> Side \<Rightarrow> TimeInForce \<Rightarrow> Price \<Rightarrow> Quantity \<Rightarrow> Order" where
  "demo_order i s tif p q = Order_default\<lparr>o_id := i, o_trader_id := i + 100, o_side := s, o_tif := tif,
     o_price := p, o_quantity := q\<rparr>"

definition book_after :: "L3OrderBook \<Rightarrow> Order \<Rightarrow> Timestamp \<Rightarrow> L3OrderBook" where
  "book_after b inc ts = fst (snd (add_order b inc ts))"

text \<open>Asks 5 and 7 at 100 (orders 2 and 3), 10 at 101 (order 1); a bid of 20 at 98 (order 4).\<close>

definition demo_book :: L3OrderBook where
  "demo_book =
     book_after (book_after (book_after (book_after (on_trade (L3OrderBook_init Symbol_default))
       (demo_order 1 Sell Day 101 10) 1) (demo_order 2 Sell Day 100 5) 2)
       (demo_order 3 Sell Day 100 7) 3) (demo_order 4 Buy GTC 98 20) 4"

lemma book_after_reachable:
  "l3_reachable b \<Longrightarrow> order_typed inc \<Longrightarrow> l3_reachable (book_after b inc ts)"
  unfolding book_after_def by (metis l3_step.add prod.collapse reachable_step)

lemma demo_order_typed [simp]: "i64_ok p \<Longrightarrow> i64_ok q \<Longrightarrow> order_typed (demo_order i s tif p q)"
  by (simp add: order_typed_def demo_order_def)

lemma demo_order_simps [simp]:
  "o_id (demo_order i s tif p q) = i" "o_side (demo_order i s tif p q) = s"
  "o_tif (demo_order i s tif p q) = tif" "o_price (demo_order i s tif p q) = p"
  "o_quantity (demo_order i s tif p q) = q" "o_type (demo_order i s tif p q) = Limit"
  by (simp_all add: demo_order_def Order_default_def)

lemma demo_reachable: "l3_reachable demo_book"
proof -
  have "l3_reachable (L3OrderBook_init Symbol_default)"
    by (rule reachable_init) (simp add: l3_initial_def L3OrderBook_init_def)
  then have "l3_reachable (on_trade (L3OrderBook_init Symbol_default))"
    by (rule reachable_step) (rule l3_step.trade_cb)
  then show ?thesis
    unfolding demo_book_def by (intro book_after_reachable) (simp_all add: i64_ok_def)
qed

lemma demo_facts:
  "map node_id (nodes (bk_asks demo_book)) = [2, 3, 1]"
  "map node_id (nodes (bk_bids demo_book)) = [4]" "bk_trade_cb demo_book"
  "map node_open (nodes (bk_asks demo_book)) = [5, 7, 10]"
  "map node_price (nodes (bk_asks demo_book)) = [100, 100, 101]"
  by code_simp+

section \<open>Consequences of a course\<close>

lemma trade_events_map [simp]: "trade_events (map TradeEv trades) = trades"
  using trade_events_simps(3) [of trades "[]"] by simp

lemma best_prices_lt:
  assumes inv: "l3_inv b" and "best_bid b = Some x" and "best_ask b = Some y"
  shows "bl_price x < bl_price y"
proof -
  obtain p q ls where bids: "bk_bids b = (p, q) # ls" and p: "bl_price x = p"
    using assms(2) by (auto simp: best_bid_def level_info_def Let_def split: list.splits)
  obtain p' q' ls' where asks: "bk_asks b = (p', q') # ls'" and p': "bl_price y = p'"
    using assms(3) by (auto simp: best_ask_def level_info_def Let_def split: list.splits)
  have q: "hd q \<in> set q" "node_price (hd q) = p"
    using l3_invD(5) [OF inv] bids by (auto simp: levels_ok_Cons)
  have q': "hd q' \<in> set q'" "node_price (hd q') = p'"
    using l3_invD(6) [OF inv] asks by (auto simp: levels_ok_Cons)
  have "node_price (hd q) < node_price (hd q')"
    using l3_invD(4) [OF inv] q(1) q'(1) bids asks unfolding uncrossed_def by simp
  then show ?thesis using p p' q(2) q'(2) by simp
qed

lemma add_order_trades:
  assumes inv: "l3_inv b" and typed: "order_typed inc" and cb: "bk_trade_cb b"
    and add: "add_order b inc ts = (rpt, b', calls)"
  obtains r kept fs where "trade_events calls = trades_of b inc ts fs"
    "fill (if fs = [] then 0 else o_quantity inc) (nodes (eligible inc (opposite inc b))) = (r, kept, fs)"
    "bk_next_trade_id b' = bk_next_trade_id b + of_nat (length fs)"
    "bk_trade_count b' = bk_trade_count b + of_nat (length fs)"
    "bk_total_volume b' = wrap64 (bk_total_volume b + (\<Sum>(n, m)\<leftarrow>fs. m))"
    "fs \<noteq> [] \<Longrightarrow> 0 < o_quantity inc"
proof -
  have vol: "i64_ok (bk_total_volume b)" using inv by (simp add: l3_inv_def)
  show thesis
  proof (cases rule: add_order_effect [OF inv typed add])
    case 1
    then show thesis using that [of "[]" 0 "nodes (eligible inc (opposite inc b))"] vol by simp
  next
    case 2
    then show thesis using that [of "[]" 0 "nodes (eligible inc (opposite inc b))"] vol by simp
  next
    case (3 r kept fs ls' result)
    have frame: "bk_next_trade_id b' = bk_next_trade_id (apply_fills fs b)"
      "bk_trade_count b' = bk_trade_count (apply_fills fs b)"
      "bk_total_volume b' = bk_total_volume (apply_fills fs b)"
      using 3(6) by (auto simp: set_opposite_def split: Side.split)
    have pos: "0 < o_quantity inc" if "fs \<noteq> []"
      using that 3(3) by (metis fill_nonpos linorder_not_less prod.inject)
    have calls: "trade_events calls = trades_of b inc ts fs" using 3(9) cb by simp
    show thesis
    proof (cases "fs = []")
      case True
      then show thesis
        using that [of "[]" 0 "nodes (eligible inc (opposite inc b))"] calls frame vol
        by (simp add: apply_fills_trades)
    next
      case False
      then show thesis
        using that [of fs r kept] 3(3) calls frame pos apply_fills_volume [OF vol]
        by (simp add: apply_fills_trades)
    qed
  qed
qed

lemma eligible_filter:
  assumes "l3_inv b"
  shows "nodes (eligible inc (opposite inc b)) =
    filter (\<lambda>n. \<not> beyond_limit inc (node_price n)) (nodes (opposite inc b))"
proof -
  let ?ls = "opposite inc b"
  have "\<forall>n \<in> set (nodes (ineligible inc ?ls)). beyond_limit inc (node_price n)"
    using beyond_ineligible [OF opposite_ok(1) [OF assms]] by blast
  moreover have "\<forall>n \<in> set (nodes (eligible inc ?ls)). \<not> beyond_limit inc (node_price n)"
    by (force simp: set_nodes dest: set_takeWhileD levels_ok_key [OF opposite_ok(1) [OF assms]])
  ultimately have "filter (\<lambda>n. \<not> beyond_limit inc (node_price n))
      (nodes (eligible inc ?ls) @ nodes (ineligible inc ?ls)) = nodes (eligible inc ?ls)"
    by (simp add: filter_id_conv filter_empty_conv)
  then show ?thesis by (simp add: nodes_split)
qed

text \<open>An order that is not refused trades as much as it can.\<close>

lemma add_order_traded:
  assumes inv: "l3_inv b" and typed: "order_typed inc" and cb: "bk_trade_cb b"
    and add: "add_order b inc ts = (rpt, b', calls)"
    and live: "trade_events calls \<noteq> [] \<or>
      0 < o_quantity inc \<and> o_id inc \<notin> node_id ` set (all_nodes b) \<and> o_tif inc \<noteq> FOK"
  shows "(\<Sum>t\<leftarrow>trade_events calls. t_qty t) =
    min (o_quantity inc) (total_open (nodes (eligible inc (opposite inc b))))"
proof (cases rule: add_order_effect [OF inv typed add])
  case (3 r kept fs ls' result)
  let ?el = "nodes (eligible inc (opposite inc b))"
  have trades: "trade_events calls = trades_of b inc ts fs" using 3(9) cb by simp
  have pos: "0 < o_quantity inc"
  proof (rule ccontr)
    assume none: "\<not> 0 < o_quantity inc"
    then have "fs = []" using 3(3) by (metis fill_nonpos linorder_not_less prod.inject)
    then show False using live none trades by simp
  qed
  note c = fill_conserves [OF 3(3) eligible_ok [OF inv] less_imp_le [OF pos]]
  have "(\<Sum>t\<leftarrow>trade_events calls. t_qty t) = o_quantity inc - r"
    using c(1) trades by (simp add: trades_of_fields case_prod_unfold)
  moreover have "o_quantity inc - r \<le> total_open ?el"
    using total_open_nonneg [OF c(5)] c(4) by simp
  moreover have "total_open ?el \<le> o_quantity inc - r" if "0 < r"
    using c(1,7) that sum_whole_fills [of ?el] by simp
  ultimately show ?thesis using c(2) by (cases "0 < r") (simp_all add: min_def)
qed (use live in \<open>auto simp: fok_fails_def split: if_splits\<close>)

text \<open>The prefix form of a fill.\<close>

lemma fill_prefix:
  assumes "fill q ns = (r, kept, fs)" and "nodes_ok ns" and "0 \<le> q"
  shows "map fst fs = take (length fs) ns"
    and "\<And>j. j + 1 < length fs \<Longrightarrow> snd (fs ! j) = node_open (ns ! j)"
    and "length fs \<le> length ns"
proof -
  have "map fst fs = take (length fs) ns \<and> length fs \<le> length ns \<and>
      (\<forall>j. j + 1 < length fs \<longrightarrow> snd (fs ! j) = node_open (ns ! j))"
    using assms(1,3)
    by (cases rule: fill_split) (auto simp: comp_def nth_append)
  then show "map fst fs = take (length fs) ns"
    and "\<And>j. j + 1 < length fs \<Longrightarrow> snd (fs ! j) = node_open (ns ! j)"
    and "length fs \<le> length ns" by blast+
qed

lemma takeWhile_filter_insert:
  "\<not> P x \<Longrightarrow> filter P (stable_insert before key x xs) = filter P xs"
proof -
  assume "\<not> P x"
  then have "filter P (stable_insert before key x xs) =
      filter P (takeWhile (\<lambda>y. \<not> before (key x) (key y)) xs @
        dropWhile (\<lambda>y. \<not> before (key x) (key y)) xs)"
    unfolding stable_insert_def filter_append by simp
  then show ?thesis by simp
qed


lemma a_cancel_rest:
  assumes "o_id inc \<notin> a_id ` set (a_bids B @ a_asks B)"
  shows "a_cancel (o_id inc) (a_rest inc q B) = B"
proof -
  have "filter (\<lambda>x. a_id x \<noteq> o_id inc) (a_bids B) = a_bids B"
    "filter (\<lambda>x. a_id x \<noteq> o_id inc) (a_asks B) = a_asks B"
    using assms by (intro filter_True; force)+
  then show ?thesis
    by (cases "o_side inc") (simp_all add: a_cancel_def a_rest_def Let_def takeWhile_filter_insert)
qed

lemma no_eligible:
  assumes "l3_inv b" and "\<forall>n \<in> set (nodes (opposite inc b)). beyond_limit inc (node_price n)"
  shows "nodes (eligible inc (opposite inc b)) = []"
  unfolding eligible_filter [OF assms(1)] using assms(2) by (simp add: filter_empty_conv)

section \<open>The matching interface\<close>

definition l3_execute :: "Timestamp \<Rightarrow> Order \<Rightarrow> L3OrderBook \<Rightarrow> (OrderId \<times> Price \<times> Quantity) list \<times> Quantity \<times> L3OrderBook" where
  "l3_execute ts inc b = (case match_incoming inc ts b of (result, b') \<Rightarrow>
     (map trade_triple (mr_trades result), mr_remaining_qty result, b'))"

interpretation l3_matcher: priority_matcher l3_inv "\<lambda>inc. order_typed inc \<and> o_tif inc \<noteq> FOK" o_quantity tradable
  "\<lambda>inc b. a_opposite inc (abs_book b)" "l3_execute ts" for ts
proof
  fix b inc trades r b'
  assume inv: "l3_inv b"
  show "list_all (\<lambda>x. 0 < a_open x) (a_opposite inc (abs_book b))"
    using opposite_ok(2) [OF inv, of inc] open_qty_pos by (auto simp: list_all_iff)
  assume typed: "order_typed inc \<and> o_tif inc \<noteq> FOK" and run: "l3_execute ts inc b = (trades, r, b')"
  obtain r1 kept fs where f: "fill (o_quantity inc) (nodes (eligible inc (opposite inc b))) = (r1, kept, fs)"
    by (metis prod_cases3)
  have "\<not> fok_fails inc b" using typed by (simp add: fok_fails_def)
  from match_incoming_fill [OF inv conjunct1 [OF typed] this f, of ts] obtain ls' where m:
    "match_incoming inc ts b =
       (\<lparr>mr_trades = trades_of b inc ts fs, mr_remaining_qty = r1, mr_fully_filled = (r1 = 0)\<rparr>,
        set_opposite inc ls' (apply_fills fs b))"
    "nodes ls' = kept @ nodes (ineligible inc (opposite inc b))" by metis
  have out: "trades = map trade_triple (trades_of b inc ts fs)" "r = r1"
    "b' = set_opposite inc ls' (apply_fills fs b)"
    using run m(1) by (simp_all add: l3_execute_def)
  have "opposite inc b' = ls'" using out(3) by simp
  then have "a_opposite inc (abs_book b') = map abs_node kept @ filter (\<lambda>x. \<not> tradable inc x) (a_opposite inc (abs_book b))"
    using m(2) offered_abs(2) [OF inv] by simp
  moreover have "a_take (o_quantity inc) (filter (tradable inc) (a_opposite inc (abs_book b))) =
      (r, map abs_node kept, map (\<lambda>(n, m). (abs_node n, m)) fs)"
    using abs_taken [OF eligible_ok [OF inv], of "o_quantity inc" inc] f out(2) offered_abs(1) [OF inv] by simp
  moreover have "trades = map fill_triple (map (\<lambda>(n, m). (abs_node n, m)) fs)"
    unfolding out(1) by (induction b inc ts fs rule: trades_of.induct)
      (simp_all add: trade_triple_def fill_triple_def make_trade_def)
  moreover have "l3_inv b'" unfolding out(3) using match_incoming_preserves(1) [OF inv conjunct1 [OF typed] m(1)] .
  ultimately show "l3_inv b' \<and> (\<exists>kept fs. a_take (o_quantity inc) (filter (tradable inc) (a_opposite inc (abs_book b))) = (r, kept, fs) \<and>
      a_opposite inc (abs_book b') = kept @ filter (\<lambda>x. \<not> tradable inc x) (a_opposite inc (abs_book b)) \<and>
      trades = map fill_triple fs)" by blast
qed

section \<open>Properties\<close>

text \<open>C1: every book reached by submitting, cancelling and replacing orders and registering
  callbacks satisfies the invariant: sorted, non-empty levels, orders on the side and at the price
  of their level with positive open quantity in range, distinct identifiers, an index that holds
  exactly the resting orders, counters that count, no crossed prices.\<close>

theorem l3_book_invariant: "l3_reachable b \<Longrightarrow> l3_inv b"
  by (rule l3.reachable_inv)

theorem l3_book_invariant_witness: "l3_inv demo_book \<and> length (all_nodes demo_book) = 4"
proof
  show "l3_inv demo_book" by (rule l3_book_invariant [OF demo_reachable])
  show "length (all_nodes demo_book) = 4" by code_simp
qed

text \<open>The best bid of a reachable book is below its best ask.\<close>

lemma book_never_crossed:
  assumes "l3_reachable b" and "best_bid b = Some x" and "best_ask b = Some y"
  shows "bl_price x < bl_price y"
  by (rule best_prices_lt [OF l3.reachable_inv [OF assms(1)] assms(2,3)])

lemma book_never_crossed_witness:
  "bl_price (the (best_bid demo_book)) < bl_price (the (best_ask demo_book))"
proof (rule book_never_crossed [OF demo_reachable])
  show "best_bid demo_book = Some (the (best_bid demo_book))" by code_simp
  show "best_ask demo_book = Some (the (best_ask demo_book))" by code_simp
qed


text \<open>C2: submitting an order to a reachable book implements the abstract book: the same resting
  orders in the same priority, and the trades reported are the abstract fills.  A fill-or-kill
  order needs the quantity on the opposite side to fit the type it is summed in.\<close>

theorem add_order_refines:
  assumes "l3_reachable b" and "order_typed inc" and "lookahead_in_range inc b"
    and "add_order b inc ts = (rpt, b', calls)"
  shows "abs_book b' = fst (a_submit inc (abs_book b)) \<and>
    (bk_trade_cb b \<longrightarrow>
      map trade_view (trade_events calls) = map fill_view (snd (a_submit inc (abs_book b))))"
  using add_order_abs [OF l3.reachable_inv [OF assms(1)] assms(2-4) prod.collapse [symmetric]]
  by blast

theorem add_order_refines_witness:
  "abs_book (book_after demo_book (demo_order 5 Buy FOK 100 9) 5) =
     fst (a_submit (demo_order 5 Buy FOK 100 9) (abs_book demo_book)) \<and>
   map a_open (a_asks (abs_book (book_after demo_book (demo_order 5 Buy FOK 100 9) 5))) = [3, 10]"
proof
  have "lookahead_in_range (demo_order 5 Buy FOK 100 9) demo_book" by code_simp
  then show "abs_book (book_after demo_book (demo_order 5 Buy FOK 100 9) 5) =
      fst (a_submit (demo_order 5 Buy FOK 100 9) (abs_book demo_book))"
    using add_order_refines [OF demo_reachable, of "demo_order 5 Buy FOK 100 9" 5]
    by (cases "add_order demo_book (demo_order 5 Buy FOK 100 9) 5")
       (simp add: book_after_def i64_ok_def)
  show "map a_open (a_asks (abs_book (book_after demo_book (demo_order 5 Buy FOK 100 9) 5))) = [3, 10]"
    by code_simp
qed

text \<open>C3: cancelling on a reachable book never follows a dangling iterator, implements the abstract
  cancellation, and reports \<open>Canceled\<close> exactly for a resting order.\<close>

theorem cancel_order_refines:
  assumes "l3_reachable b"
  shows "\<exists>rpt b' calls. cancel_order b i ts = Some (rpt, b', calls) \<and>
    abs_book b' = a_cancel i (abs_book b) \<and>
    r_status rpt = (if i \<in> node_id ` set (all_nodes b) then Canceled else Rejected)"
proof -
  note inv = l3.reachable_inv [OF assms]
  show ?thesis
  proof (cases rule: cancel_order_cases [OF inv, of i ts])
    case 1
    then have "i \<notin> node_id ` set (all_nodes b)" using index_iff [OF inv] by blast
    then show ?thesis using 1(2) a_cancel_unknown [OF inv] by simp
  next
    case (2 n)
    then have "i \<in> node_id ` set (all_nodes b)" by (metis imageI)
    then show ?thesis using 2 cancelled_abs [OF inv 2(1)] by simp
  qed
qed

theorem cancel_order_refines_witness:
  "\<exists>rpt b' calls. cancel_order demo_book 3 7 = Some (rpt, b', calls) \<and>
    abs_book b' = a_cancel 3 (abs_book demo_book) \<and>
    r_status rpt = (if 3 \<in> node_id ` set (all_nodes demo_book) then Canceled else Rejected)"
  by (rule cancel_order_refines [OF demo_reachable])

text \<open>C4: replacing is total on reachable books and implements the abstract replacement: an unknown
  order changes nothing; a resting one is cancelled and submitted again as a day limit order at the
  new price and quantity, losing its time priority, and may trade at once.\<close>

theorem replace_order_refines:
  assumes "l3_reachable b" and "replace_typed req"
  shows "\<exists>rpt b' calls. replace_order b req ts = Some (rpt, b', calls) \<and>
    abs_book b' = fst (a_replace req ts (abs_book b)) \<and>
    (bk_trade_cb b \<longrightarrow>
      map trade_view (trade_events calls) = map fill_view (snd (a_replace req ts (abs_book b))))"
proof -
  note inv = l3.reachable_inv [OF assms(1)]
  obtain rpt b' calls where r: "replace_order b req ts = Some (rpt, b', calls)"
    using replace_never_dangles [OF inv] by (metis not_Some_eq prod_cases3)
  from replace_order_abs [OF inv assms(2) r prod.collapse [symmetric]] r show ?thesis by blast
qed

definition demo_replace :: ReplaceRequest where
  "demo_replace = \<lparr>p_order_id = 4, p_trader_id = 104, p_symbol = Symbol_default, p_new_price = 100,
     p_new_qty = 6, p_submit_time = 8, p_cl_ord_id = [], p_orig_cl_ord_id = []\<rparr>"

theorem replace_order_refines_witness:
  "(\<exists>rpt b' calls. replace_order demo_book demo_replace 8 = Some (rpt, b', calls) \<and>
    abs_book b' = fst (a_replace demo_replace 8 (abs_book demo_book)) \<and>
    (bk_trade_cb demo_book \<longrightarrow> map trade_view (trade_events calls) =
      map fill_view (snd (a_replace demo_replace 8 (abs_book demo_book))))) \<and>
   map snd (snd (a_replace demo_replace 8 (abs_book demo_book))) = [5, 1]"
proof
  have "replace_typed demo_replace" by code_simp
  then show "\<exists>rpt b' calls. replace_order demo_book demo_replace 8 = Some (rpt, b', calls) \<and>
    abs_book b' = fst (a_replace demo_replace 8 (abs_book demo_book)) \<and>
    (bk_trade_cb demo_book \<longrightarrow> map trade_view (trade_events calls) =
      map fill_view (snd (a_replace demo_replace 8 (abs_book demo_book))))"
    by (rule replace_order_refines [OF demo_reachable])
  show "map snd (snd (a_replace demo_replace 8 (abs_book demo_book))) = [5, 1]" by code_simp
qed

text \<open>C5: price-time priority.  The opposite orders within the limit of an incoming order are ranked by
  price first, the best for the incoming order in front, and by arrival at equal prices; the arrival
  of an order is its handle: an order that comes to rest gets a larger one than every order already
  resting, and a submission changes no other.  The trades of the order, as the trade callback
  reports them, hit in this order a prefix of the ranking; every order hit but the last is filled completely, and matching goes on until the incoming order
  or the ranking is used up: an order that is not refused (positive quantity, new identifier, not
  fill-or-kill) or that trades at all trades the smaller of its quantity and the quantity offered.\<close>

theorem price_time_priority:
  assumes "l3_reachable b" and "order_typed inc" and "bk_trade_cb b"
    and "add_order b inc ts = (rpt, b', calls)"
  shows "let offered = filter (\<lambda>n. \<not> beyond_limit inc (node_price n)) (nodes (opposite inc b));
             trades = trade_events calls
         in sorted_wrt (\<lambda>x y. (if o_side inc = Buy then node_price x < node_price y
                               else node_price x > node_price y) \<or>
                node_price x = node_price y \<and> fst x < fst y) offered \<and>
            length trades \<le> length offered \<and>
            map t_resting_id trades = map node_id (take (length trades) offered) \<and>
            (\<forall>j. j + 1 < length trades \<longrightarrow> t_qty (trades ! j) = node_open (offered ! j)) \<and>
            (trades \<noteq> [] \<or> 0 < o_quantity inc \<and> o_id inc \<notin> node_id ` set (all_nodes b) \<and>
               o_tif inc \<noteq> FOK \<longrightarrow>
             (\<Sum>t\<leftarrow>trades. t_qty t) = min (o_quantity inc) (\<Sum>n\<leftarrow>offered. node_open n)) \<and>
            (\<forall>n \<in> set (all_nodes b').
               (\<exists>m \<in> set (all_nodes b). fst m = fst n \<and> node_id m = node_id n) \<or>
               node_id n = o_id inc \<and> (\<forall>m \<in> set (all_nodes b). fst m < fst n))"
proof -
  note inv = l3.reachable_inv [OF assms(1)]
  obtain r kept fs where t: "trade_events calls = trades_of b inc ts fs"
    and f: "fill (if fs = [] then 0 else o_quantity inc) (nodes (eligible inc (opposite inc b))) =
      (r, kept, fs)" and pos: "fs \<noteq> [] \<Longrightarrow> 0 < o_quantity inc"
    using add_order_trades [OF inv assms(2-4)] by metis
  have "0 \<le> (if fs = [] then 0 else o_quantity inc)" using pos by auto
  note p = fill_prefix [OF f eligible_ok [OF inv] this]
  have ids: "map (node_id \<circ> fst) fs = map node_id (take (length fs) (nodes (eligible inc (opposite inc b))))"
    by (metis map_map p(1))
  have whole: "t_qty (trades_of b inc ts fs ! j) = node_open (nodes (eligible inc (opposite inc b)) ! j)"
    if "j + 1 < length fs" for j
    using trades_of_nth [of j fs b inc ts] that p(2) [OF that] by simp
  let ?offered = "filter (\<lambda>n. \<not> beyond_limit inc (node_price n)) (nodes (opposite inc b))"
  have "sorted_wrt (ahead_of (opp_before inc)) ?offered"
    using in_priority_sides(1) priority.reachable_inv [OF assms(1)] by (blast intro: sorted_wrt_filter)
  moreover have "ahead_of (opp_before inc) = (\<lambda>x y. (if o_side inc = Buy then node_price x < node_price y
      else node_price x > node_price y) \<or> node_price x = node_price y \<and> fst x < fst y)"
    by (intro ext) (simp add: ahead_of_def opp_before_def split: Side.split)
  ultimately show ?thesis
    using p(3) ids whole add_order_traded [OF inv assms(2-4)] add_order_handles [OF inv assms(2,4)]
    unfolding Let_def eligible_filter [OF inv, symmetric] t trades_of_fields(4)
    by (simp add: trades_of_fields(1-3))
qed

theorem price_time_priority_witness:
  "let trades = trade_events (snd (snd (add_order demo_book (demo_order 5 Buy Day 101 15) 5)))
   in map t_resting_id trades = take (length trades) [2, 3, 1] \<and> (\<Sum>t\<leftarrow>trades. t_qty t) = 15"
proof -
  let ?inc = "demo_order 5 Buy Day 101 15"
  have offered: "filter (\<lambda>n. \<not> beyond_limit ?inc (node_price n)) (nodes (opposite ?inc demo_book)) =
      nodes (bk_asks demo_book)" by code_simp
  have ids: "map node_id (take k (nodes (bk_asks demo_book))) = take k [2, 3, 1]" for k
    by (simp add: take_map [symmetric] demo_facts(1))
  have "(\<Sum>n\<leftarrow>nodes (bk_asks demo_book). node_open n) = 22" by (simp add: demo_facts(4))
  moreover have "5 \<notin> node_id ` set (all_nodes demo_book)" by code_simp
  ultimately show ?thesis
    using price_time_priority [OF demo_reachable, of ?inc 5] demo_facts(3)
    by (cases "add_order demo_book ?inc 5") (simp add: i64_ok_def Let_def offered ids)
qed

text \<open>C7: every trade is at the price of a resting order within the limit of the incoming one, for a
  positive quantity, stamped with the symbol, the traders, the aggressor side and the match time;
  trade identifiers are consecutive, and the counters and the (wrapping) volume follow the trades.\<close>

theorem trades_well_formed:
  assumes "l3_reachable b" and "order_typed inc" and "bk_trade_cb b"
    and "add_order b inc ts = (rpt, b', calls)"
  shows "(\<forall>t \<in> set (trade_events calls). 0 < t_qty t \<and> \<not> beyond_limit inc (t_price t) \<and>
        (\<exists>n \<in> set (nodes (opposite inc b)). t_resting_id t = node_id n \<and> t_price t = node_price n \<and>
           t_resting_trader t = l_trader_id (snd n) \<and> t_qty t \<le> node_open n) \<and>
        t_incoming_id t = o_id inc \<and> t_incoming_trader t = o_trader_id inc \<and>
        t_symbol t = bk_symbol b \<and> t_aggressor_side t = o_side inc \<and> t_match_timestamp_ns t = ts) \<and>
    (\<forall>k < length (trade_events calls).
       t_trade_id (trade_events calls ! k) = bk_next_trade_id b + of_nat k) \<and>
    bk_next_trade_id b' = bk_next_trade_id b + of_nat (length (trade_events calls)) \<and>
    bk_trade_count b' = bk_trade_count b + of_nat (length (trade_events calls)) \<and>
    bk_total_volume b' = wrap64 (bk_total_volume b + (\<Sum>t\<leftarrow>trade_events calls. t_qty t))"
proof -
  note inv = l3.reachable_inv [OF assms(1)]
  let ?el = "nodes (eligible inc (opposite inc b))"
  obtain r kept fs where t: "trade_events calls = trades_of b inc ts fs"
    and f: "fill (if fs = [] then 0 else o_quantity inc) ?el = (r, kept, fs)"
    and counts: "bk_next_trade_id b' = bk_next_trade_id b + of_nat (length fs)"
      "bk_trade_count b' = bk_trade_count b + of_nat (length fs)"
      "bk_total_volume b' = wrap64 (bk_total_volume b + (\<Sum>(n, m)\<leftarrow>fs. m))"
    and pos: "fs \<noteq> [] \<Longrightarrow> 0 < o_quantity inc"
    using add_order_trades [OF inv assms(2-4)] by metis
  have q: "0 \<le> (if fs = [] then 0 else o_quantity inc)" using pos by auto
  have each: "0 < t_qty t \<and> \<not> beyond_limit inc (t_price t) \<and>
        (\<exists>n \<in> set (nodes (opposite inc b)). t_resting_id t = node_id n \<and> t_price t = node_price n \<and>
           t_resting_trader t = l_trader_id (snd n) \<and> t_qty t \<le> node_open n) \<and>
        t_incoming_id t = o_id inc \<and> t_incoming_trader t = o_trader_id inc \<and>
        t_symbol t = bk_symbol b \<and> t_aggressor_side t = o_side inc \<and> t_match_timestamp_ns t = ts"
    if trade: "t \<in> set (trades_of b inc ts fs)" for t
  proof -
    obtain k where k: "k < length fs" "t = trades_of b inc ts fs ! k"
      using trade by (metis in_set_conv_nth trades_of_fields(4))
    obtain n m where nm: "fs ! k = (n, m)" by (metis surj_pair)
    then have "(n, m) \<in> set fs" using k(1) by (metis nth_mem)
    then have "n \<in> set ?el" "0 < m" "m \<le> node_open n"
      using fill_conserves(6) [OF f eligible_ok [OF inv] q] by auto
    moreover from this(1) have "n \<in> set (nodes (opposite inc b))" "\<not> beyond_limit inc (node_price n)"
      unfolding eligible_filter [OF inv] by simp_all
    ultimately show ?thesis using trades_of_nth [OF k(1), of b inc ts] k(2) nm by auto
  qed
  have ids: "t_trade_id (trades_of b inc ts fs ! k) = bk_next_trade_id b + of_nat k"
    if "k < length fs" for k using trades_of_nth [OF that, of b inc ts] by simp
  have "(\<Sum>t\<leftarrow>trades_of b inc ts fs. t_qty t) = (\<Sum>(n, m)\<leftarrow>fs. m)"
    by (simp add: trades_of_fields case_prod_unfold)
  then show ?thesis
    unfolding t trades_of_fields(4) using each ids counts by auto
qed

theorem trades_well_formed_witness:
  "list_all (\<lambda>t. 0 < t_qty t \<and> t_price t \<le> 101)
     (trade_events (snd (snd (add_order demo_book (demo_order 5 Buy Day 101 15) 5)))) \<and>
   bk_trade_count (book_after demo_book (demo_order 5 Buy Day 101 15) 5) = 3"
proof
  show "list_all (\<lambda>t. 0 < t_qty t \<and> t_price t \<le> 101)
     (trade_events (snd (snd (add_order demo_book (demo_order 5 Buy Day 101 15) 5))))"
    using trades_well_formed [OF demo_reachable, of "demo_order 5 Buy Day 101 15" 5] demo_facts(3)
    by (cases "add_order demo_book (demo_order 5 Buy Day 101 15) 5")
       (simp add: i64_ok_def beyond_limit_def not_less list_all_iff)
  show "bk_trade_count (book_after demo_book (demo_order 5 Buy Day 101 15) 5) = 3" by code_simp
qed


text \<open>C6: quantity is conserved.  For an order of positive quantity that is not rejected, what is
  reported filled is the sum of the trades the trade callback gets and exactly what the opposite side loses; filled and
  leaves add up to the quantity of the order, except for an immediate-or-cancel limit order, whose
  remainder is cancelled and which reports no leaves.  (A market order that is immediate-or-cancel
  still reports its remainder as leaves, although nothing of it rests.)\<close>

theorem quantity_conserved:
  assumes "l3_reachable b" and "order_typed inc" and "0 < o_quantity inc" and "bk_trade_cb b"
    and "add_order b inc ts = (rpt, b', calls)" and "r_status rpt \<noteq> Rejected"
  shows "0 \<le> r_filled_qty rpt \<and> r_filled_qty rpt \<le> o_quantity inc \<and>
    (\<Sum>t\<leftarrow>trade_events calls. t_qty t) = r_filled_qty rpt \<and>
    (if o_type inc = Limit \<and> o_tif inc = IOC then r_leaves_qty rpt = 0
     else r_filled_qty rpt + r_leaves_qty rpt = o_quantity inc) \<and>
    total_open (nodes (opposite inc b')) = total_open (nodes (opposite inc b)) - r_filled_qty rpt"
proof -
  note inv = l3.reachable_inv [OF assms(1)]
  show ?thesis
  proof (cases rule: add_order_effect [OF inv assms(2,5)])
    case 1
    then show ?thesis using assms(6) by simp
  next
    case 2
    have "r_status rpt \<noteq> Rejected" by (rule assms(6))
    then have "o_type inc \<noteq> Limit"
      using 2(2) assms(3) settled_fields(3) [OF 2(4)] by (auto simp: killed_result_def fok_fails_def split: if_splits)
    then show ?thesis
      using 2 settled_fields(1,2) [OF 2(4)] assms(3) by (simp add: killed_result_def)
  next
    case (3 r kept fs ls' result)
    note c = fill_conserves [OF 3(3) eligible_ok [OF inv] less_imp_le [OF assms(3)]]
    have range: "wrap64 (o_quantity inc - r) = o_quantity inc - r"
      using c(2,3) assms(2) by (intro wrap64_id) (simp add: order_typed_def i64_ok_def)
    have no_fok: "\<not> (0 < r \<and> o_type inc = Limit \<and> o_tif inc = FOK)"
      using assms(6) settled_fields(3) [OF 3(8)] 3(4) by (auto split: if_splits)
    have filled: "r_filled_qty rpt = o_quantity inc - r"
      using no_fok settled_fields(1) [OF 3(8)] 3(4) range by auto
    have leaves: "r_leaves_qty rpt = (if o_type inc = Limit \<and> o_tif inc = IOC then 0 else r)"
      using no_fok settled_fields(2) [OF 3(8)] 3(4) c(2) by auto
    have "opposite inc b' = ls'" using 3(6) by simp
    moreover have "total_open (nodes (opposite inc b)) =
        total_open (nodes (eligible inc (opposite inc b))) +
        total_open (nodes (ineligible inc (opposite inc b)))"
      by (metis map_append nodes_split sum_list_append)
    moreover have "(\<Sum>t\<leftarrow>trade_events calls. t_qty t) = (\<Sum>(n, m)\<leftarrow>fs. m)"
      using 3(9) assms(4) by (simp add: trades_of_fields case_prod_unfold)
    ultimately show ?thesis using c filled leaves 3(5) by simp
  qed
qed

theorem quantity_conserved_witness:
  "r_filled_qty (fst (add_order demo_book (demo_order 5 Buy IOC 101 30) 5)) =
     (\<Sum>t\<leftarrow>trade_events (snd (snd (add_order demo_book (demo_order 5 Buy IOC 101 30) 5))). t_qty t) \<and>
   r_leaves_qty (fst (add_order demo_book (demo_order 5 Buy IOC 101 30) 5)) = 0"
proof -
  have "r_status (fst (add_order demo_book (demo_order 5 Buy IOC 101 30) 5)) \<noteq> Rejected" by code_simp
  then show ?thesis
    using quantity_conserved [OF demo_reachable, of "demo_order 5 Buy IOC 101 30" 5] demo_facts(3)
    by (cases "add_order demo_book (demo_order 5 Buy IOC 101 30) 5") (simp add: i64_ok_def)
qed

text \<open>C8: a fill-or-kill order is filled completely or leaves the book as it was, without a trade,
  even where the 64-bit sum of its look-ahead wraps around.\<close>

theorem fok_all_or_nothing:
  assumes "l3_reachable b" and "order_typed inc" and "0 < o_quantity inc" and "o_tif inc = FOK"
    and "add_order b inc ts = (rpt, b', calls)"
  shows "(b' = b \<and> trade_events calls = [] \<and> r_filled_qty rpt = 0) \<or>
    (r_status rpt = Filled \<and> r_filled_qty rpt = o_quantity inc \<and> r_leaves_qty rpt = 0)"
proof -
  note inv = l3.reachable_inv [OF assms(1)]
  show ?thesis
  proof (cases rule: add_order_effect [OF inv assms(2,5)])
    case 1
    then show ?thesis by (simp add: base_report_def ExecutionReport_default_def)
  next
    case 2
    then show ?thesis using settled_fields(1) [OF 2(4)] by (simp add: killed_result_def)
  next
    case (3 r kept fs ls' result)
    have "o_quantity inc \<le> fok_available inc (opposite inc b) 0"
      using 3(2) assms(4) by (simp add: fok_fails_def)
    also have "\<dots> \<le> total_open (nodes (eligible inc (opposite inc b)))"
      using fok_available_le [OF opposite_ok(2) [OF inv], of 0 inc inc] by simp
    finally have "r = 0"
      using fill_enough [OF 3(3) eligible_ok [OF inv] less_imp_le [OF assms(3)]] by blast
    then show ?thesis
      using settled_fields [OF 3(8)] 3(4) assms(2) by (simp add: order_typed_def)
  qed
qed

theorem fok_all_or_nothing_witness:
  "let (rpt, b', calls) = add_order demo_book (demo_order 5 Sell FOK 98 21) 5
   in trade_events calls = [] \<and> abs_book b' = abs_book demo_book"
proof -
  have "r_filled_qty (fst (add_order demo_book (demo_order 5 Sell FOK 98 21) 5)) = 0" by code_simp
  then show ?thesis
    using fok_all_or_nothing [OF demo_reachable, of "demo_order 5 Sell FOK 98 21" 5]
    by (cases "add_order demo_book (demo_order 5 Sell FOK 98 21) 5") (auto simp: i64_ok_def)
qed

text \<open>C10: When an order of positive quantity is submitted to a reachable book, under an identifier that
  no resting order has, it rests afterwards exactly when it is a limit order, day or
  good-till-cancelled, and its report leaves a positive quantity; it then rests on its own side, at
  its own price and with the quantity reported as leaves.  In particular a market order, an
  immediate-or-cancel and a fill-or-kill order never rest.\<close>

theorem rests_iff:
  assumes "l3_reachable b" and "order_typed inc" and "0 < o_quantity inc"
    and "o_id inc \<notin> node_id ` set (all_nodes b)"
    and "add_order b inc ts = (rpt, b', calls)"
  shows "(o_id inc \<in> node_id ` set (all_nodes b') \<longleftrightarrow>
      o_type inc = Limit \<and> o_tif inc \<in> {Day, GTC} \<and> 0 < r_leaves_qty rpt) \<and>
    (\<forall>n \<in> set (all_nodes b'). node_id n = o_id inc \<longrightarrow>
      l_side (snd n) = o_side inc \<and> node_price n = o_price inc \<and> node_open n = r_leaves_qty rpt)"
proof -
  note inv = l3.reachable_inv [OF assms(1)]
  show ?thesis
  proof (cases rule: add_order_effect [OF inv assms(2,5)])
    case 1
    then show ?thesis using assms(4) by blast
  next
    case 2
    then have "o_tif inc = FOK" by (simp add: fok_fails_def)
    moreover have "node_id n \<noteq> o_id inc" if "n \<in> set (all_nodes b)" for n
      using assms(4) that by (metis imageI)
    ultimately show ?thesis using 2(3) assms(4) by simp
  next
    case (3 r kept fs ls' result)
    let ?b1 = "set_opposite inc ls' (apply_fills fs b)"
    note c = fill_conserves(2,3) [OF 3(3) eligible_ok [OF inv] less_imp_le [OF assms(3)]]
    have r_ok: "i64_ok r" using c assms(2) by (simp add: order_typed_def i64_ok_def)
    have "bk_order_index b (o_id inc) = None" using 3(1) index_iff [OF inv] by blast
    then have "bk_order_index ?b1 (o_id inc) = None" by (rule index_after_fills)
    then have away: "o_id inc \<notin> node_id ` set (all_nodes ?b1)" using index_iff [OF 3(7)] by blast
    show ?thesis
    proof (cases "r > 0 \<and> o_type inc = Limit \<and> o_tif inc \<in> {Day, GTC}")
      case True
      let ?n = "new_node inc r ts ?b1"
      have set: "set (all_nodes b') = insert ?n (set (all_nodes ?b1))"
        using True 3(6) add_resting_own(1) [OF 3(7), of inc r ts]
        by (cases "o_side inc")
           (auto simp: own_def all_nodes_def add_resting_order_def Let_def)
      have leaves: "r_leaves_qty rpt = r" using settled_fields(2) [OF 3(8)] 3(4) True by auto
      have only: "n = ?n" if "n \<in> set (all_nodes b')" "node_id n = o_id inc" for n
        using that away set by (metis imageI insertE)
      have open_n: "node_open ?n = r" using r_ok by (simp add: open_qty_def)
      have mine: "l_side (snd n) = o_side inc \<and> node_price n = o_price inc \<and>
          node_open n = r_leaves_qty rpt" if "n \<in> set (all_nodes b')" "node_id n = o_id inc" for n
        unfolding only [OF that] using leaves open_n by simp
      have "o_id inc \<in> node_id ` set (all_nodes b')" using set by simp
      then show ?thesis using leaves True mine by blast
    next
      case False
      have "b' = ?b1" unfolding 3(6) using False by (rule if_not_P)
      moreover have "r_leaves_qty rpt = r \<or> \<not> (o_type inc = Limit \<and> o_tif inc \<in> {Day, GTC})"
        using settled_fields(2) [OF 3(8)] 3(4) by auto
      moreover have "node_id n \<noteq> o_id inc" if "n \<in> set (all_nodes ?b1)" for n
        using away that by (metis imageI)
      ultimately show ?thesis using away False by auto
    qed
  qed
qed

theorem rests_iff_witness:
  "o_id (demo_order 5 Buy IOC 101 30) \<notin> node_id ` set (all_nodes (book_after demo_book (demo_order 5 Buy IOC 101 30) 5)) \<and>
   o_id (demo_order 5 Buy Day 101 30) \<in> node_id ` set (all_nodes (book_after demo_book (demo_order 5 Buy Day 101 30) 5))"
proof
  have fresh: "5 \<notin> node_id ` set (all_nodes demo_book)" by code_simp
  then show "o_id (demo_order 5 Buy IOC 101 30) \<notin> node_id ` set (all_nodes (book_after demo_book (demo_order 5 Buy IOC 101 30) 5))"
    using rests_iff [OF demo_reachable, of "demo_order 5 Buy IOC 101 30" 5]
    by (cases "add_order demo_book (demo_order 5 Buy IOC 101 30) 5")
       (simp add: i64_ok_def book_after_def)
  have "0 < r_leaves_qty (fst (add_order demo_book (demo_order 5 Buy Day 101 30) 5))" by code_simp
  then show "o_id (demo_order 5 Buy Day 101 30) \<in> node_id ` set (all_nodes (book_after demo_book (demo_order 5 Buy Day 101 30) 5))"
    using rests_iff [OF demo_reachable, of "demo_order 5 Buy Day 101 30" 5] fresh
    by (cases "add_order demo_book (demo_order 5 Buy Day 101 30) 5")
       (simp add: i64_ok_def book_after_def)
qed


text \<open>C9: the status of the report of an order of positive quantity, as a function of the abstract
  fills: rejected for a duplicate identifier or an unfillable limit fill-or-kill order, filled when
  nothing is left, cancelled for an immediate-or-cancel limit order without a fill, otherwise
  partially filled or new.  For a fill-or-kill order the quantity its look-ahead sums up has to fit
  the 64-bit type.  A market order whose remainder is dropped reports \<open>New\<close> or \<open>PartiallyFilled\<close>
  like a resting one; in particular an unfillable fill-or-kill market order reports \<open>New\<close> although it
  neither trades nor rests, where the README promises that such an order is rejected.\<close>

theorem report_status:
  assumes "l3_reachable b" and "order_typed inc" and "0 < o_quantity inc"
    and "lookahead_in_range inc b" and "add_order b inc ts = (rpt, b', calls)"
  shows "r_status rpt =
    (let filled = (\<Sum>(x, m)\<leftarrow>snd (a_submit inc (abs_book b)). m)
     in if o_id inc \<in> node_id ` set (all_nodes b) then Rejected
        else if filled = o_quantity inc then Filled
        else if o_type inc = Limit \<and> o_tif inc = FOK then Rejected
        else if filled > 0 then PartiallyFilled
        else if o_type inc = Limit \<and> o_tif inc = IOC then Canceled else New)"
proof -
  note inv = l3.reachable_inv [OF assms(1)]
  note sub = a_submit_def Let_def abs_ids
  note sub2 = abs_book_simps offered_abs [OF inv] fok_fails_abs [OF inv assms(4), symmetric]
    abs_taken [OF eligible_ok [OF inv]]
  have abs: "snd (a_submit inc (abs_book b)) =
      (if o_id inc \<in> node_id ` set (all_nodes b) \<or> fok_fails inc b then []
       else (case fill (o_quantity inc) (nodes (eligible inc (opposite inc b))) of
          (r, kept, fs) \<Rightarrow> map (\<lambda>(n, m). (abs_node n, m)) fs))"
    unfolding sub unfolding sub2 by (simp split: prod.split)
  show ?thesis
  proof (cases rule: add_order_effect [OF inv assms(2,5)])
    case 1
    then show ?thesis by (simp add: Let_def)
  next
    case 2
    then show ?thesis
      using abs settled_fields(3) [OF 2(4)] assms(3)
      by (simp add: killed_result_def fok_fails_def Let_def)
  next
    case (3 r kept fs ls' result)
    note c = fill_conserves [OF 3(3) eligible_ok [OF inv] less_imp_le [OF assms(3)]]
    have range: "wrap64 (o_quantity inc - r) = o_quantity inc - r"
      using c(2,3) assms(2) by (intro wrap64_id) (simp add: order_typed_def i64_ok_def)
    have "(\<Sum>(x, m)\<leftarrow>snd (a_submit inc (abs_book b)). m) = o_quantity inc - r"
      unfolding abs using 3(1,2,3) c(1) by (simp add: comp_def case_prod_unfold)
    then show ?thesis
      using settled_fields(3) [OF 3(8)] 3(1,4) range c(2) by (auto simp: Let_def)
  qed
qed

theorem report_status_witness:
  "r_status (fst (add_order demo_book (demo_order 5 Buy Day 101 30) 5)) = PartiallyFilled"
proof -
  have "lookahead_in_range (demo_order 5 Buy Day 101 30) demo_book"
    "(\<Sum>(x, m)\<leftarrow>snd (a_submit (demo_order 5 Buy Day 101 30) (abs_book demo_book)). m) = 22"
    "5 \<notin> node_id ` set (all_nodes demo_book)"
    by code_simp+
  then show ?thesis
    using report_status [OF demo_reachable, of "demo_order 5 Buy Day 101 30" 5]
    by (cases "add_order demo_book (demo_order 5 Buy Day 101 30) 5") (simp add: i64_ok_def Let_def)
qed

text \<open>C11: submitting a limit order that does not cross and cancelling it gives back the book: the
  same resting orders in the same priority and the same index.\<close>


theorem add_cancel_roundtrip:
  assumes "l3_reachable b" and "order_typed inc" and "0 < o_quantity inc"
    and "o_id inc \<notin> node_id ` set (all_nodes b)"
    and "o_type inc = Limit" and "o_tif inc \<in> {Day, GTC}"
    and "\<forall>n \<in> set (nodes (opposite inc b)). beyond_limit inc (node_price n)"
    and "add_order b inc ts = (rpt, b', calls)"
  shows "\<exists>rpt' b'' calls'. cancel_order b' (o_id inc) ts' = Some (rpt', b'', calls') \<and>
    r_status rpt' = Canceled \<and> r_order_qty rpt' = o_quantity inc \<and> r_filled_qty rpt' = 0 \<and>
    abs_book b'' = abs_book b \<and> bk_order_index b'' = bk_order_index b"
proof -
  note inv = l3.reachable_inv [OF assms(1)]
  have inv': "l3_inv b'" using add_order_preserves [OF inv assms(2), of ts] assms(8) by simp
  have fresh: "bk_order_index b (o_id inc) = None" using assms(4) index_iff [OF inv] by blast
  obtain b1 where b1: "b' = add_resting_order inc (o_quantity inc) ts b1" "l3_inv b1"
    "abs_book b1 = abs_book b" "bk_order_index b1 = bk_order_index b"
  proof (cases rule: add_order_effect [OF inv assms(2,8)])
    case 1
    then show thesis using assms(4) by blast
  next
    case 2
    then show thesis using assms(6) by (simp add: fok_fails_def)
  next
    case (3 r kept fs ls' result)
    note none = no_eligible [OF inv assms(7)]
    have f: "r = o_quantity inc" "kept = []" "fs = []" using 3(3) none by simp_all
    have "nodes ls' = nodes (opposite inc b)"
      using 3(5) f none nodes_split [of inc "opposite inc b"] by simp
    then have "abs_book (set_opposite inc ls' b) = abs_book b"
      by (cases "o_side inc") (simp_all add: abs_book_def set_opposite_def opposite_def)
    moreover have "bk_order_index (set_opposite inc ls' b) = bk_order_index b"
      by (simp add: set_opposite_def split: Side.split)
    ultimately show thesis using that [of "set_opposite inc ls' b"] 3(6,7) f assms(3,5,6) by simp
  qed
  let ?n = "new_node inc (o_quantity inc) ts b1"
  have idx: "bk_order_index b' = (bk_order_index b)(o_id inc \<mapsto> loc_of ?n)" using b1(1,4) by simp
  have n: "?n \<in> set (all_nodes b')"
    using add_resting_own(1) [OF b1(2), of inc "o_quantity inc" ts] b1(1)
    by (cases "o_side inc") (simp_all add: own_def all_nodes_def)
  have q: "i64_ok (o_quantity inc)" using assms(2) by (simp add: order_typed_def)
  have abs: "abs_book b' = a_rest inc (o_quantity inc) (abs_book b)"
    using abs_rest [OF b1(2) q, of inc ts] b1(1,3) by simp
  have "abs_book (cancelled ?n b') = abs_book b"
    using cancelled_abs [OF inv' n] abs a_cancel_rest [of inc "abs_book b"] assms(4) abs_ids by simp
  moreover have "bk_order_index (cancelled ?n b') = bk_order_index b"
    using idx fresh by (simp add: fun_upd_idem)
  ultimately show ?thesis
    using cancel_effect [OF inv' n, of ts'] q by (simp add: cancel_report_def)
qed

theorem add_cancel_roundtrip_witness:
  "\<exists>rpt' b'' calls'. cancel_order (book_after demo_book (demo_order 5 Buy Day 99 30) 5) 5 6 =
     Some (rpt', b'', calls') \<and> r_status rpt' = Canceled \<and> r_order_qty rpt' = 30 \<and>
     r_filled_qty rpt' = 0 \<and> abs_book b'' = abs_book demo_book \<and>
     bk_order_index b'' = bk_order_index demo_book"
proof -
  have "5 \<notin> node_id ` set (all_nodes demo_book)" by code_simp
  moreover have "\<forall>n \<in> set (nodes (opposite (demo_order 5 Buy Day 99 30) demo_book)).
      beyond_limit (demo_order 5 Buy Day 99 30) (node_price n)" by code_simp
  ultimately show ?thesis
    using add_cancel_roundtrip [OF demo_reachable, of "demo_order 5 Buy Day 99 30" 5]
    by (cases "add_order demo_book (demo_order 5 Buy Day 99 30) 5")
       (simp add: i64_ok_def book_after_def)
qed

text \<open>Every resting order of a reachable book is plain: no hidden quantity, no iceberg flag, a
  positive open quantity which is its visible quantity, and filled plus open within the type, so
  the additions the matching loops make on it never wrap.\<close>

lemma resting_orders_plain:
  assumes "l3_reachable b" and "n \<in> set (all_nodes b)"
  shows "l_hidden_qty (snd n) = 0 \<and> \<not> l_is_iceberg (snd n) \<and>
    node_open n = l_visible_qty (snd n) \<and> 0 < node_open n \<and> 0 \<le> l_filled_qty (snd n) \<and>
    node_open n + l_filled_qty (snd n) \<le> I64_MAX"
proof -
  note reachable_order [OF assms]
  then show ?thesis
    using open_qty_ok [of "snd n"] open_qty_pos [of "snd n"] open_qty_bound [of "snd n"]
    by (simp add: plain_order_def order_ok_def)
qed

lemma resting_orders_plain_witness:
  "l_hidden_qty (snd (hd (all_nodes demo_book))) = 0 \<and> node_open (hd (all_nodes demo_book)) = 20"
proof -
  have "hd (all_nodes demo_book) \<in> set (all_nodes demo_book)"
    "l_visible_qty (snd (hd (all_nodes demo_book))) = 20" by code_simp+
  then show ?thesis using resting_orders_plain [OF demo_reachable] by simp
qed

end
