(* ===== verification/L3Queries.thy ===== *)
theory L3Queries
  imports L3Properties
begin

text \<open>
  What the queries of the order book return: the depth and the top of the book, the quantity ahead
  of an order and its queue position, as functions of the resting orders in priority order.
\<close>

section \<open>Levels and the flat list\<close>

lemma foldl_level:
  "foldl (\<lambda>(total, count) n. (wrap64 (total + f n), count + 1)) (wrap64 t, c) q =
     (wrap64 (t + (\<Sum>n\<leftarrow>q. f n)), c + of_nat (length q) :: 32 word)"
  by (induction q arbitrary: t c) (simp_all add: algebra_simps)

lemma level_info_eq:
  "level_info p q = \<lparr>bl_price = p, bl_qty = wrap64 (\<Sum>n\<leftarrow>q. l_visible_qty (snd n)),
     bl_order_count = of_nat (length q)\<rparr>"
  using foldl_level [of "\<lambda>n. l_visible_qty (snd n)" 0 0 q]
  by (simp add: level_info_def Let_def)

lemma depth_loop_take: "depth_loop levels n ls = map (\<lambda>(p, q). level_info p q) (take (levels - n) ls)"
  by (induction levels n ls rule: depth_loop.induct) (auto simp: Suc_diff_Suc take_Suc_conv_app_nth
      split: nat.split simp: take_Cons')

lemma filter_level:
  assumes "price_levels before" and "levels_ok before key ls" and "(p, q) \<in> set ls"
  shows "filter (\<lambda>x. key x = p) (nodes ls) = q"
  using assms(2,3)
proof (induction ls)
  case (Cons l ls)
  obtain k r where l: "l = (k, r)" by (cases l)
  with Cons.prems(1) have ok: "levels_ok before key ls" and r: "\<forall>x \<in> set r. key x = k"
    and first: "\<forall>k' \<in> fst ` set ls. before k k'"
    by (auto simp: levels_ok_Cons)
  have keys: "key x \<in> fst ` set ls" if "x \<in> set (nodes ls)" for x
    using levels_ok_keys [OF ok] that by auto
  show ?case
  proof (cases "k = p")
    case True
    then have absent: "p \<notin> fst ` set ls"
      using first price_levels.before_irrefl [OF assms(1)] by blast
    then have "q = r" using Cons.prems(2) l True by force
    moreover have "filter (\<lambda>x. key x = p) (nodes ls) = []"
      using keys absent by (auto simp: filter_empty_conv)
    moreover have "filter (\<lambda>x. key x = p) r = r" using r True by (simp add: filter_id_conv)
    ultimately show ?thesis using l by simp
  next
    case False
    then have "filter (\<lambda>x. key x = p) r = []" using r by (simp add: filter_empty_conv)
    then show ?thesis using Cons.IH [OF ok] Cons.prems(2) l False by simp
  qed
qed simp

lemma remdups_adj_const:
  "q \<noteq> [] \<Longrightarrow> \<forall>x \<in> set q. f x = p \<Longrightarrow> remdups_adj (map f q @ ys) = remdups_adj (p # ys)"
proof (induction q)
  case (Cons x q)
  show ?case
  proof (cases q)
    case (Cons y q')
    then show ?thesis using Cons.IH Cons.prems by simp
  qed (use Cons in simp)
qed simp

lemma prices_of_levels:
  assumes "price_levels before" and "levels_ok before key ls"
  shows "map fst ls = remdups_adj (map key (nodes ls))"
  using assms(2)
proof (induction ls)
  case (Cons l ls)
  obtain p q where l: "l = (p, q)" by (cases l)
  with Cons.prems have ok: "levels_ok before key ls" and q: "q \<noteq> []" "\<forall>x \<in> set q. key x = p"
    and first: "\<forall>k' \<in> fst ` set ls. before p k'"
    by (auto simp: levels_ok_Cons)
  have "remdups_adj (p # map key (nodes ls)) = p # remdups_adj (map key (nodes ls))"
  proof (cases "map key (nodes ls)")
    case (Cons k ks)
    then have "k \<in> key ` set (nodes ls)" by (metis list.set_intros(1) list.set_map)
    then have "before p k" using first levels_ok_keys [OF ok] by auto
    then have "p \<noteq> k" using price_levels.before_irrefl [OF assms(1)] by blast
    then show ?thesis using Cons by simp
  qed simp
  then show ?case using Cons.IH [OF ok] l remdups_adj_const [OF q] by simp
qed simp

text \<open>The summary of one price, from the flat list.\<close>

definition price_summary :: "node list \<Rightarrow> Price \<Rightarrow> BookLevel" where
  "price_summary ns p =
     (let here = filter (\<lambda>n. node_price n = p) ns
      in \<lparr>bl_price = p, bl_qty = wrap64 (\<Sum>n\<leftarrow>here. node_open n), bl_order_count = of_nat (length here)\<rparr>)"

lemma level_summary:
  assumes "price_levels before" and "levels_ok before node_price ls" and "(p, q) \<in> set ls"
    and "\<forall>n \<in> set (nodes ls). l_visible_qty (snd n) = node_open n"
  shows "level_info p q = price_summary (nodes ls) p"
proof -
  have q: "filter (\<lambda>n. node_price n = p) (nodes ls) = q"
    by (rule filter_level [OF assms(1-3)])
  then have "\<forall>n \<in> set q. l_visible_qty (snd n) = node_open n" using assms(4) by auto
  then have "map (\<lambda>n. l_visible_qty (snd n)) q = map node_open q" by simp
  then have "(\<Sum>n\<leftarrow>q. l_visible_qty (snd n)) = total_open q" by (rule arg_cong)
  then show ?thesis by (simp add: price_summary_def level_info_eq q)
qed

lemma depth_summary:
  assumes "price_levels before" and "levels_ok before node_price ls"
    and "\<forall>n \<in> set (nodes ls). l_visible_qty (snd n) = node_open n"
  shows "depth_loop k 0 ls =
    map (price_summary (nodes ls)) (take k (remdups_adj (map node_price (nodes ls))))"
proof -
  have "map (\<lambda>(p, q). level_info p q) (take k ls) = map (\<lambda>l. price_summary (nodes ls) (fst l)) (take k ls)"
    using level_summary [OF assms(1,2) _ assms(3)] by (auto dest: in_set_takeD)
  also have "\<dots> = map (price_summary (nodes ls)) (take k (map fst ls))"
    by (simp add: take_map)
  finally show ?thesis unfolding prices_of_levels [OF assms(1,2)] by (simp add: depth_loop_take)
qed

lemma reachable_visible:
  assumes "l3_reachable b"
  shows "\<forall>n \<in> set (all_nodes b). l_visible_qty (snd n) = node_open n"
proof -
  show ?thesis using reachable_order(1,2) [OF assms] by (simp add: open_qty_ok plain_order_def)
qed

section \<open>Quantity ahead\<close>

lemma ahead_loop_sum:
  "ahead_loop i q (wrap64 a) =
     wrap64 (a + (\<Sum>n\<leftarrow>takeWhile (\<lambda>n. node_id n \<noteq> i) q. l_visible_qty (snd n)))"
proof (induction q arbitrary: a)
  case (Cons n q)
  obtain h r where "n = (h, r)" by (cases n)
  then show ?case using Cons [of "a + l_visible_qty r"] by (simp add: add.assoc)
qed simp

lemma node_queue:
  assumes "l3_inv b" and "n \<in> set (all_nodes b)"
  shows "lv_find (node_price n) (case l_side (snd n) of Buy \<Rightarrow> bk_bids b | Sell \<Rightarrow> bk_asks b) =
    Some (filter (\<lambda>m. node_price m = node_price n)
      (nodes (case l_side (snd n) of Buy \<Rightarrow> bk_bids b | Sell \<Rightarrow> bk_asks b)))"
proof (cases "l_side (snd n)")
  case Buy
  then have "n \<in> set (nodes (bk_bids b))" using side_of_node [OF assms] by simp
  from bid.node_level [OF l3_invD(5) [OF assms(1)] this] show ?thesis
    using filter_level [OF bid.price_levels_axioms l3_invD(5) [OF assms(1)]] Buy by (metis Side.case(1))
next
  case Sell
  then have "n \<in> set (nodes (bk_asks b))" using side_of_node [OF assms] by simp
  from ask.node_level [OF l3_invD(6) [OF assms(1)] this] show ?thesis
    using filter_level [OF ask.price_levels_axioms l3_invD(6) [OF assms(1)]] Sell by (metis Side.case(2))
qed

section \<open>Queue positions\<close>

lemma renumber_positions:
  "map (\<lambda>n. l_queue_pos (snd n)) (renumber c q) = map (\<lambda>k. c + of_nat k) [0..<length q]"
proof (induction c q rule: renumber.induct)
  case (2 c h r q)
  have "[0..<length ((h, r) # q)] = 0 # map Suc [0..<length q]"
    by (simp add: map_Suc_upt upt_conv_Cons del: upt_Suc)
  then show ?case using 2 by (simp add: comp_def add.assoc del: upt_Suc)
qed simp

lemma drop_node_positions:
  assumes "levels_ok before node_price ls" and "price_levels before" and "lv_find p (drop_node p h ls) = Some q"
    and "lv_find p ls \<noteq> None"
  shows "map (\<lambda>n. l_queue_pos (snd n)) q = map of_nat [0..<length q]"
proof -
  obtain q0 where q0: "lv_find p ls = Some q0" using assms(4) by auto
  then have mem: "(p, q0) \<in> set ls" using price_levels.find_Some [OF assms(2,1)] by simp
  have "lv_find p (lv_erase p ls) = None"
    by (auto simp: lv_find_def lv_erase_def map_of_eq_None_iff)
  then have "q = renumber 0 (filter (\<lambda>n. fst n \<noteq> h) q0)"
    using assms(3) q0 price_levels.find_lv_set [OF assms(2,1) mem]
    by (auto simp: drop_node_def Let_def split: if_splits)
  moreover have "length (renumber c xs) = length xs" for c xs
    by (induction c xs rule: renumber.induct) simp_all
  ultimately show ?thesis using renumber_positions [of 0] by simp
qed


section \<open>Properties\<close>

text \<open>C16: the depth query returns the first levels of the book: one entry per distinct price of the
  resting orders, best price first, with the (64-bit) sum of the open quantity and the number of
  the orders at that price.\<close>

theorem depth_aggregates:
  assumes "l3_reachable b"
  shows "bid_depth b k = map (price_summary (nodes (bk_bids b)))
      (take k (remdups_adj (map node_price (nodes (bk_bids b))))) \<and>
    ask_depth b k = map (price_summary (nodes (bk_asks b)))
      (take k (remdups_adj (map node_price (nodes (bk_asks b))))) \<and>
    sorted_wrt (>) (map bl_price (bid_depth b k)) \<and> sorted_wrt (<) (map bl_price (ask_depth b k))"
proof -
  note inv = l3.reachable_inv [OF assms]
  have price: "bl_price (price_summary ns p) = p" for ns p
    by (simp add: price_summary_def Let_def)
  have visible: "\<forall>n \<in> set (nodes (bk_bids b)). l_visible_qty (snd n) = node_open n"
    "\<forall>n \<in> set (nodes (bk_asks b)). l_visible_qty (snd n) = node_open n"
    using reachable_visible [OF assms] by (simp_all add: all_nodes_def)
  note d = depth_summary [OF bid.price_levels_axioms l3_invD(5) [OF inv] visible(1), of k]
    depth_summary [OF ask.price_levels_axioms l3_invD(6) [OF inv] visible(2), of k]
  have "sorted_wrt (>) (map fst (bk_bids b))" "sorted_wrt (<) (map fst (bk_asks b))"
    using l3_invD(5,6) [OF inv] by (simp_all only: levels_ok_def)
  then have "sorted_wrt (>) (take k (remdups_adj (map node_price (nodes (bk_bids b)))))"
    "sorted_wrt (<) (take k (remdups_adj (map node_price (nodes (bk_asks b)))))"
    unfolding prices_of_levels [OF bid.price_levels_axioms l3_invD(5) [OF inv]]
      prices_of_levels [OF ask.price_levels_axioms l3_invD(6) [OF inv]]
    by (blast intro: sorted_wrt_take)+
  then show ?thesis unfolding bid_depth_def ask_depth_def d by (simp add: comp_def price)
qed

theorem depth_aggregates_witness:
  "sorted_wrt (<) (map bl_price (ask_depth demo_book 5)) \<and> map bl_qty (ask_depth demo_book 5) = [12, 10]"
proof
  show "sorted_wrt (<) (map bl_price (ask_depth demo_book 5))"
    using depth_aggregates [OF demo_reachable, of 5] by blast
  show "map bl_qty (ask_depth demo_book 5) = [12, 10]" by code_simp
qed

text \<open>C17: In every reachable book with a best bid and a best ask whose prices and level quantities are
  not negative and below \<open>2\<^sup>31\<close> (so that the products of the micro price fit into 64 bits), the top of
  the book is valid and holds the two levels.  Its spread is the difference of the prices and is
  positive; its mid price is half their sum, rounded down; its micro price weighs the price of each
  side with the quantity of the other side and rounds down, or is the mid price when no quantity is
  there.  The mid price lies between the bid and below the ask, the micro price between the two.\<close>

theorem top_of_book_bounds:
  assumes "l3_reachable b" and "best_bid b = Some x" and "best_ask b = Some y"
    and "0 \<le> bl_price x" and "bl_price y < 2 ^ 31"
    and "0 \<le> bl_qty x" and "bl_qty x < 2 ^ 31" and "0 \<le> bl_qty y" and "bl_qty y < 2 ^ 31"
  shows "tob_valid (top_of_book b ts) \<and> tob_best_bid (top_of_book b ts) = x \<and>
    tob_best_ask (top_of_book b ts) = y \<and>
    tob_spread (top_of_book b ts) = bl_price y - bl_price x \<and> 0 < tob_spread (top_of_book b ts) \<and>
    tob_mid_price (top_of_book b ts) = (bl_price x + bl_price y) div 2 \<and>
    tob_micro_price (top_of_book b ts) = (if 0 < bl_qty x + bl_qty y
      then (bl_price x * bl_qty y + bl_price y * bl_qty x) div (bl_qty x + bl_qty y)
      else (bl_price x + bl_price y) div 2) \<and>
    bl_price x \<le> tob_mid_price (top_of_book b ts) \<and> tob_mid_price (top_of_book b ts) < bl_price y \<and>
    bl_price x \<le> tob_micro_price (top_of_book b ts) \<and> tob_micro_price (top_of_book b ts) \<le> bl_price y"
proof -
  note inv = l3.reachable_inv [OF assms(1)]
  define p p' q q' where "p = bl_price x" and "p' = bl_price y" and "q = bl_qty x" and "q' = bl_qty y"
  note d = this
  have lt: "p < p'" using best_prices_lt [OF inv assms(2,3)] by (simp add: d)
  have r: "0 \<le> p" "p' < 2 ^ 31" "0 \<le> q" "q < 2 ^ 31" "0 \<le> q'" "q' < 2 ^ 31"
    using assms(4-9) by (simp_all add: d)
  have mid: "wrap64 (p + p') = p + p'" "wrap64 (p' - p) = p' - p" "wrap64 (q + q') = q + q'"
    using r lt by (simp_all add: i64_ok_def)
  have "p * q' \<le> (2 ^ 31 - 1) * (2 ^ 31 - 1)" "p' * q \<le> (2 ^ 31 - 1) * (2 ^ 31 - 1)"
    "0 \<le> p * q'" "0 \<le> p' * q"
    using r lt mult_mono [of p "2 ^ 31 - 1" q' "2 ^ 31 - 1"] mult_mono [of p' "2 ^ 31 - 1" q "2 ^ 31 - 1"]
    by simp_all
  then have prod: "wrap64 (p * q') = p * q'" "wrap64 (p' * q) = p' * q"
    "wrap64 (p * q' + p' * q) = p * q' + p' * q" "0 \<le> p * q' + p' * q"
    by (simp_all add: i64_ok_def)
  have sdiv: "(a sdiv c :: int) = a div c" if "0 \<le> a" "0 \<le> c" for a c
    using that by (cases "c = 0") (simp_all add: signed_divide_int_def sgn_if)
  have lo: "p * (q + q') \<le> p * q' + p' * q" and hi: "p * q' + p' * q \<le> p' * (q + q')"
    using lt r by (simp_all add: algebra_simps mult_left_mono mult_right_mono)
  have micro: "p \<le> (p * q' + p' * q) div (q + q')" "(p * q' + p' * q) div (q + q') \<le> p'"
    if "0 < q + q'"
    using zdiv_mono1 [OF lo that] zdiv_mono1 [OF hi that] that by simp_all
  have tob: "top_of_book b ts = TopOfBook_default\<lparr>tob_symbol := bk_symbol b, tob_timestamp := ts,
      tob_valid := True, tob_best_bid := x, tob_best_ask := y, tob_mid_price := (p + p') div 2,
      tob_spread := p' - p,
      tob_micro_price := (if 0 < q + q' then (p * q' + p' * q) div (q + q') else (p + p') div 2)\<rparr>"
    using assms(2,3) mid prod sdiv [of "p + p'" 2] sdiv [of "p * q' + p' * q" "q + q'"] r lt
    by (simp add: top_of_book_def Let_def d)
  have half: "p \<le> (p + p') div 2" "(p + p') div 2 < p'" using lt by simp_all
  show ?thesis unfolding tob using lt micro half by (auto simp: d)
qed

theorem top_of_book_bounds_witness:
  "tob_spread (top_of_book demo_book 9) = 2 \<and> tob_mid_price (top_of_book demo_book 9) = 99 \<and> 98 \<le> tob_micro_price (top_of_book demo_book 9) \<and>
   tob_micro_price (top_of_book demo_book 9) \<le> 100"
proof -
  have "best_bid demo_book = Some \<lparr>bl_price = 98, bl_qty = 20, bl_order_count = 1\<rparr>"
    "best_ask demo_book = Some \<lparr>bl_price = 100, bl_qty = 12, bl_order_count = 2\<rparr>" by code_simp+
  from top_of_book_bounds [OF demo_reachable this, of 9] show ?thesis by simp
qed

text \<open>The quantity ahead of a resting order is the (64-bit) sum of the open quantity of the orders
  before it in the queue of its price, and nothing for an unknown order.\<close>

lemma quantity_ahead_exact:
  assumes "l3_reachable b" and "n \<in> set (all_nodes b)"
    and "side = nodes (case l_side (snd n) of Buy \<Rightarrow> bk_bids b | Sell \<Rightarrow> bk_asks b)"
  shows "quantity_ahead b (node_id n) =
    wrap64 (total_open (takeWhile (\<lambda>m. node_id m \<noteq> node_id n)
      (filter (\<lambda>m. node_price m = node_price n) side)))"
proof -
  note inv = l3.reachable_inv [OF assms(1)]
  let ?q = "filter (\<lambda>m. node_price m = node_price n) side"
  let ?ahead = "takeWhile (\<lambda>m. node_id m \<noteq> node_id n) ?q"
  have idx: "bk_order_index b (node_id n) = Some (loc_of n)"
    by (rule pool_ok_find(2) [OF l3_invD(3) [OF inv] assms(2)])
  have "\<forall>m \<in> set ?ahead. l_visible_qty (snd m) = node_open m"
    using reachable_visible [OF assms(1)] assms(3)
    by (auto simp: all_nodes_def split: Side.splits dest!: set_takeWhileD)
  then have "map (\<lambda>m. l_visible_qty (snd m)) ?ahead = map node_open ?ahead" by simp
  then have sum: "(\<Sum>m\<leftarrow>?ahead. l_visible_qty (snd m)) = total_open ?ahead" by (rule arg_cong)
  have "quantity_ahead b (node_id n) = ahead_loop (node_id n) ?q 0"
    using node_queue [OF inv assms(2)] idx assms(3)
    by (cases "l_side (snd n)") (simp_all add: quantity_ahead_def loc_of_def)
  then show ?thesis using ahead_loop_sum [of "node_id n" ?q 0] sum by simp
qed

lemma quantity_ahead_exact_witness: "quantity_ahead demo_book 3 = 5"
proof -
  have n: "nodes (bk_asks demo_book) ! 1 \<in> set (all_nodes demo_book)"
    "node_id (nodes (bk_asks demo_book) ! 1) = 3"
    "wrap64 (total_open (takeWhile (\<lambda>m. node_id m \<noteq> node_id (nodes (bk_asks demo_book) ! 1))
      (filter (\<lambda>m. node_price m = node_price (nodes (bk_asks demo_book) ! 1))
        (nodes (case l_side (snd (nodes (bk_asks demo_book) ! 1)) of
           Buy \<Rightarrow> bk_bids demo_book | Sell \<Rightarrow> bk_asks demo_book))))) = 5"
    by code_simp+
  show ?thesis using quantity_ahead_exact [OF demo_reachable n(1) refl] unfolding n(3) unfolding n(2) .
qed

text \<open>After a cancellation the orders left at that price carry the queue positions 0, 1, 2, \<open>\<dots>\<close> in
  queue order.\<close>

lemma cancel_renumbers:
  assumes "l3_reachable b" and "n \<in> set (all_nodes b)"
    and "cancel_order b (node_id n) ts = Some (rpt, b', calls)"
  shows "map l_queue_pos (orders_at_price b' (l_side (snd n)) (node_price n)) =
    map of_nat [0..<length (orders_at_price b' (l_side (snd n)) (node_price n))]"
proof -
  note inv = l3.reachable_inv [OF assms(1)]
  have b': "b' = cancelled n b" using cancel_effect [OF inv assms(2)] assms(3) by simp
  show ?thesis
  proof (cases "l_side (snd n)")
    case Buy
    then have bids: "bk_bids b' = drop_node (node_price n) (fst n) (bk_bids b)"
      by (simp add: b' cancelled_def)
    have "lv_find (node_price n) (bk_bids b) \<noteq> None" using node_queue [OF inv assms(2)] Buy by simp
    from drop_node_positions [OF l3_invD(5) [OF inv] bid.price_levels_axioms _ this, of "fst n"]
    show ?thesis using Buy bids by (auto simp: orders_at_price_def comp_def split: option.split)
  next
    case Sell
    then have asks: "bk_asks b' = drop_node (node_price n) (fst n) (bk_asks b)"
      by (simp add: b' cancelled_def)
    have "lv_find (node_price n) (bk_asks b) \<noteq> None" using node_queue [OF inv assms(2)] Sell by simp
    from drop_node_positions [OF l3_invD(6) [OF inv] ask.price_levels_axioms _ this, of "fst n"]
    show ?thesis using Sell asks by (auto simp: orders_at_price_def comp_def split: option.split)
  qed
qed

lemma cancel_renumbers_witness:
  "\<exists>b'. cancel_order demo_book 2 9 \<noteq> None \<and>
     (\<exists>rpt calls. cancel_order demo_book 2 9 = Some (rpt, b', calls)) \<and>
     map l_queue_pos (orders_at_price b' Sell 100) = map of_nat [0..<length (orders_at_price b' Sell 100)]"
proof -
  let ?n = "nodes (bk_asks demo_book) ! 0"
  have n: "?n \<in> set (all_nodes demo_book)" "node_id ?n = 2" "l_side (snd ?n) = Sell"
    "node_price ?n = 100" by code_simp+
  obtain rpt b' calls where c: "cancel_order demo_book 2 9 = Some (rpt, b', calls)"
    using cancel_never_dangles [OF l3.reachable_inv [OF demo_reachable]] by (metis not_Some_eq prod_cases3)
  with cancel_renumbers [OF demo_reachable n(1), of 9 rpt b' calls] show ?thesis
    unfolding n(2,3,4) by auto
qed

definition stale_book :: L3OrderBook where
  "stale_book =
     book_after (book_after demo_book (demo_order 5 Buy IOC 100 5) 5) (demo_order 6 Sell Day 100 4) 6"

lemma stale_reachable: "l3_reachable stale_book"
  unfolding stale_book_def
  by (intro book_after_reachable demo_reachable) (simp_all add: i64_ok_def)

lemma stale_positions:
  "queue_position stale_book 3 = Some 1" "queue_position stale_book 6 = Some 1"
  "map l_id (orders_at_price stale_book Sell 100) = [3, 6]"
  by code_simp+

text \<open>Fills do not renumber: a reachable book can hold two orders at the same price that report the
  same queue position, the second one stale.\<close>

lemma queue_position_stale:
  "\<exists>b. l3_reachable b \<and> queue_position b 3 = Some 1 \<and> queue_position b 6 = Some 1 \<and>
     map l_id (orders_at_price b Sell 100) = [3, 6]"
  by (intro exI [of _ stale_book] conjI stale_reachable stale_positions)

end
