(* ===== verification/Risk.thy ===== *)
theory Risk
  imports Types
begin

text \<open>
  \<^verbatim>\<open>src/risk/risk_engine.hpp\<close> and \<^verbatim>\<open>.cpp\<close>: the pre-trade checks.  An \<^verbatim>\<open>unordered_map\<close> is a partial
  function; \<^verbatim>\<open>trader_states_[id]\<close> inserts a default state, so \<open>get_state\<close> returns the engine it
  leaves as well.  The atomic flag is a field: the model is of one thread.
\<close>

section \<open>State\<close>

record TraderRiskLimits =
  rl_max_position_per_symbol :: Quantity
  rl_max_net_position :: Quantity
  rl_max_order_rate :: "32 word"
  rl_rate_window_ms :: "32 word"
  rl_self_trade_prevention :: bool

definition TraderRiskLimits_default :: TraderRiskLimits where
  "TraderRiskLimits_default = \<lparr>rl_max_position_per_symbol = DEFAULT_POSITION_LIMIT,
     rl_max_net_position = mul64 DEFAULT_POSITION_LIMIT 10,
     rl_max_order_rate = DEFAULT_ORDER_RATE_LIMIT,
     rl_rate_window_ms = DEFAULT_RATE_LIMIT_WINDOW_MS, rl_self_trade_prevention = True\<rparr>"

record TraderRiskState =
  rs_positions :: "Symbol \<rightharpoonup> Quantity"
  rs_order_timestamps :: "Timestamp list"
  rs_net_position :: Quantity
  rs_killed :: bool

definition TraderRiskState_default :: TraderRiskState where
  "TraderRiskState_default = \<lparr>rs_positions = Map.empty, rs_order_timestamps = [],
     rs_net_position = 0, rs_killed = False\<rparr>"

record RiskEngine =
  re_default_limits :: TraderRiskLimits
  re_trader_limits :: "TraderId \<rightharpoonup> TraderRiskLimits"
  re_trader_states :: "TraderId \<rightharpoonup> TraderRiskState"
  re_global_kill :: bool
  re_orders_checked :: "64 word"
  re_orders_rejected :: "64 word"

definition RiskEngine_init :: RiskEngine where
  "RiskEngine_init = \<lparr>re_default_limits = TraderRiskLimits_default, re_trader_limits = Map.empty,
     re_trader_states = Map.empty, re_global_kill = False, re_orders_checked = 0,
     re_orders_rejected = 0\<rparr>"

definition is_global_kill :: "RiskEngine \<Rightarrow> bool" where
  "is_global_kill e \<longleftrightarrow> re_global_kill e"

definition orders_checked :: "RiskEngine \<Rightarrow> 64 word" where
  "orders_checked e = re_orders_checked e"

definition orders_rejected :: "RiskEngine \<Rightarrow> 64 word" where
  "orders_rejected e = re_orders_rejected e"

section \<open>Configuration and helpers\<close>

definition setTraderLimits :: "TraderId \<Rightarrow> TraderRiskLimits \<Rightarrow> RiskEngine \<Rightarrow> RiskEngine" where
  "setTraderLimits trader_id limits e =
     e\<lparr>re_trader_limits := (re_trader_limits e)(trader_id \<mapsto> limits)\<rparr>"

definition setDefaultLimits :: "TraderRiskLimits \<Rightarrow> RiskEngine \<Rightarrow> RiskEngine" where
  "setDefaultLimits limits e = e\<lparr>re_default_limits := limits\<rparr>"

definition get_limits :: "RiskEngine \<Rightarrow> TraderId \<Rightarrow> TraderRiskLimits" where
  "get_limits e trader_id =
     (case re_trader_limits e trader_id of Some l \<Rightarrow> l | None \<Rightarrow> re_default_limits e)"

text \<open>\<^verbatim>\<open>trader_states_[id]\<close>: the state, and the engine after the insertion.\<close>

definition get_state :: "TraderId \<Rightarrow> RiskEngine \<Rightarrow> TraderRiskState \<times> RiskEngine" where
  "get_state trader_id e =
     (case re_trader_states e trader_id of
        Some s \<Rightarrow> (s, e)
      | None \<Rightarrow> (TraderRiskState_default,
                 e\<lparr>re_trader_states := (re_trader_states e)(trader_id \<mapsto> TraderRiskState_default)\<rparr>))"

definition put_state :: "TraderId \<Rightarrow> TraderRiskState \<Rightarrow> RiskEngine \<Rightarrow> RiskEngine" where
  "put_state trader_id s e = e\<lparr>re_trader_states := (re_trader_states e)(trader_id \<mapsto> s)\<rparr>"

section \<open>Fills and the kill switch\<close>

text \<open>\<^verbatim>\<open>positions[symbol]\<close> inserts 0 for a missing symbol.\<close>

definition position_of :: "TraderRiskState \<Rightarrow> Symbol \<Rightarrow> Quantity" where
  "position_of s symbol = (case rs_positions s symbol of None \<Rightarrow> 0 | Some p \<Rightarrow> p)"

definition on_fill :: "TraderId \<Rightarrow> Symbol \<Rightarrow> Side \<Rightarrow> Quantity \<Rightarrow> Price \<Rightarrow> RiskEngine \<Rightarrow> RiskEngine" where
  "on_fill trader_id symbol side qty price e =
     (let (s, e) = get_state trader_id e
      in put_state trader_id
           (case side of
              Buy \<Rightarrow> s\<lparr>rs_positions := (rs_positions s)(symbol \<mapsto> add64 (position_of s symbol) qty),
                       rs_net_position := add64 (rs_net_position s) qty\<rparr>
            | Sell \<Rightarrow> s\<lparr>rs_positions := (rs_positions s)(symbol \<mapsto> sub64 (position_of s symbol) qty),
                       rs_net_position := sub64 (rs_net_position s) qty\<rparr>) e)"

definition kill_trader :: "TraderId \<Rightarrow> RiskEngine \<Rightarrow> RiskEngine" where
  "kill_trader trader_id e =
     (let (s, e) = get_state trader_id e in put_state trader_id (s\<lparr>rs_killed := True\<rparr>) e)"

definition unkill_trader :: "TraderId \<Rightarrow> RiskEngine \<Rightarrow> RiskEngine" where
  "unkill_trader trader_id e =
     (let (s, e) = get_state trader_id e in put_state trader_id (s\<lparr>rs_killed := False\<rparr>) e)"

definition kill_all :: "RiskEngine \<Rightarrow> RiskEngine" where
  "kill_all e = e\<lparr>re_global_kill := True\<rparr>"

definition unkill_all :: "RiskEngine \<Rightarrow> RiskEngine" where
  "unkill_all e = e\<lparr>re_global_kill := False,
     re_trader_states := (\<lambda>t. map_option (\<lambda>s. s\<lparr>rs_killed := False\<rparr>) (re_trader_states e t))\<rparr>"

definition is_killed :: "RiskEngine \<Rightarrow> TraderId \<Rightarrow> bool" where
  "is_killed e trader_id \<longleftrightarrow> re_global_kill e \<or>
     (case re_trader_states e trader_id of None \<Rightarrow> False | Some s \<Rightarrow> rs_killed s)"

definition get_position :: "RiskEngine \<Rightarrow> TraderId \<Rightarrow> Symbol \<Rightarrow> Quantity" where
  "get_position e trader_id symbol =
     (case re_trader_states e trader_id of None \<Rightarrow> 0 | Some s \<Rightarrow> position_of s symbol)"

section \<open>The checks\<close>

definition check_kill_switch :: "RiskEngine \<Rightarrow> TraderId \<Rightarrow> RejectReason" where
  "check_kill_switch e trader_id =
     (if re_global_kill e then KillSwitchActive
      else if is_killed e trader_id then KillSwitchActive else NoReason)"

text \<open>\<^verbatim>\<open>std::abs\<close> on 64 bits: undefined on the least value, where it wraps to itself here.\<close>

definition abs64 :: "int \<Rightarrow> int" where
  "abs64 x = wrap64 \<bar>x\<bar>"

definition check_position_limit :: "TraderId \<Rightarrow> Order \<Rightarrow> RiskEngine \<Rightarrow> RejectReason \<times> RiskEngine" where
  "check_position_limit trader_id order e =
     (let limits = get_limits e trader_id;
          (s, e) = get_state trader_id e;
          current_pos = position_of s (o_symbol order);
          projected_pos = (case o_side order of
             Buy \<Rightarrow> add64 current_pos (o_quantity order)
           | Sell \<Rightarrow> sub64 current_pos (o_quantity order))
      in if abs64 projected_pos > rl_max_position_per_symbol limits then (PositionLimit, e)
         else (let projected_net = (case o_side order of
                     Buy \<Rightarrow> add64 (rs_net_position s) (o_quantity order)
                   | Sell \<Rightarrow> sub64 (rs_net_position s) (o_quantity order))
               in if abs64 projected_net > rl_max_net_position limits then (PositionLimit, e)
                  else (NoReason, e)))"

definition window_ns :: "TraderRiskLimits \<Rightarrow> 64 word" where
  "window_ns limits = ucast (rl_rate_window_ms limits) * 1000000"

definition check_rate_limit :: "TraderId \<Rightarrow> Timestamp \<Rightarrow> RiskEngine \<Rightarrow> RejectReason \<times> RiskEngine" where
  "check_rate_limit trader_id now e =
     (let limits = get_limits e trader_id;
          (s, e) = get_state trader_id e;
          q = dropWhile (\<lambda>t. now - t > window_ns limits) (rs_order_timestamps s)
      in if length q \<ge> unat (rl_max_order_rate limits)
         then (RateLimit, put_state trader_id (s\<lparr>rs_order_timestamps := q\<rparr>) e)
         else (NoReason, put_state trader_id (s\<lparr>rs_order_timestamps := q @ [now]\<rparr>) e))"

definition check_self_trade :: "RiskEngine \<Rightarrow> TraderId \<Rightarrow> Order \<Rightarrow> RejectReason" where
  "check_self_trade e trader_id order = NoReason"

definition check_price_validity :: "Order \<Rightarrow> RejectReason" where
  "check_price_validity order =
     (if o_type order = Limit \<and> o_price order \<le> 0 then InvalidPrice else NoReason)"

definition check_quantity_validity :: "Order \<Rightarrow> RejectReason" where
  "check_quantity_validity order = (if o_quantity order \<le> 0 then InvalidQuantity else NoReason)"

definition count_reject :: "RiskEngine \<Rightarrow> RiskEngine" where
  "count_reject e = e\<lparr>re_orders_rejected := re_orders_rejected e + 1\<rparr>"

definition check_order :: "Order \<Rightarrow> RiskEngine \<Rightarrow> RejectReason \<times> RiskEngine" where
  "check_order order e =
     (let e = e\<lparr>re_orders_checked := re_orders_checked e + 1\<rparr>;
          r = check_kill_switch e (o_trader_id order)
      in if r \<noteq> NoReason then (r, count_reject e)
         else (let r = check_price_validity order
               in if r \<noteq> NoReason then (r, count_reject e)
         else (let r = check_quantity_validity order
               in if r \<noteq> NoReason then (r, count_reject e)
         else (let (r, e) = check_position_limit (o_trader_id order) order e
               in if r \<noteq> NoReason then (r, count_reject e)
         else (let (r, e) = check_rate_limit (o_trader_id order) (o_submit_time order) e
               in if r \<noteq> NoReason then (r, count_reject e)
         else (NoReason, e))))))"


section \<open>Lemmas on the state of a trader\<close>

text \<open>The state of a trader, with the default where none was created yet.\<close>

definition state_of :: "RiskEngine \<Rightarrow> TraderId \<Rightarrow> TraderRiskState" where
  "state_of e t = (case re_trader_states e t of None \<Rightarrow> TraderRiskState_default | Some s \<Rightarrow> s)"

lemma get_state_eq: "get_state t e = (state_of e t, put_state t (state_of e t) e)"
proof (cases "re_trader_states e t")
  case (Some s)
  then have "(re_trader_states e)(t \<mapsto> s) = re_trader_states e" by auto
  then show ?thesis using Some by (simp add: get_state_def state_of_def put_state_def)
qed (simp add: get_state_def state_of_def put_state_def)

lemma state_of_put [simp]:
  "state_of (put_state t s e) u = (if u = t then s else state_of e u)"
  by (simp add: state_of_def put_state_def)

lemma put_put [simp]: "put_state t s (put_state t s' e) = put_state t s e"
  by (simp add: put_state_def)

lemma put_state_frame [simp]:
  "re_default_limits (put_state t s e) = re_default_limits e"
  "re_trader_limits (put_state t s e) = re_trader_limits e"
  "re_global_kill (put_state t s e) = re_global_kill e"
  "re_orders_checked (put_state t s e) = re_orders_checked e"
  "re_orders_rejected (put_state t s e) = re_orders_rejected e"
  "get_limits (put_state t s e) u = get_limits e u"
  by (simp_all add: put_state_def get_limits_def split: option.split)

lemma state_of_update [simp]:
  "state_of (re_orders_checked_update f e) u = state_of e u"
  "state_of (re_orders_rejected_update f e) u = state_of e u"
  "get_limits (re_orders_checked_update f e) u = get_limits e u"
  "get_limits (re_orders_rejected_update f e) u = get_limits e u"
  by (simp_all add: state_of_def get_limits_def split: option.split)

lemma count_reject_frame [simp]:
  "state_of (count_reject e) u = state_of e u" "get_limits (count_reject e) u = get_limits e u"
  "re_global_kill (count_reject e) = re_global_kill e"
  "re_orders_checked (count_reject e) = re_orders_checked e"
  "re_orders_rejected (count_reject e) = re_orders_rejected e + 1"
  by (simp_all add: count_reject_def)

lemma is_killed_state: "is_killed e t \<longleftrightarrow> re_global_kill e \<or> rs_killed (state_of e t)"
  by (simp add: is_killed_def state_of_def TraderRiskState_default_def split: option.split)

lemma get_position_state: "get_position e t s = position_of (state_of e t) s"
  by (simp add: get_position_def state_of_def TraderRiskState_default_def position_of_def
      split: option.split)

lemma on_fill_state:
  "state_of (on_fill t symbol side qty price e) u =
     (if u = t
      then (let s = state_of e t; d = (case side of Buy \<Rightarrow> qty | Sell \<Rightarrow> - qty)
            in s\<lparr>rs_positions := (rs_positions s)(symbol \<mapsto> add64 (position_of s symbol) d),
                 rs_net_position := add64 (rs_net_position s) d\<rparr>)
      else state_of e u)"
  by (simp add: on_fill_def get_state_eq Let_def split: Side.split)

lemma on_fill_frame [simp]:
  "get_limits (on_fill t symbol side qty price e) u = get_limits e u"
  "re_global_kill (on_fill t symbol side qty price e) = re_global_kill e"
  by (simp_all add: on_fill_def get_state_eq Let_def)

lemma kill_states:
  "state_of (kill_trader t e) u = (if u = t then (state_of e t)\<lparr>rs_killed := True\<rparr> else state_of e u)"
  "state_of (unkill_trader t e) u = (if u = t then (state_of e t)\<lparr>rs_killed := False\<rparr> else state_of e u)"
  "state_of (kill_all e) u = state_of e u"
  "state_of (unkill_all e) u = (state_of e u)\<lparr>rs_killed := False\<rparr>"
  "get_limits (kill_trader t e) u = get_limits e u" "get_limits (unkill_trader t e) u = get_limits e u"
  "get_limits (kill_all e) u = get_limits e u" "get_limits (unkill_all e) u = get_limits e u"
  "re_global_kill (kill_trader t e) = re_global_kill e"
  "re_global_kill (unkill_trader t e) = re_global_kill e"
  by (simp_all add: kill_trader_def unkill_trader_def get_state_eq kill_all_def unkill_all_def
      get_limits_def state_of_def TraderRiskState_default_def put_state_def split: option.split)

section \<open>The verdict\<close>

definition signed_qty :: "Order \<Rightarrow> Quantity" where
  "signed_qty order = (case o_side order of Buy \<Rightarrow> o_quantity order | Sell \<Rightarrow> - o_quantity order)"

definition within_position_limits :: "RiskEngine \<Rightarrow> Order \<Rightarrow> bool" where
  "within_position_limits e order \<longleftrightarrow>
     (let t = o_trader_id order; limits = get_limits e t; s = state_of e t
      in abs64 (add64 (position_of s (o_symbol order)) (signed_qty order)) \<le> rl_max_position_per_symbol limits \<and>
         abs64 (add64 (rs_net_position s) (signed_qty order)) \<le> rl_max_net_position limits)"

definition live_orders :: "RiskEngine \<Rightarrow> TraderId \<Rightarrow> Timestamp \<Rightarrow> Timestamp list" where
  "live_orders e t now =
     dropWhile (\<lambda>x. now - x > window_ns (get_limits e t)) (rs_order_timestamps (state_of e t))"

lemma check_position_limit_eq:
  "check_position_limit (o_trader_id order) order e =
     (if within_position_limits e order then NoReason else PositionLimit,
      put_state (o_trader_id order) (state_of e (o_trader_id order)) e)"
  by (simp add: check_position_limit_def get_state_eq within_position_limits_def signed_qty_def
      Let_def not_le split: Side.split)

lemma check_rate_limit_eq:
  "check_rate_limit t now e =
     (if length (live_orders e t now) \<ge> unat (rl_max_order_rate (get_limits e t))
      then (RateLimit, put_state t ((state_of e t)\<lparr>rs_order_timestamps := live_orders e t now\<rparr>) e)
      else (NoReason, put_state t ((state_of e t)\<lparr>rs_order_timestamps := live_orders e t now @ [now]\<rparr>) e))"
  by (simp add: check_rate_limit_def get_state_eq live_orders_def Let_def)

lemma views_frame [simp]:
  "within_position_limits (re_orders_checked_update f e) order = within_position_limits e order"
  "live_orders (re_orders_checked_update f e) t now = live_orders e t now"
  "live_orders (put_state t (state_of e t) e) u now = live_orders e u now"
  "is_killed (re_orders_checked_update f e) t = is_killed e t"
  by (simp_all add: within_position_limits_def live_orders_def is_killed_state Let_def)

definition verdict :: "RiskEngine \<Rightarrow> Order \<Rightarrow> RejectReason" where
  "verdict e order =
     (let t = o_trader_id order
      in if is_killed e t then KillSwitchActive
         else if o_type order = Limit \<and> o_price order \<le> 0 then InvalidPrice
         else if o_quantity order \<le> 0 then InvalidQuantity
         else if \<not> within_position_limits e order then PositionLimit
         else if length (live_orders e t (o_submit_time order)) \<ge> unat (rl_max_order_rate (get_limits e t))
         then RateLimit else NoReason)"

lemma check_order_verdict:
  assumes "check_order order e = (r, e')" and "t = o_trader_id order"
  shows "r = verdict e order"
    and "re_orders_checked e' = re_orders_checked e + 1"
    and "re_orders_rejected e' = re_orders_rejected e + (if r = NoReason then 0 else 1)"
    and "re_global_kill e' = re_global_kill e" "get_limits e' u = get_limits e u"
    and "state_of e' u =
      (if u = t \<and> r = NoReason
       then (state_of e t)\<lparr>rs_order_timestamps := live_orders e t (o_submit_time order) @ [o_submit_time order]\<rparr>
       else if u = t \<and> r = RateLimit
       then (state_of e t)\<lparr>rs_order_timestamps := live_orders e t (o_submit_time order)\<rparr>
       else state_of e u)"
proof -
  let ?e = "e\<lparr>re_orders_checked := re_orders_checked e + 1\<rparr>"
  have kill: "check_kill_switch ?e t = (if is_killed e t then KillSwitchActive else NoReason)"
    by (auto simp: check_kill_switch_def is_killed_state)
  have live: "live_orders (put_state t (state_of e t) ?e) t now = live_orders e t now" for now
    by (simp add: live_orders_def)
  note defs = check_order_def Let_def assms(2) [symmetric] kill check_price_validity_def
    check_quantity_validity_def check_position_limit_eq [of order, folded assms(2)]
    check_rate_limit_eq live verdict_def
  have "r = verdict e order \<and> re_orders_checked e' = re_orders_checked e + 1 \<and>
    re_orders_rejected e' = re_orders_rejected e + (if r = NoReason then 0 else 1) \<and>
    re_global_kill e' = re_global_kill e \<and> get_limits e' u = get_limits e u \<and>
    state_of e' u =
      (if u = t \<and> r = NoReason
       then (state_of e t)\<lparr>rs_order_timestamps := live_orders e t (o_submit_time order) @ [o_submit_time order]\<rparr>
       else if u = t \<and> r = RateLimit
       then (state_of e t)\<lparr>rs_order_timestamps := live_orders e t (o_submit_time order)\<rparr>
       else state_of e u)"
    using assms(1) by (auto simp: defs split: if_splits)
  then show "r = verdict e order" and "re_orders_checked e' = re_orders_checked e + 1"
    and "re_orders_rejected e' = re_orders_rejected e + (if r = NoReason then 0 else 1)"
    and "re_global_kill e' = re_global_kill e" "get_limits e' u = get_limits e u"
    and "state_of e' u =
      (if u = t \<and> r = NoReason
       then (state_of e t)\<lparr>rs_order_timestamps := live_orders e t (o_submit_time order) @ [o_submit_time order]\<rparr>
       else if u = t \<and> r = RateLimit
       then (state_of e t)\<lparr>rs_order_timestamps := live_orders e t (o_submit_time order)\<rparr>
       else state_of e u)"
    by blast+
qed

end
