(* ===== verification/RiskProperties.thy ===== *)
theory RiskProperties
  imports Risk
begin

text \<open>
  The risk engine as a system: sequences of operations, the log of accepted orders, and the
  guarantees: the sliding window, the position limits, the kill switch.
\<close>

section \<open>Sequences of operations\<close>

datatype risk_op =
  Check Order | Fill TraderId Symbol Side Quantity Price | KillTrader TraderId | KillAll
| UnkillTrader TraderId | UnkillAll | SetTraderLimits TraderId TraderRiskLimits
| SetDefaultLimits TraderRiskLimits

fun risk_exec :: "risk_op \<Rightarrow> RiskEngine \<Rightarrow> RiskEngine" where
  "risk_exec (Check order) e = snd (check_order order e)"
| "risk_exec (Fill t symbol side qty price) e = on_fill t symbol side qty price e"
| "risk_exec (KillTrader t) e = kill_trader t e"
| "risk_exec KillAll e = kill_all e"
| "risk_exec (UnkillTrader t) e = unkill_trader t e"
| "risk_exec UnkillAll e = unkill_all e"
| "risk_exec (SetTraderLimits t l) e = setTraderLimits t l e"
| "risk_exec (SetDefaultLimits l) e = setDefaultLimits l e"

definition risk_run :: "risk_op list \<Rightarrow> RiskEngine \<Rightarrow> RiskEngine" where
  "risk_run ops e = foldl (\<lambda>e op. risk_exec op e) e ops"

lemma set_limits_state [simp]:
  "state_of (setTraderLimits t l e) u = state_of e u" "state_of (setDefaultLimits l e) u = state_of e u"
  "re_global_kill (setTraderLimits t l e) = re_global_kill e"
  "re_global_kill (setDefaultLimits l e) = re_global_kill e"
  by (simp_all add: state_of_def setTraderLimits_def setDefaultLimits_def)

lemma global_kills [simp]: "re_global_kill (kill_all e)"
  by (simp add: kill_all_def)

lemma killed_stays:
  assumes "is_killed e t" and "op \<noteq> UnkillTrader t" and "op \<noteq> UnkillAll"
  shows "is_killed (risk_exec op e) t"
proof (cases op)
  case (Check order)
  obtain r e' where c: "check_order order e = (r, e')" by (metis surj_pair)
  show ?thesis
    using assms(1) Check c check_order_verdict(4) [OF c refl] check_order_verdict(6) [OF c refl, of t]
    by (auto simp: is_killed_state)
qed (use assms in \<open>auto simp: is_killed_state on_fill_state kill_states Let_def\<close>)

lemma killed_run:
  "is_killed e t \<Longrightarrow> UnkillTrader t \<notin> set ops \<Longrightarrow> UnkillAll \<notin> set ops \<Longrightarrow> is_killed (risk_run ops e) t"
proof (induction ops arbitrary: e)
  case (Cons op ops)
  then have "is_killed (risk_exec op e) t" by (intro killed_stays) auto
  then show ?case using Cons by (simp add: risk_run_def)
qed (simp add: risk_run_def)

section \<open>The sliding window\<close>

text \<open>
  The log of the accepted orders of every trader beside the engine, and a clock: submit times
  never decrease, and the limits are fixed.
\<close>

fun keeps_limits :: "risk_op \<Rightarrow> bool" where
  "keeps_limits (SetTraderLimits t l) = False"
| "keeps_limits (SetDefaultLimits l) = False"
| "keeps_limits (Check order) = False"
| "keeps_limits _ = True"

type_synonym risk_log = "TraderId \<Rightarrow> Timestamp list"

inductive window_step :: "RiskEngine \<times> risk_log \<times> Timestamp \<Rightarrow> RiskEngine \<times> risk_log \<times> Timestamp \<Rightarrow> bool" where
  check: "clock \<le> o_submit_time order \<Longrightarrow> check_order order e = (r, e') \<Longrightarrow>
    window_step (e, log, clock)
      (e', (if r = NoReason
            then log(o_trader_id order := log (o_trader_id order) @ [o_submit_time order]) else log),
       o_submit_time order)"
| other: "keeps_limits op \<Longrightarrow> window_step (e, log, clock) (risk_exec op e, log, clock)"

definition window_init :: "RiskEngine \<times> risk_log \<times> Timestamp \<Rightarrow> bool" where
  "window_init = (\<lambda>(e, log, clock). log = (\<lambda>_. []) \<and> (\<forall>t. rs_order_timestamps (state_of e t) = []))"

definition log_ok :: "64 word \<Rightarrow> nat \<Rightarrow> Timestamp list \<Rightarrow> Timestamp list \<Rightarrow> Timestamp \<Rightarrow> bool" where
  "log_ok w limit log q clock \<longleftrightarrow> sorted log \<and>
     (\<exists>old p. log = old @ q \<and> (\<forall>a \<in> set log. a \<le> p) \<and> (\<forall>a \<in> set old. p - a > w) \<and>
        p \<le> clock) \<and>
     (\<forall>k < length log. length (filter (\<lambda>a. log ! k - a \<le> w) (take (Suc k) log)) \<le> limit)"

definition window_inv :: "RiskEngine \<times> risk_log \<times> Timestamp \<Rightarrow> bool" where
  "window_inv = (\<lambda>(e, log, clock). \<forall>t.
     log_ok (window_ns (get_limits e t)) (unat (rl_max_order_rate (get_limits e t))) (log t)
       (rs_order_timestamps (state_of e t)) clock)"

lemma word_diff_mono:
  fixes a p now :: "64 word"
  assumes "a \<le> p" and "p \<le> now"
  shows "p - a \<le> now - a"
  using assms by (simp add: word_le_nat_alt unat_sub)

lemma expired_later:
  fixes a p c now w :: "64 word"
  assumes "a \<le> p" and "p \<le> c" and "c \<le> now" and "w < p - a"
  shows "w < now - a"
  using word_diff_mono [OF assms(1) order_trans [OF assms(2,3)]] assms(4) by simp

lemma word_diff_anti:
  fixes a b now :: "64 word"
  assumes "a \<le> b" and "b \<le> now"
  shows "now - b \<le> now - a"
  using assms by (simp add: word_le_nat_alt unat_sub)

lemma sorted_dropWhile_live:
  fixes q :: "64 word list"
  assumes "sorted q" and "\<forall>a \<in> set q. a \<le> now"
  shows "filter (\<lambda>a. now - a \<le> w) q = dropWhile (\<lambda>a. now - a > w) q"
  using assms
proof (induction q)
  case (Cons a q)
  show ?case
  proof (cases "now - a > w")
    case True
    then show ?thesis using Cons by simp
  next
    case False
    have "now - b \<le> w" if "b \<in> set q" for b
      using word_diff_anti [of a b now] Cons.prems that False by (auto simp: not_less)
    then show ?thesis using False by (simp add: not_less filter_id_conv)
  qed
qed simp

lemma log_recent:
  assumes "log_ok w limit log q clock" and "clock \<le> now"
  shows "filter (\<lambda>a. now - a \<le> w) log = dropWhile (\<lambda>a. now - a > w) q"
proof -
  obtain old p where l: "log = old @ q" "\<forall>a \<in> set log. a \<le> p" "\<forall>a \<in> set old. p - a > w" "p \<le> clock"
    using assms(1) by (auto simp: log_ok_def)
  have now: "\<forall>a \<in> set log. a \<le> now" using l(2,4) assms(2) by (meson order_trans)
  have "now - a > w" if "a \<in> set old" for a
    using expired_later [of a p clock now w] l that assms(2) by simp
  then have "filter (\<lambda>a. now - a \<le> w) old = []" by (auto simp: filter_empty_conv not_le)
  moreover have "sorted q" using assms(1) l(1) by (simp add: log_ok_def sorted_append)
  ultimately show ?thesis using sorted_dropWhile_live [of q now w] now l(1) by simp
qed

lemma log_ok_purge:
  assumes "log_ok w limit log q clock" and "clock \<le> now"
  shows "log_ok w limit log (dropWhile (\<lambda>a. now - a > w) q) now"
    and "length (dropWhile (\<lambda>a. now - a > w) q) < limit \<Longrightarrow>
      log_ok w limit (log @ [now]) (dropWhile (\<lambda>a. now - a > w) q @ [now]) now"
proof -
  obtain old p where l: "log = old @ q" "\<forall>a \<in> set log. a \<le> p" "\<forall>a \<in> set old. p - a > w" "p \<le> clock"
    using assms(1) by (auto simp: log_ok_def)
  have sorted: "sorted log"
    and rate: "\<forall>k < length log. length (filter (\<lambda>a. log ! k - a \<le> w) (take (Suc k) log)) \<le> limit"
    using assms(1) by (auto simp: log_ok_def)
  have now: "\<forall>a \<in> set log. a \<le> now" using l(2,4) assms(2) by (meson order_trans)
  let ?P = "\<lambda>a. now - a > w"
  define old' where "old' = old @ takeWhile ?P q"
  have split: "log = old' @ dropWhile ?P q" using l(1) by (simp add: old'_def)
  have "now - a > w" if "a \<in> set old" for a
    using expired_later [of a p clock now w] l that assms(2) by simp
  then have expired: "\<forall>a \<in> set old'. now - a > w" by (auto simp: old'_def dest: set_takeWhileD)
  show "log_ok w limit log (dropWhile ?P q) now"
    unfolding log_ok_def using sorted rate split now expired by blast
  assume room: "length (dropWhile ?P q) < limit"
  have "length (filter (\<lambda>a. (log @ [now]) ! k - a \<le> w) (take (Suc k) (log @ [now]))) \<le> limit"
    if "k < length (log @ [now])" for k
  proof (cases "k < length log")
    case True
    then show ?thesis using rate by (simp add: nth_append)
  next
    case False
    then have k: "k = length log" using that by simp
    have "length (filter (\<lambda>a. now - a \<le> w) (log @ [now])) = length (dropWhile ?P q) + 1"
      using log_recent [OF assms] by simp
    then show ?thesis using k room by simp
  qed
  moreover have "sorted (log @ [now])" using sorted now by (simp add: sorted_append)
  moreover have "log @ [now] = old' @ dropWhile ?P q @ [now]" using split by simp
  ultimately show "log_ok w limit (log @ [now]) (dropWhile ?P q @ [now]) now"
    unfolding log_ok_def using now expired by (intro conjI exI [of _ old'] exI [of _ now]) auto
qed

lemma log_ok_clock:
  assumes "log_ok w limit log q clock" and "clock \<le> now"
  shows "log_ok w limit log q now"
proof -
  obtain old p where l: "log = old @ q" "\<forall>a \<in> set log. a \<le> p" "\<forall>a \<in> set old. p - a > w" "p \<le> clock"
    using assms(1) by (auto simp: log_ok_def)
  have "p \<le> now" by (rule order_trans [OF l(4) assms(2)])
  then show ?thesis using assms(1) l(1-3) unfolding log_ok_def by blast
qed

lemma keeps_limits_frame:
  assumes "keeps_limits op"
  shows "get_limits (risk_exec op e) t = get_limits e t"
    and "rs_order_timestamps (state_of (risk_exec op e) t) = rs_order_timestamps (state_of e t)"
  using assms by (cases op; simp add: on_fill_state kill_states Let_def)+

lemma window_step_inv: "window_inv s \<Longrightarrow> window_step s s' \<Longrightarrow> window_inv s'"
proof (erule window_step.cases)
  fix clock order e r e' log
  assume s: "s = (e, log, clock)" and s': "s' = (e', (if r = NoReason
            then log(o_trader_id order := log (o_trader_id order) @ [o_submit_time order]) else log),
       o_submit_time order)"
    and clock: "clock \<le> o_submit_time order" and c: "check_order order e = (r, e')" and inv: "window_inv s"
  let ?t = "o_trader_id order" and ?now = "o_submit_time order"
  note v = check_order_verdict [OF c refl]
  have old: "log_ok (window_ns (get_limits e t)) (unat (rl_max_order_rate (get_limits e t))) (log t)
       (rs_order_timestamps (state_of e t)) clock" for t
    using inv s by (simp add: window_inv_def)
  have room: "length (live_orders e ?t ?now) < unat (rl_max_order_rate (get_limits e ?t))" if "r = NoReason"
    using v(1) that by (auto simp: verdict_def Let_def split: if_splits)
  show "window_inv s'"
    unfolding window_inv_def s' prod.case
  proof
    fix t
    show "log_ok (window_ns (get_limits e' t)) (unat (rl_max_order_rate (get_limits e' t)))
      ((if r = NoReason then log(?t := log ?t @ [?now]) else log) t)
      (rs_order_timestamps (state_of e' t)) ?now"
      using log_ok_purge [OF old [of ?t] clock] log_ok_clock [OF old clock] room v(5,6) [of t]
      by (auto simp: live_orders_def)
  qed
next
  fix op e log clock
  assume "s = (e, log, clock)" "s' = (risk_exec op e, log, clock)" "keeps_limits op" "window_inv s"
  then show "window_inv s'" by (simp add: window_inv_def keeps_limits_frame)
qed

interpretation window: invariant_system window_init window_step window_inv
proof
  show "window_inv s" if "window_init s" for s
    using that by (auto simp: window_init_def window_inv_def log_ok_def)
  show "window_inv t" if "window_inv s" "window_step s t" for s t
    using window_step_inv that by blast
qed

abbreviation window_reachable :: "RiskEngine \<times> risk_log \<times> Timestamp \<Rightarrow> bool" where
  "window_reachable \<equiv> reachable window_init window_step"


section \<open>Position arithmetic\<close>

lemma abs64_small: "\<bar>x\<bar> < 2 ^ 63 \<Longrightarrow> abs64 x = \<bar>x\<bar>"
  by (simp add: abs64_def i64_ok_def)

lemma projected_bound:
  assumes "\<bar>p\<bar> + q < 2 ^ 63" and "0 \<le> (f :: int)" and "f \<le> q"
    and "d = (case side of Buy \<Rightarrow> q | Sell \<Rightarrow> - q)" and "g = (case side of Buy \<Rightarrow> f | Sell \<Rightarrow> - f)"
    and "abs64 (add64 p d) \<le> limit"
  shows "\<bar>add64 p g\<bar> \<le> max \<bar>p\<bar> limit"
proof -
  have "wrap64 (p + d) = p + d" "wrap64 (p + g) = p + g"
    using assms(1-5) by (auto simp: i64_ok_def split: Side.splits intro!: wrap64_id)
  moreover have "abs64 (p + d) = \<bar>p + d\<bar>"
    using assms(1-4) by (intro abs64_small) (auto split: Side.splits)
  ultimately show ?thesis using assms(2-6) by (auto split: Side.splits)
qed

text \<open>A fill of at most the quantity of an order that passed the checks.\<close>

lemma fill_within_limits:
  assumes "check_order order e = (NoReason, e')" and "t = o_trader_id order"
    and "0 \<le> qty" and "qty \<le> o_quantity order"
    and "\<bar>get_position e t (o_symbol order)\<bar> + o_quantity order < 2 ^ 63"
    and "\<bar>rs_net_position (state_of e t)\<bar> + o_quantity order < 2 ^ 63"
    and "e'' = on_fill t (o_symbol order) (o_side order) qty px e'"
  shows "\<bar>get_position e'' t (o_symbol order)\<bar> \<le>
      max \<bar>get_position e t (o_symbol order)\<bar> (rl_max_position_per_symbol (get_limits e t)) \<and>
    \<bar>rs_net_position (state_of e'' t)\<bar> \<le>
      max \<bar>rs_net_position (state_of e t)\<bar> (rl_max_net_position (get_limits e t))"
proof -
  note v = check_order_verdict [OF assms(1,2)]
  have within: "within_position_limits e order"
    using v(1) by (auto simp: verdict_def Let_def split: if_splits)
  have same: "position_of (state_of e' t) s = position_of (state_of e t) s"
    "rs_net_position (state_of e' t) = rs_net_position (state_of e t)" for s
    using v(6) [of t] by (simp_all add: position_of_def)
  show ?thesis
    using projected_bound [OF assms(5) assms(3,4) refl refl, of "o_side order"]
      projected_bound [OF assms(6) assms(3,4) refl refl, of "o_side order"] within
    by (simp add: assms(7) get_position_state on_fill_state same Let_def position_of_def [of "_\<lparr>rs_positions := _, rs_net_position := _\<rparr>"]
        within_position_limits_def signed_qty_def assms(2) [symmetric])
qed

section \<open>Properties\<close>

text \<open>C14: the verdict on an order is the first failing check, in the order kill switch, price, quantity,
  position limits, rate limit; every call counts as checked and every rejection as rejected;
  positions, kill flags, limits and the states of other traders are untouched.  The rate window of the
  trader afterwards is, exactly: for an accepted order the entries that have not expired and the order
  itself; for an order refused by the rate limit the entries that have not expired, without the
  order; for an order refused earlier what it was.\<close>

theorem check_order_decides:
  assumes "check_order order e = (r, e')"
  shows "r = verdict e order \<and> re_orders_checked e' = re_orders_checked e + 1 \<and>
    re_orders_rejected e' = re_orders_rejected e + (if r = NoReason then 0 else 1) \<and>
    (\<forall>t. is_killed e' t = is_killed e t \<and> get_limits e' t = get_limits e t \<and>
      (\<forall>s. get_position e' t s = get_position e t s) \<and>
      (t \<noteq> o_trader_id order \<longrightarrow> state_of e' t = state_of e t)) \<and>
    rs_order_timestamps (state_of e' (o_trader_id order)) =
      (if r = NoReason
       then live_orders e (o_trader_id order) (o_submit_time order) @ [o_submit_time order]
       else if r = RateLimit then live_orders e (o_trader_id order) (o_submit_time order)
       else rs_order_timestamps (state_of e (o_trader_id order)))"
proof -
  note v = check_order_verdict [OF assms refl]
  have "is_killed e' t = is_killed e t" "get_position e' t s = get_position e t s" for t s
    using v(4) v(6) [of t] by (auto simp: is_killed_state get_position_state position_of_def)
  then show ?thesis using v(1-3) v(5,6) by auto
qed

definition demo_risk_order :: "Quantity \<Rightarrow> Timestamp \<Rightarrow> Order" where
  "demo_risk_order q ts = Order_default\<lparr>o_trader_id := 7, o_price := 50, o_quantity := q, o_submit_time := ts\<rparr>"

theorem check_order_decides_witness:
  "fst (check_order (demo_risk_order 20000 5) RiskEngine_init) = PositionLimit \<and>
   re_orders_rejected (snd (check_order (demo_risk_order 20000 5) RiskEngine_init)) = 1 \<and>
   rs_order_timestamps (state_of (snd (check_order (demo_risk_order 20000 5) RiskEngine_init)) 7) = []"
proof -
  have v: "verdict RiskEngine_init (demo_risk_order 20000 5) = PositionLimit"
    "re_orders_rejected RiskEngine_init = 0"
    "rs_order_timestamps (state_of RiskEngine_init 7) = []" by code_simp+
  have t: "o_trader_id (demo_risk_order 20000 5) = 7" by (simp add: demo_risk_order_def)
  show ?thesis
    using check_order_decides [of "demo_risk_order 20000 5" RiskEngine_init] v t
    by (cases "check_order (demo_risk_order 20000 5) RiskEngine_init") simp
qed

text \<open>The bound on the size in \<open>fill_within_limits\<close> matters.  With a long position of one, an order for the largest quantity
  passes the position limits: the projected position wraps to the least value, whose \<open>abs\<close> is
  negative.\<close>

lemma position_limit_wraps:
  "\<exists>e order. get_position e 7 Symbol_default = 1 \<and> o_side order = Buy \<and> o_quantity order = I64_MAX \<and>
     rl_max_position_per_symbol (get_limits e 7) = 10000 \<and> fst (check_order order e) = NoReason"
proof (intro exI conjI)
  let ?e = "on_fill 7 Symbol_default Buy 1 50 RiskEngine_init"
  show "get_position ?e 7 Symbol_default = 1" by code_simp
  show "rl_max_position_per_symbol (get_limits ?e 7) = 10000" by code_simp
  show "fst (check_order (demo_risk_order I64_MAX 5) ?e) = NoReason" by code_simp
qed (simp_all add: demo_risk_order_def Order_default_def)

text \<open>The rate limiter keeps its promise.  While submit times do not decrease and the limits stay
  fixed, whatever is checked for whichever traders in between, the orders accepted from a trader
  within one window before any accepted order (itself included) are at most the configured number.\<close>

lemma rate_limit_bound:
  assumes "window_reachable (e, log, clock)" and "k < length (log t)"
  shows "length (filter (\<lambda>a. log t ! k - a \<le> window_ns (get_limits e t)) (take (Suc k) (log t)))
    \<le> unat (rl_max_order_rate (get_limits e t))"
  using window.reachable_inv [OF assms(1)] assms(2) by (simp add: window_inv_def log_ok_def)

definition demo_rate_engine :: RiskEngine where
  "demo_rate_engine = setDefaultLimits (TraderRiskLimits_default\<lparr>rl_max_order_rate := 1\<rparr>) RiskEngine_init"

lemma demo_window_start: "window_reachable (demo_rate_engine, \<lambda>_. [], 0)"
  by (rule reachable_init)
     (simp add: window_init_def demo_rate_engine_def state_of_def setDefaultLimits_def
       RiskEngine_init_def TraderRiskState_default_def)

lemma demo_window_step:
  "window_reachable (snd (check_order (demo_risk_order 3 5) demo_rate_engine), (\<lambda>_. [])(7 := [5]), 5)"
proof -
  let ?o = "demo_risk_order 3 5"
  have o: "o_submit_time ?o = 5" "o_trader_id ?o = 7"
    by (simp_all add: demo_risk_order_def)
  have "fst (check_order ?o demo_rate_engine) = NoReason" by code_simp
  then have c: "check_order ?o demo_rate_engine = (NoReason, snd (check_order ?o demo_rate_engine))"
    by (metis prod.collapse)
  have "window_step (demo_rate_engine, \<lambda>_. [], 0)
      (snd (check_order ?o demo_rate_engine), (\<lambda>_. [])(7 := [5]), 5)"
    using window_step.check [OF _ c, of 0 "\<lambda>_. []"] o by (simp add: fun_upd_def)
  then show ?thesis by (rule reachable_step [OF demo_window_start])
qed

lemma rate_limit_bound_witness:
  "length (filter (\<lambda>a. 5 - a \<le> window_ns (get_limits (snd (check_order (demo_risk_order 3 5) demo_rate_engine)) 7))
      (take (Suc 0) [5])) \<le> unat (rl_max_order_rate (get_limits (snd (check_order (demo_risk_order 3 5) demo_rate_engine)) 7))"
  using rate_limit_bound [OF demo_window_step, of 0 7] by simp

text \<open>C15: the rate limiter rejects no order without cause: in such a run an order is let through only if
  fewer accepted orders than the configured number lie in the window before it, and rejected for
  its rate only if at least that many do.\<close>

theorem rate_limit_exact:
  assumes "window_reachable (e, log, clock)" and "clock \<le> o_submit_time order"
    and "check_order order e = (r, e')" and "t = o_trader_id order"
    and "recent = filter (\<lambda>a. o_submit_time order - a \<le> window_ns (get_limits e t)) (log t)"
  shows "(r = NoReason \<longrightarrow> length recent < unat (rl_max_order_rate (get_limits e t))) \<and>
    (r = RateLimit \<longrightarrow> unat (rl_max_order_rate (get_limits e t)) \<le> length recent)"
proof -
  have "log_ok (window_ns (get_limits e t)) (unat (rl_max_order_rate (get_limits e t))) (log t)
      (rs_order_timestamps (state_of e t)) clock"
    using window.reachable_inv [OF assms(1)] by (simp add: window_inv_def)
  from log_recent [OF this assms(2)] have "recent = live_orders e t (o_submit_time order)"
    using assms(5) by (simp add: live_orders_def)
  then show ?thesis
    using check_order_verdict(1) [OF assms(3,4)] assms(4)
    by (auto simp: verdict_def Let_def not_le split: if_splits)
qed

theorem rate_limit_exact_witness:
  "1 \<le> length (filter (\<lambda>a. 9 - a \<le> window_ns (get_limits (snd (check_order (demo_risk_order 3 5) demo_rate_engine)) 7)) [5])"
proof -
  let ?e = "snd (check_order (demo_risk_order 3 5) demo_rate_engine)"
  have "fst (check_order (demo_risk_order 3 9) ?e) = RateLimit" by code_simp
  then have c: "check_order (demo_risk_order 3 9) ?e = (RateLimit, snd (check_order (demo_risk_order 3 9) ?e))"
    by (metis prod.collapse)
  have o: "o_submit_time (demo_risk_order 3 9) = 9" "o_trader_id (demo_risk_order 3 9) = 7"
    by (simp_all add: demo_risk_order_def)
  have "unat (rl_max_order_rate (get_limits ?e 7)) = 1" by code_simp
  then show ?thesis using rate_limit_exact [OF demo_window_step _ c refl refl] o by simp
qed

text \<open>A killed trader stays killed.  After \<open>kill_trader\<close> or \<open>kill_all\<close> and any sequence of
  operations without an \<open>unkill\<close> that concerns the trader, every order of the trader is rejected.\<close>

lemma kill_switch_holds:
  assumes "is_killed e t" and "UnkillTrader t \<notin> set ops" and "UnkillAll \<notin> set ops"
    and "o_trader_id order = t"
  shows "fst (check_order order (risk_run ops e)) = KillSwitchActive"
proof -
  obtain r e' where c: "check_order order (risk_run ops e) = (r, e')" by (metis surj_pair)
  then show ?thesis
    using killed_run [OF assms(1-3)] check_order_verdict(1) [OF c refl] assms(4)
    by (simp add: verdict_def Let_def)
qed

lemma kill_switch_holds_witness:
  "fst (check_order (demo_risk_order 3 5)
     (risk_run [UnkillTrader 8, Fill 7 Symbol_default Buy 2 50] (kill_trader 7 RiskEngine_init))) = KillSwitchActive"
proof (rule kill_switch_holds)
  show "is_killed (kill_trader 7 RiskEngine_init) 7" by code_simp
  show "o_trader_id (demo_risk_order 3 5) = 7" by (simp add: demo_risk_order_def)
qed simp_all

text \<open>Lifting the global kill switch also lifts the kills of single traders.\<close>

lemma unkill_all_clears: "\<not> is_killed (unkill_all (kill_all (kill_trader t e))) t"
  by (simp add: is_killed_state kill_states) (simp add: unkill_all_def)

end
