(* ===== verification/RingBuffer.thy ===== *)
theory RingBuffer
  imports Prelude
begin

text \<open>
  \<^verbatim>\<open>src/HPRingBuffer.hpp\<close>: the ring buffer with 64-bit sequence numbers that only grow (and wrap
  around).  The template argument \<^verbatim>\<open>Size\<close> is a field.  A slot that was moved from keeps its value
  here; it is not read again before it is overwritten, which \<open>slots_apart\<close> shows.  The two
  overloads of \<^verbatim>\<open>try_push\<close> differ in copying or moving only.
\<close>

section \<open>The buffer\<close>

record 'a HPRingBuffer =
  rb_size :: nat
  rb_write_sequence :: "64 word"
  rb_read_sequence :: "64 word"
  rb_buffer :: "'a list"

definition HPRingBuffer_init :: "nat \<Rightarrow> 'a \<Rightarrow> 'a HPRingBuffer" where
  "HPRingBuffer_init n d = \<lparr>rb_size = n, rb_write_sequence = 0, rb_read_sequence = 0,
     rb_buffer = replicate n d\<rparr>"

definition rb_mask :: "'a HPRingBuffer \<Rightarrow> 64 word" where
  "rb_mask b = of_nat (rb_size b - 1)"

definition rb_slot :: "'a HPRingBuffer \<Rightarrow> 64 word \<Rightarrow> nat" where
  "rb_slot b s = unat (and s (rb_mask b))"

definition try_push :: "'a \<Rightarrow> 'a HPRingBuffer \<Rightarrow> bool \<times> 'a HPRingBuffer" where
  "try_push item b =
     (let ws = rb_write_sequence b
      in if ws - rb_read_sequence b \<ge> of_nat (rb_size b - 1) then (False, b)
         else (True, b\<lparr>rb_buffer := (rb_buffer b)[rb_slot b ws := item],
                       rb_write_sequence := ws + 1\<rparr>))"

definition try_pop :: "'a HPRingBuffer \<Rightarrow> 'a option \<times> 'a HPRingBuffer" where
  "try_pop b =
     (let rs = rb_read_sequence b
      in if rs = rb_write_sequence b then (None, b)
         else (let value = rb_buffer b ! rb_slot b rs
               in (Some value, b\<lparr>rb_read_sequence := rs + 1\<rparr>)))"

definition rb_empty :: "'a HPRingBuffer \<Rightarrow> bool" where
  "rb_empty b \<longleftrightarrow> rb_write_sequence b = rb_read_sequence b"

definition rb_full :: "'a HPRingBuffer \<Rightarrow> bool" where
  "rb_full b \<longleftrightarrow> rb_write_sequence b - rb_read_sequence b \<ge> of_nat (rb_size b - 1)"

definition rb_count :: "'a HPRingBuffer \<Rightarrow> 64 word" where
  "rb_count b = rb_write_sequence b - rb_read_sequence b"

definition rb_capacity :: "'a HPRingBuffer \<Rightarrow> nat" where
  "rb_capacity b = rb_size b - 1"

section \<open>Slots\<close>

text \<open>\<open>static_assert\<close>: the size is a power of two greater than one.\<close>

definition size_ok :: "nat \<Rightarrow> bool" where
  "size_ok n \<longleftrightarrow> (\<exists>k. 0 < k \<and> k < 64 \<and> n = 2 ^ k)"

lemma size_okE:
  assumes "size_ok n"
  obtains k where "0 < k" "k < 64" "n = 2 ^ k"
  using assms by (auto simp: size_ok_def)

lemma size_ok_bounds:
  assumes "size_ok n"
  shows "1 < n \<and> n < 2 ^ 64"
proof -
  obtain k where k: "0 < k" "k < 64" "n = 2 ^ k" using assms by (rule size_okE)
  have "(1 :: nat) < 2 ^ k" using k(1) by (intro one_less_power) simp_all
  moreover have "(2 :: nat) ^ k < 2 ^ 64" using k(2) by (intro power_strict_increasing) simp_all
  ultimately show ?thesis using k(3) by simp
qed

lemma slot_mod:
  assumes "size_ok (rb_size b)"
  shows "rb_slot b s = unat s mod rb_size b"
proof -
  obtain k where k: "0 < k" "k < 64" "rb_size b = 2 ^ k" using assms by (rule size_okE)
  have "rb_mask b = mask k"
    using k by (simp add: rb_mask_def mask_eq_exp_minus_1 of_nat_diff)
  then have "rb_slot b s = unat (take_bit k s)" by (simp add: rb_slot_def take_bit_eq_mask)
  also have "\<dots> = take_bit k (unat s)" by (rule unsigned_take_bit_eq)
  also have "\<dots> = unat s mod 2 ^ k" by (rule take_bit_eq_mod)
  finally show ?thesis using k by simp
qed

lemma slot_plus:
  assumes "size_ok (rb_size b)"
  shows "rb_slot b (s + of_nat i) = (unat s + i) mod rb_size b"
proof -
  obtain k where k: "0 < k" "k < 64" "rb_size b = 2 ^ k" using assms by (rule size_okE)
  have "rb_size b dvd 2 ^ 64" unfolding k(3) using k(2) by (intro le_imp_power_dvd) simp
  then have "((unat s + i) mod 2 ^ 64) mod rb_size b = (unat s + i) mod rb_size b"
    by (rule mod_mod_cancel)
  moreover have "unat (s + of_nat i) = (unat s + i) mod 2 ^ 64"
    by (simp add: unat_word_ariths unat_of_nat mod_simps)
  ultimately show ?thesis by (simp add: slot_mod [OF assms])
qed

lemma slot_less: "size_ok (rb_size b) \<Longrightarrow> rb_slot b s < rb_size b"
  using size_ok_bounds [of "rb_size b"] by (simp add: slot_mod)

text \<open>Different positions less than a full turn apart use different slots.\<close>

lemma slots_apart:
  assumes "size_ok (rb_size b)" and "i < j" and "j < i + rb_size b"
  shows "rb_slot b (s + of_nat i) \<noteq> rb_slot b (s + of_nat j)"
proof
  assume "rb_slot b (s + of_nat i) = rb_slot b (s + of_nat j)"
  then have "(unat s + i) mod rb_size b = (unat s + j) mod rb_size b"
    by (simp add: slot_plus [OF assms(1)])
  then have "rb_size b dvd (unat s + j) - (unat s + i)"
    using assms(2) by (metis add_le_mono le_refl less_imp_le mod_eq_dvd_iff_nat)
  then have "rb_size b dvd j - i" by simp
  then show False using assms(2,3) by (auto dest: dvd_imp_le)
qed

section \<open>The buffer as a bounded queue\<close>

definition rb_ok :: "'a HPRingBuffer \<Rightarrow> bool" where
  "rb_ok b \<longleftrightarrow> size_ok (rb_size b) \<and> length (rb_buffer b) = rb_size b \<and>
     unat (rb_write_sequence b - rb_read_sequence b) < rb_size b"

definition rb_contents :: "'a HPRingBuffer \<Rightarrow> 'a list" where
  "rb_contents b = map (\<lambda>i. rb_buffer b ! rb_slot b (rb_read_sequence b + of_nat i))
     [0..<unat (rb_write_sequence b - rb_read_sequence b)]"

lemma rb_contents_length: "length (rb_contents b) = unat (rb_count b)"
  by (simp add: rb_contents_def rb_count_def)

lemma init_ok: "size_ok n \<Longrightarrow> rb_ok (HPRingBuffer_init n d) \<and> rb_contents (HPRingBuffer_init n d) = []"
  using size_ok_bounds [of n] by (simp add: rb_ok_def HPRingBuffer_init_def rb_contents_def)

lemma full_iff:
  assumes "rb_ok b"
  shows "rb_write_sequence b - rb_read_sequence b \<ge> of_nat (rb_size b - 1) \<longleftrightarrow>
    length (rb_contents b) = rb_capacity b"
proof -
  have n: "1 < rb_size b" "rb_size b < 2 ^ 64" using assms size_ok_bounds by (auto simp: rb_ok_def)
  then have "unat (of_nat (rb_size b - 1) :: 64 word) = rb_size b - 1"
    by (subst unat_of_nat) simp
  then have "rb_write_sequence b - rb_read_sequence b \<ge> of_nat (rb_size b - 1) \<longleftrightarrow>
      rb_size b - 1 \<le> unat (rb_write_sequence b - rb_read_sequence b)"
    by (simp only: word_le_nat_alt)
  then show ?thesis
    using assms n by (auto simp: rb_ok_def rb_contents_def rb_capacity_def)
qed

lemma unat_suc:
  fixes w :: "64 word"
  assumes "unat w + 1 < 2 ^ 64"
  shows "unat (w + 1) = unat w + 1"
  using assms by (simp add: unat_word_ariths)

text \<open>The two effects of a push: writing the free slot, and publishing it.\<close>

lemma write_free_slot:
  assumes "rb_ok b"
  shows "rb_contents (b\<lparr>rb_buffer := (rb_buffer b)[rb_slot b (rb_write_sequence b) := item]\<rparr>) = rb_contents b"
    and "rb_ok (b\<lparr>rb_buffer := (rb_buffer b)[rb_slot b (rb_write_sequence b) := item]\<rparr>)"
    and "rb_buffer b ! rb_slot b (rb_read_sequence b) =
      (rb_buffer b)[rb_slot b (rb_write_sequence b) := item] ! rb_slot b (rb_read_sequence b)
      \<or> rb_read_sequence b = rb_write_sequence b"
proof -
  let ?w = "rb_write_sequence b" and ?r = "rb_read_sequence b"
  let ?b = "b\<lparr>rb_buffer := (rb_buffer b)[rb_slot b ?w := item]\<rparr>"
  have n: "size_ok (rb_size b)" and less: "unat (?w - ?r) < rb_size b" using assms by (auto simp: rb_ok_def)
  have w: "?w = ?r + of_nat (unat (?w - ?r))" by simp
  have apart: "rb_slot b ?w \<noteq> rb_slot b (?r + of_nat i)" if "i < unat (?w - ?r)" for i
    using slots_apart [OF n, of i "unat (?w - ?r)" ?r] that less w by simp
  have slot: "rb_slot ?b = rb_slot b" by (simp add: rb_slot_def rb_mask_def fun_eq_iff)
  show "rb_contents ?b = rb_contents b"
    unfolding rb_contents_def slot using apart by simp
  show "rb_ok ?b" using assms by (simp add: rb_ok_def)
  show "rb_buffer b ! rb_slot b ?r = (rb_buffer b)[rb_slot b ?w := item] ! rb_slot b ?r \<or> ?r = ?w"
  proof (cases "?r = ?w")
    case False
    then have "0 < unat (?w - ?r)" by (simp add: unat_gt_0)
    then show ?thesis using apart [of 0] by simp
  qed simp
qed

lemma publish_slot:
  assumes "rb_ok b" and "unat (rb_write_sequence b - rb_read_sequence b) + 1 < rb_size b"
  shows "rb_contents (b\<lparr>rb_write_sequence := rb_write_sequence b + 1\<rparr>) =
      rb_contents b @ [rb_buffer b ! rb_slot b (rb_write_sequence b)]"
    and "rb_ok (b\<lparr>rb_write_sequence := rb_write_sequence b + 1\<rparr>)"
proof -
  let ?w = "rb_write_sequence b" and ?r = "rb_read_sequence b"
  let ?b = "b\<lparr>rb_write_sequence := ?w + 1\<rparr>"
  have n: "rb_size b < 2 ^ 64" using assms(1) size_ok_bounds by (auto simp: rb_ok_def)
  have count: "unat (?w + 1 - ?r) = unat (?w - ?r) + 1"
    using unat_suc [of "?w - ?r"] n assms(2) by (simp add: algebra_simps)
  have slot: "rb_slot ?b = rb_slot b" by (simp add: rb_slot_def rb_mask_def fun_eq_iff)
  show "rb_contents ?b = rb_contents b @ [rb_buffer b ! rb_slot b ?w]"
    unfolding rb_contents_def slot using count by simp
  show "rb_ok ?b" using assms count by (simp add: rb_ok_def)
qed

lemma slot_of_write [simp]:
  "rb_ok b \<Longrightarrow> (rb_buffer b)[rb_slot b s := item] ! rb_slot b s = item"
  using slot_less [of b s] by (simp add: rb_ok_def)

lemma slot_buffer [simp]:
  "rb_slot (b\<lparr>rb_buffer := xs\<rparr>) = rb_slot b" "rb_slot (b\<lparr>rb_write_sequence := s\<rparr>) = rb_slot b"
  "rb_slot (b\<lparr>rb_read_sequence := s\<rparr>) = rb_slot b"
  by (simp_all add: rb_slot_def rb_mask_def fun_eq_iff)

lemma try_push_spec:
  assumes "rb_ok b" and "try_push item b = (ok, b')"
  shows "ok \<longleftrightarrow> length (rb_contents b) < rb_capacity b"
    and "rb_contents b' = (if ok then rb_contents b @ [item] else rb_contents b)"
    and "rb_ok b'" and "rb_size b' = rb_size b"
proof -
  let ?w = "rb_write_sequence b" and ?r = "rb_read_sequence b"
  let ?b1 = "b\<lparr>rb_buffer := (rb_buffer b)[rb_slot b ?w := item]\<rparr>"
  have less: "unat (?w - ?r) < rb_size b" using assms(1) by (simp add: rb_ok_def)
  then have le: "length (rb_contents b) \<le> rb_capacity b"
    by (simp add: rb_contents_def rb_capacity_def)
  show ok: "ok \<longleftrightarrow> length (rb_contents b) < rb_capacity b"
    using assms(2) full_iff [OF assms(1)] le by (auto simp: try_push_def Let_def split: if_splits)
  have "rb_contents b' = (if ok then rb_contents b @ [item] else rb_contents b) \<and> rb_ok b' \<and>
      rb_size b' = rb_size b"
  proof (cases ok)
    case False
    then have "b' = b" using assms(2) by (auto simp: try_push_def Let_def split: if_splits)
    then show ?thesis using False assms(1) by simp
  next
    case True
    then have b': "b' = ?b1\<lparr>rb_write_sequence := ?w + 1\<rparr>"
      using assms(2) by (auto simp: try_push_def Let_def split: if_splits)
    have "unat (?w - ?r) + 1 < rb_size b"
      using True ok by (simp add: rb_contents_def rb_capacity_def)
    then show ?thesis
      using publish_slot [of ?b1] write_free_slot(1,2) [OF assms(1), of item] assms(1) True
      by (simp add: b')
  qed
  then show "rb_contents b' = (if ok then rb_contents b @ [item] else rb_contents b)" and "rb_ok b'"
    and "rb_size b' = rb_size b" by blast+
qed

lemma try_pop_spec:
  assumes "rb_ok b" and "try_pop b = (v, b')"
  shows "v = (case rb_contents b of [] \<Rightarrow> None | x # _ \<Rightarrow> Some x)"
    and "rb_contents b' = tl (rb_contents b)" and "rb_ok b'" and "rb_size b' = rb_size b"
proof -
  let ?w = "rb_write_sequence b" and ?r = "rb_read_sequence b"
  have less: "unat (?w - ?r) < rb_size b" using assms(1) by (simp add: rb_ok_def)
  show "rb_size b' = rb_size b" using assms(2) by (auto simp: try_pop_def Let_def split: if_splits)
  have "v = (case rb_contents b of [] \<Rightarrow> None | x # _ \<Rightarrow> Some x) \<and> rb_contents b' = tl (rb_contents b) \<and> rb_ok b'"
  proof (cases "?r = ?w")
    case True
    then show ?thesis using assms by (auto simp: try_pop_def rb_contents_def)
  next
    case False
    then have v: "v = Some (rb_buffer b ! rb_slot b ?r)" and b': "b' = b\<lparr>rb_read_sequence := ?r + 1\<rparr>"
      using assms(2) by (auto simp: try_pop_def Let_def)
    have "unat (?w - ?r) \<noteq> 0" using False by (simp add: unat_eq_0)
    then obtain n where n: "unat (?w - ?r) = Suc n" using not0_implies_Suc by blast
    then have "unat (?w - ?r - 1) = n"
      by (metis add_diff_cancel_right' diff_Suc_1 unat_minus_one unat_0 nat.distinct(1))
    then have count: "unat (?w - (?r + 1)) = n" by (simp add: algebra_simps)
    have slot: "rb_slot b' = rb_slot b" by (simp add: b' rb_slot_def rb_mask_def fun_eq_iff)
    have "rb_contents b = rb_buffer b ! rb_slot b ?r #
        map (\<lambda>i. rb_buffer b ! rb_slot b (?r + of_nat (Suc i))) [0..<n]"
      by (simp add: rb_contents_def n upt_conv_Cons map_Suc_upt [symmetric] comp_def del: upt_Suc)
    moreover have "rb_contents b' = map (\<lambda>i. rb_buffer b ! rb_slot b (?r + of_nat (Suc i))) [0..<n]"
      unfolding rb_contents_def slot using count by (simp add: b' algebra_simps)
    ultimately show ?thesis using v assms(1) n count less by (simp add: rb_ok_def b')
  qed
  then show "v = (case rb_contents b of [] \<Rightarrow> None | x # _ \<Rightarrow> Some x)"
    and "rb_contents b' = tl (rb_contents b)" and "rb_ok b'" by blast+
qed


section \<open>The interface of a bounded queue\<close>

text \<open>
  What the users of a non-blocking queue rely on: a push is accepted exactly when there is room and
  appends, a pop takes the oldest element.  The consequences are proved once, for any provider.
\<close>

datatype 'a queue_op = Push 'a | Pop

fun queue_run :: "('a \<Rightarrow> 'q \<Rightarrow> bool \<times> 'q) \<Rightarrow> ('q \<Rightarrow> 'a option \<times> 'q) \<Rightarrow> 'a queue_op list \<Rightarrow> 'q
    \<Rightarrow> 'a list \<times> 'a list \<times> 'q" where
  "queue_run push pop [] q = ([], [], q)"
| "queue_run push pop (Push x # ops) q =
     (case push x q of (ok, q) \<Rightarrow>
        (case queue_run push pop ops q of
           (accepted, popped, q) \<Rightarrow> (if ok then x # accepted else accepted, popped, q)))"
| "queue_run push pop (Pop # ops) q =
     (case pop q of (v, q) \<Rightarrow>
        (case queue_run push pop ops q of
           (accepted, popped, q) \<Rightarrow>
             (accepted, (case v of None \<Rightarrow> popped | Some x \<Rightarrow> x # popped), q)))"

locale bounded_queue =
  fixes push :: "'a \<Rightarrow> 'q \<Rightarrow> bool \<times> 'q"
    and pop :: "'q \<Rightarrow> 'a option \<times> 'q"
    and inv :: "'q \<Rightarrow> bool"
    and contents :: "'q \<Rightarrow> 'a list"
    and cap :: "'q \<Rightarrow> nat"
  assumes push_law: "inv q \<Longrightarrow> push x q = (ok, q') \<Longrightarrow>
      inv q' \<and> cap q' = cap q \<and> (ok \<longleftrightarrow> length (contents q) < cap q) \<and>
      contents q' = (if ok then contents q @ [x] else contents q)"
    and pop_law: "inv q \<Longrightarrow> pop q = (v, q') \<Longrightarrow>
      inv q' \<and> cap q' = cap q \<and> v = (case contents q of [] \<Rightarrow> None | x # _ \<Rightarrow> Some x) \<and>
      contents q' = tl (contents q)"
    and cap_law: "inv q \<Longrightarrow> length (contents q) \<le> cap q"
begin

text \<open>First in, first out.\<close>

lemma run_fifo:
  assumes "inv q" and "queue_run push pop ops q = (accepted, popped, q')"
  shows "contents q @ accepted = popped @ contents q' \<and> inv q' \<and> cap q' = cap q"
  using assms
proof (induction ops arbitrary: q accepted popped)
  case Nil
  then show ?case by simp
next
  case (Cons op ops)
  show ?case
  proof (cases op)
    case (Push x)
    obtain ok q1 where push: "push x q = (ok, q1)" by (metis surj_pair)
    obtain acc pops where run: "queue_run push pop ops q1 = (acc, pops, q')"
      and out: "accepted = (if ok then x # acc else acc)" "popped = pops"
      using Cons.prems(2) Push push by (auto split: prod.splits)
    note law = push_law [OF Cons.prems(1) push]
    have "contents q1 @ acc = pops @ contents q' \<and> inv q' \<and> cap q' = cap q1"
      using Cons.IH [OF _ run] law by blast
    then show ?thesis using law out by (auto split: if_splits)
  next
    case Pop
    obtain v q1 where pop: "pop q = (v, q1)" by (metis surj_pair)
    obtain acc pops where run: "queue_run push pop ops q1 = (acc, pops, q')"
      and out: "accepted = acc" "popped = (case v of None \<Rightarrow> pops | Some x \<Rightarrow> x # pops)"
      using Cons.prems(2) Pop pop by (auto split: prod.splits)
    note law = pop_law [OF Cons.prems(1) pop]
    have "contents q1 @ acc = pops @ contents q' \<and> inv q' \<and> cap q' = cap q1"
      using Cons.IH [OF _ run] law by blast
    then show ?thesis using law out by (cases "contents q") auto
  qed
qed

text \<open>Popping until the queue is empty: induction over the contents.\<close>

lemma drain_induct:
  assumes "inv q"
    and "\<And>q q'. inv q \<Longrightarrow> contents q = [] \<Longrightarrow> pop q = (None, q') \<Longrightarrow> inv q' \<Longrightarrow> contents q' = [] \<Longrightarrow> P q"
    and "\<And>q x q'. inv q \<Longrightarrow> pop q = (Some x, q') \<Longrightarrow> contents q = x # contents q' \<Longrightarrow> inv q' \<Longrightarrow> P q' \<Longrightarrow> P q"
  shows "P q"
  using assms(1)
proof (induction "contents q" arbitrary: q)
  case Nil
  obtain v q' where pop: "pop q = (v, q')" by (metis surj_pair)
  from pop_law [OF Nil(2) pop] Nil assms(2) pop show ?case by (metis list.case(1) list.sel(2))
next
  case (Cons x xs)
  obtain v q' where pop: "pop q = (v, q')" by (metis surj_pair)
  note law = pop_law [OF Cons(3) pop]
  have "contents q' = xs" "inv q'" using law Cons(2) [symmetric] by simp_all
  moreover have "v = Some x" using law Cons(2) [symmetric] by simp
  ultimately show ?case using assms(3) [OF Cons(3), of x q'] Cons(1) [of q'] Cons(2) pop by metis
qed

end

interpretation ring: bounded_queue try_push try_pop rb_ok rb_contents rb_capacity
proof
  fix b b' :: "'a HPRingBuffer" and x v ok
  assume ok: "rb_ok b"
  show "rb_ok b' \<and> rb_capacity b' = rb_capacity b \<and> (ok \<longleftrightarrow> length (rb_contents b) < rb_capacity b) \<and>
      rb_contents b' = (if ok then rb_contents b @ [x] else rb_contents b)" if "try_push x b = (ok, b')"
    using try_push_spec [OF ok that] by (simp add: rb_capacity_def)
  show "rb_ok b' \<and> rb_capacity b' = rb_capacity b \<and>
      v = (case rb_contents b of [] \<Rightarrow> None | x # _ \<Rightarrow> Some x) \<and>
      rb_contents b' = tl (rb_contents b)" if "try_pop b = (v, b')"
    using try_pop_spec [OF ok that] by (simp add: rb_capacity_def)
  show "length (rb_contents b) \<le> rb_capacity b"
    using ok by (auto simp: rb_ok_def rb_contents_def rb_capacity_def)
qed

end
