(* ===== verification/RingConcurrent.thy ===== *)
theory RingConcurrent
  imports RingBuffer
begin

text \<open>
  One producer and one consumer on the same ring buffer.  Every atomic load and store of
  \<^verbatim>\<open>try_push\<close>, \<^verbatim>\<open>try_pop\<close>, \<^verbatim>\<open>push\<close> and \<^verbatim>\<open>pop\<close>, and every access to a slot, is a step of its own;
  the threads interleave in any order.  Here the release stores and acquire loads of the two sequences
  are taken as sequentially consistent (\<open>RingWeak\<close> gives them their own orders), the slots as plain
  memory that must not be written and read at the same time.  The ghost fields record what was published and what was returned.
\<close>

section \<open>Threads\<close>

datatype 'a producer =
  PIdle
| PStart 'a \<comment> \<open>called with the item\<close>
| PLoaded 'a "64 word" \<comment> \<open>own sequence loaded\<close>
| PRoom 'a "64 word" \<comment> \<open>the check passed, about to write the slot\<close>
| PWritten 'a "64 word" \<comment> \<open>about to publish\<close>

datatype 'a consumer =
  CIdle
| CStart
| CLoaded "64 word"
| CReady "64 word" \<comment> \<open>not empty, about to read the slot\<close>
| CRead "64 word" 'a \<comment> \<open>about to release the slot\<close>

record 'a spsc =
  sp_buffer :: "'a HPRingBuffer"
  sp_producer :: "'a producer"
  sp_consumer :: "'a consumer"
  sp_pushed :: "'a list"
  sp_popped :: "'a list"

definition spsc_init :: "'a spsc \<Rightarrow> bool" where
  "spsc_init s \<longleftrightarrow> rb_ok (sp_buffer s) \<and> rb_contents (sp_buffer s) = [] \<and> sp_producer s = PIdle \<and>
     sp_consumer s = CIdle \<and> sp_pushed s = [] \<and> sp_popped s = []"

inductive spsc_step :: "'a spsc \<Rightarrow> 'a spsc \<Rightarrow> bool" where
  p_call: "sp_producer s = PIdle \<Longrightarrow> spsc_step s (s\<lparr>sp_producer := PStart item\<rparr>)"
| p_load_own: "sp_producer s = PStart item \<Longrightarrow>
    spsc_step s (s\<lparr>sp_producer := PLoaded item (rb_write_sequence (sp_buffer s))\<rparr>)"
| p_full_fail: "sp_producer s = PLoaded item ws \<Longrightarrow>
    ws - rb_read_sequence (sp_buffer s) \<ge> of_nat (rb_size (sp_buffer s) - 1) \<Longrightarrow>
    spsc_step s (s\<lparr>sp_producer := PIdle\<rparr>)"
| p_full_retry: "sp_producer s = PLoaded item ws \<Longrightarrow>
    ws - rb_read_sequence (sp_buffer s) \<ge> of_nat (rb_size (sp_buffer s) - 1) \<Longrightarrow>
    spsc_step s (s\<lparr>sp_producer := PStart item\<rparr>)"
| p_room: "sp_producer s = PLoaded item ws \<Longrightarrow>
    \<not> ws - rb_read_sequence (sp_buffer s) \<ge> of_nat (rb_size (sp_buffer s) - 1) \<Longrightarrow>
    spsc_step s (s\<lparr>sp_producer := PRoom item ws\<rparr>)"
| p_write: "sp_producer s = PRoom item ws \<Longrightarrow> b = sp_buffer s \<Longrightarrow>
    spsc_step s (s\<lparr>sp_producer := PWritten item ws,
      sp_buffer := b\<lparr>rb_buffer := (rb_buffer b)[rb_slot b ws := item]\<rparr>\<rparr>)"
| p_publish: "sp_producer s = PWritten item ws \<Longrightarrow> b = sp_buffer s \<Longrightarrow>
    spsc_step s (s\<lparr>sp_producer := PIdle, sp_buffer := b\<lparr>rb_write_sequence := ws + 1\<rparr>,
      sp_pushed := sp_pushed s @ [item]\<rparr>)"
| c_call: "sp_consumer s = CIdle \<Longrightarrow> spsc_step s (s\<lparr>sp_consumer := CStart\<rparr>)"
| c_load_own: "sp_consumer s = CStart \<Longrightarrow>
    spsc_step s (s\<lparr>sp_consumer := CLoaded (rb_read_sequence (sp_buffer s))\<rparr>)"
| c_empty_fail: "sp_consumer s = CLoaded rs \<Longrightarrow> rs = rb_write_sequence (sp_buffer s) \<Longrightarrow>
    spsc_step s (s\<lparr>sp_consumer := CIdle\<rparr>)"
| c_empty_retry: "sp_consumer s = CLoaded rs \<Longrightarrow> rs = rb_write_sequence (sp_buffer s) \<Longrightarrow>
    spsc_step s (s\<lparr>sp_consumer := CStart\<rparr>)"
| c_ready: "sp_consumer s = CLoaded rs \<Longrightarrow> rs \<noteq> rb_write_sequence (sp_buffer s) \<Longrightarrow>
    spsc_step s (s\<lparr>sp_consumer := CReady rs\<rparr>)"
| c_read: "sp_consumer s = CReady rs \<Longrightarrow> b = sp_buffer s \<Longrightarrow>
    spsc_step s (s\<lparr>sp_consumer := CRead rs (rb_buffer b ! rb_slot b rs)\<rparr>)"
| c_release: "sp_consumer s = CRead rs v \<Longrightarrow> b = sp_buffer s \<Longrightarrow>
    spsc_step s (s\<lparr>sp_consumer := CIdle, sp_buffer := b\<lparr>rb_read_sequence := rs + 1\<rparr>,
      sp_popped := sp_popped s @ [v]\<rparr>)"

section \<open>The invariant\<close>

definition rb_used :: "'a HPRingBuffer \<Rightarrow> nat" where
  "rb_used b = unat (rb_write_sequence b - rb_read_sequence b)"

fun producer_ok :: "'a HPRingBuffer \<Rightarrow> 'a producer \<Rightarrow> bool" where
  "producer_ok b PIdle = True"
| "producer_ok b (PStart item) = True"
| "producer_ok b (PLoaded item ws) = (ws = rb_write_sequence b)"
| "producer_ok b (PRoom item ws) = (ws = rb_write_sequence b \<and> rb_used b + 1 < rb_size b)"
| "producer_ok b (PWritten item ws) =
     (ws = rb_write_sequence b \<and> rb_used b + 1 < rb_size b \<and> rb_buffer b ! rb_slot b ws = item)"

fun consumer_ok :: "'a HPRingBuffer \<Rightarrow> 'a consumer \<Rightarrow> bool" where
  "consumer_ok b CIdle = True"
| "consumer_ok b CStart = True"
| "consumer_ok b (CLoaded rs) = (rs = rb_read_sequence b)"
| "consumer_ok b (CReady rs) = (rs = rb_read_sequence b \<and> rs \<noteq> rb_write_sequence b)"
| "consumer_ok b (CRead rs v) =
     (rs = rb_read_sequence b \<and> rs \<noteq> rb_write_sequence b \<and> rb_buffer b ! rb_slot b rs = v)"

definition spsc_inv :: "'a spsc \<Rightarrow> bool" where
  "spsc_inv s \<longleftrightarrow> rb_ok (sp_buffer s) \<and> sp_pushed s = sp_popped s @ rb_contents (sp_buffer s) \<and>
     producer_ok (sp_buffer s) (sp_producer s) \<and> consumer_ok (sp_buffer s) (sp_consumer s)"

lemma room_iff:
  assumes "rb_ok b"
  shows "\<not> rb_write_sequence b - rb_read_sequence b \<ge> of_nat (rb_size b - 1) \<longleftrightarrow> rb_used b + 1 < rb_size b"
proof -
  have "rb_used b < rb_size b" "1 < rb_size b"
    using assms size_ok_bounds by (auto simp: rb_ok_def rb_used_def)
  then show ?thesis
    unfolding full_iff [OF assms] by (auto simp: rb_contents_def rb_used_def rb_capacity_def)
qed

lemma release_slot:
  assumes "rb_ok b" and "rb_read_sequence b \<noteq> rb_write_sequence b"
  shows "rb_contents b = rb_buffer b ! rb_slot b (rb_read_sequence b) #
      rb_contents (b\<lparr>rb_read_sequence := rb_read_sequence b + 1\<rparr>)"
    and "rb_ok (b\<lparr>rb_read_sequence := rb_read_sequence b + 1\<rparr>)"
    and "rb_used (b\<lparr>rb_read_sequence := rb_read_sequence b + 1\<rparr>) + 1 = rb_used b"
proof -
  let ?b = "b\<lparr>rb_read_sequence := rb_read_sequence b + 1\<rparr>"
  let ?v = "rb_buffer b ! rb_slot b (rb_read_sequence b)"
  have pop: "try_pop b = (Some ?v, ?b)" using assms(2) by (simp add: try_pop_def Let_def)
  note spec = try_pop_spec [OF assms(1) pop]
  show contents: "rb_contents b = ?v # rb_contents ?b"
    using spec(1,2) by (cases "rb_contents b") auto
  show "rb_ok ?b" by (rule spec(3))
  show "rb_used ?b + 1 = rb_used b"
    using arg_cong [OF contents, where f = length]
    by (simp add: rb_contents_length rb_used_def rb_count_def)
qed

lemma producer_after_release:
  assumes "producer_ok b p" and "rb_used (b\<lparr>rb_read_sequence := r\<rparr>) \<le> rb_used b"
  shows "producer_ok (b\<lparr>rb_read_sequence := r\<rparr>) p"
  using assms by (cases p) auto

lemma consumer_after_publish:
  assumes "rb_ok b" and "consumer_ok b c" and "rb_used b + 1 < rb_size b"
  shows "consumer_ok (b\<lparr>rb_write_sequence := rb_write_sequence b + 1\<rparr>) c"
proof -
  have "rb_contents (b\<lparr>rb_write_sequence := rb_write_sequence b + 1\<rparr>) \<noteq> []"
    using publish_slot(1) [OF assms(1)] assms(3) by (simp add: rb_used_def)
  then have "rb_read_sequence b \<noteq> rb_write_sequence b + 1" by (auto simp: rb_contents_def)
  then show ?thesis using assms(2) by (cases c) auto
qed

lemma spsc_step_inv: "spsc_step s s' \<Longrightarrow> spsc_inv s \<Longrightarrow> spsc_inv s'"
proof (induction rule: spsc_step.induct)
  case (p_room s item ws)
  then show ?case using room_iff [of "sp_buffer s"] by (simp add: spsc_inv_def)
next
  case (p_write s item ws b)
  then have b: "rb_ok b" "ws = rb_write_sequence b" "rb_used b + 1 < rb_size b"
    "consumer_ok b (sp_consumer s)" by (simp_all add: spsc_inv_def)
  note w = write_free_slot [OF b(1), of item]
  have "consumer_ok (b\<lparr>rb_buffer := (rb_buffer b)[rb_slot b ws := item]\<rparr>) (sp_consumer s)"
    using b(2,4) w(3) by (cases "sp_consumer s") auto
  then show ?case using p_write b w(1,2) by (simp add: spsc_inv_def rb_used_def)
next
  case (p_publish s item ws b)
  then have b: "rb_ok b" "ws = rb_write_sequence b" "rb_used b + 1 < rb_size b"
    "rb_buffer b ! rb_slot b ws = item" "consumer_ok b (sp_consumer s)"
    by (auto simp: spsc_inv_def)
  then show ?case
    using p_publish publish_slot [OF b(1)] consumer_after_publish [OF b(1,5,3)]
    by (simp add: spsc_inv_def rb_used_def)
next
  case (c_release s rs v b)
  then have b: "rb_ok b" "rs = rb_read_sequence b" "rs \<noteq> rb_write_sequence b"
    "rb_buffer b ! rb_slot b rs = v" "producer_ok b (sp_producer s)"
    by (auto simp: spsc_inv_def)
  note r = release_slot [OF b(1) b(3) [unfolded b(2)]]
  have "producer_ok (b\<lparr>rb_read_sequence := rs + 1\<rparr>) (sp_producer s)"
    using producer_after_release [OF b(5)] r(3) b(2) by simp
  then show ?case using c_release r(1,2) b(2,4) by (simp add: spsc_inv_def)
qed (auto simp: spsc_inv_def)

interpretation spsc: invariant_system spsc_init spsc_step spsc_inv
proof
  show "spsc_inv s" if "spsc_init s" for s :: "'a spsc"
    using that by (auto simp: spsc_init_def spsc_inv_def)
  show "spsc_inv t" if "spsc_inv s" "spsc_step s t" for s t :: "'a spsc"
    using spsc_step_inv that by blast
qed

abbreviation spsc_reachable :: "'a spsc \<Rightarrow> bool" where
  "spsc_reachable \<equiv> reachable spsc_init spsc_step"

section \<open>Properties\<close>

text \<open>Used by one thread, the ring buffer is a first-in first-out queue of capacity \<open>Size - 1\<close>: after
  any sequence of pushes and pops the accepted items are the popped ones followed by the contents,
  which never exceed the capacity.\<close>

lemma ring_fifo:
  assumes "size_ok n" and "queue_run try_push try_pop ops (HPRingBuffer_init n d) = (accepted, popped, q)"
  shows "accepted = popped @ rb_contents q \<and> length (rb_contents q) \<le> n - 1"
proof -
  have init: "rb_ok (HPRingBuffer_init n d)" "rb_contents (HPRingBuffer_init n d) = []"
    using init_ok [OF assms(1), of d] by simp_all
  from ring.run_fifo [OF init(1) assms(2)] init(2) ring.cap_law [of q] show ?thesis
    by (simp add: rb_capacity_def HPRingBuffer_init_def)
qed

lemma size_ok_4 [simp]: "size_ok 4"
  unfolding size_ok_def by (intro exI [of _ 2]) simp

lemma ring_fifo_witness:
  "let (accepted, popped, q) = queue_run try_push try_pop
         [Push 1, Push 2, Pop, Push 3, Push 4, Push 5] (HPRingBuffer_init 4 (0::nat))
   in accepted = popped @ rb_contents q \<and> popped = [1] \<and> rb_contents q = [2, 3, 4]"
proof -
  have run: "queue_run try_push try_pop [Push 1, Push 2, Pop, Push 3, Push 4, Push 5]
      (HPRingBuffer_init 4 (0::nat)) =
    ([1, 2, 3, 4], [1], \<lparr>rb_size = 4, rb_write_sequence = 4, rb_read_sequence = 1, rb_buffer = [1, 2, 3, 4]\<rparr>)"
    by code_simp
  moreover have "rb_contents \<lparr>rb_size = 4, rb_write_sequence = 4, rb_read_sequence = 1,
      rb_buffer = [1, 2, 3, 4 :: nat]\<rparr> = [2, 3, 4]" by code_simp
  ultimately show ?thesis using ring_fifo [OF size_ok_4 run] by simp
qed

text \<open>Push, pop and the queries are exact in every well-formed state, wherever the 64-bit sequences
  stand, before or after they wrap around: a push is accepted exactly below capacity, a pop returns
  the oldest item, and \<open>empty\<close>, \<open>full\<close> and \<open>size\<close> tell the number of items.\<close>

lemma ring_operations_exact:
  assumes "rb_ok b"
  shows "rb_ok (snd (try_push x b)) \<and> rb_ok (snd (try_pop b)) \<and>
    (fst (try_push x b) \<longleftrightarrow> length (rb_contents b) < rb_capacity b) \<and>
    rb_contents (snd (try_push x b)) =
      (if length (rb_contents b) < rb_capacity b then rb_contents b @ [x] else rb_contents b) \<and>
    fst (try_pop b) = (case rb_contents b of [] \<Rightarrow> None | y # _ \<Rightarrow> Some y) \<and>
    rb_contents (snd (try_pop b)) = tl (rb_contents b) \<and>
    (rb_empty b \<longleftrightarrow> rb_contents b = []) \<and> (rb_full b \<longleftrightarrow> length (rb_contents b) = rb_capacity b) \<and>
    unat (rb_count b) = length (rb_contents b)"
proof -
  note push = try_push_spec [OF assms prod.collapse [symmetric]]
  note pop = try_pop_spec [OF assms prod.collapse [symmetric]]
  have "rb_empty b \<longleftrightarrow> rb_contents b = []"
    by (auto simp: rb_empty_def rb_contents_def unat_eq_0)
  then show ?thesis
    using push [of x] pop full_iff [OF assms] by (simp add: rb_full_def rb_contents_length)
qed

lemma ring_operations_exact_witness:
  "let b = \<lparr>rb_size = 4, rb_write_sequence = 0, rb_read_sequence = - 2, rb_buffer = [7, 8, 5, 6 :: nat]\<rparr>
   in unat (rb_count b) = 2 \<and> rb_contents (snd (try_push 9 b)) = [5, 6, 9] \<and> fst (try_pop b) = Some 5"
proof -
  let ?b = "\<lparr>rb_size = 4, rb_write_sequence = 0, rb_read_sequence = - 2, rb_buffer = [7, 8, 5, 6 :: nat]\<rparr>"
  have c: "rb_contents ?b = [5, 6]" "rb_capacity ?b = 3" by code_simp+
  have "rb_ok ?b" by (simp add: rb_ok_def)
  from ring_operations_exact [OF this, of 9] c show ?thesis by (simp add: Let_def)
qed

text \<open>With one producer and one consumer running concurrently, in every reachable state what the
  consumer has received is a prefix of what the producer has published, in order, nothing lost and
  nothing twice, and the difference is what the buffer holds.\<close>

lemma spsc_fifo:
  assumes "spsc_reachable s"
  shows "sp_pushed s = sp_popped s @ rb_contents (sp_buffer s)"
  using spsc.reachable_inv [OF assms] by (simp add: spsc_inv_def)

definition demo_spsc :: "nat spsc" where
  "demo_spsc = \<lparr>sp_buffer = HPRingBuffer_init 4 0, sp_producer = PIdle, sp_consumer = CIdle,
     sp_pushed = [], sp_popped = []\<rparr>"

lemma demo_spsc_reachable: "spsc_reachable demo_spsc"
  using init_ok [OF size_ok_4, of 0]
  by (intro reachable_init) (simp add: spsc_init_def demo_spsc_def)

lemma demo_spsc_room:
  "spsc_reachable (demo_spsc\<lparr>sp_producer := PRoom 9 0\<rparr>)"
proof -
  have "spsc_step demo_spsc (demo_spsc\<lparr>sp_producer := PStart 9\<rparr>)"
    by (rule p_call) (simp add: demo_spsc_def)
  moreover have "spsc_step (demo_spsc\<lparr>sp_producer := PStart 9\<rparr>) (demo_spsc\<lparr>sp_producer := PLoaded 9 0\<rparr>)"
    using p_load_own [of "demo_spsc\<lparr>sp_producer := PStart 9\<rparr>" 9] by (simp add: demo_spsc_def HPRingBuffer_init_def)
  moreover have "spsc_step (demo_spsc\<lparr>sp_producer := PLoaded 9 0\<rparr>) (demo_spsc\<lparr>sp_producer := PRoom 9 0\<rparr>)"
    using p_room [of "demo_spsc\<lparr>sp_producer := PLoaded 9 0\<rparr>" 9 0] by (simp add: demo_spsc_def HPRingBuffer_init_def)
  ultimately show ?thesis using demo_spsc_reachable by (blast intro: reachable_step)
qed

lemma demo_spsc_published:
  "spsc_reachable (demo_spsc\<lparr>sp_buffer := \<lparr>rb_size = 4, rb_write_sequence = 1, rb_read_sequence = 0,
     rb_buffer = [9, 0, 0, 0]\<rparr>, sp_pushed := [9]\<rparr>)"
proof -
  let ?s1 = "demo_spsc\<lparr>sp_producer := PRoom 9 0\<rparr>"
  let ?s2 = "demo_spsc\<lparr>sp_producer := PWritten 9 0, sp_buffer := \<lparr>rb_size = 4, rb_write_sequence = 0,
     rb_read_sequence = 0, rb_buffer = [9, 0, 0, 0]\<rparr>\<rparr>"
  have "rb_slot (HPRingBuffer_init 4 (0 :: nat)) 0 = 0" by code_simp
  then have "spsc_step ?s1 ?s2"
    using p_write [of ?s1 9 0 "sp_buffer ?s1"]
    by (simp add: demo_spsc_def HPRingBuffer_init_def numeral_eq_Suc)
  moreover have "spsc_step ?s2 (demo_spsc\<lparr>sp_buffer := \<lparr>rb_size = 4, rb_write_sequence = 1,
      rb_read_sequence = 0, rb_buffer = [9, 0, 0, 0]\<rparr>, sp_pushed := [9]\<rparr>)"
    using p_publish [of ?s2 9 0 "sp_buffer ?s2"] by (simp add: demo_spsc_def)
  ultimately show ?thesis using demo_spsc_room by (blast intro: reachable_step)
qed

lemma spsc_fifo_witness:
  "rb_contents \<lparr>rb_size = 4, rb_write_sequence = 1, rb_read_sequence = 0, rb_buffer = [9, 0, 0, 0 :: nat]\<rparr> = [9]"
  using spsc_fifo [OF demo_spsc_published] by (simp add: demo_spsc_def)

text \<open>The slot accesses of the two threads never collide: whenever the producer is about to write
  a slot and the consumer about to read one, the slots are different, and the producer never
  overtakes the slot the consumer still holds.\<close>

lemma spsc_no_race:
  assumes "spsc_reachable s" and "sp_producer s = PRoom item ws"
    and "sp_consumer s = CReady rs \<or> sp_consumer s = CRead rs v"
  shows "rb_slot (sp_buffer s) ws \<noteq> rb_slot (sp_buffer s) rs"
proof -
  let ?b = "sp_buffer s"
  have inv: "rb_ok ?b" "ws = rb_write_sequence ?b" "rs = rb_read_sequence ?b" "rs \<noteq> ws"
    using spsc.reachable_inv [OF assms(1)] assms(2,3) by (auto simp: spsc_inv_def)
  have "0 < rb_used ?b" using inv(2-4) by (simp add: rb_used_def unat_gt_0)
  moreover have "rb_used ?b < rb_size ?b" "size_ok (rb_size ?b)"
    using inv(1) by (auto simp: rb_ok_def rb_used_def)
  ultimately have "rb_slot ?b (rs + of_nat 0) \<noteq> rb_slot ?b (rs + of_nat (rb_used ?b))"
    by (intro slots_apart) auto
  moreover have "rs + of_nat (rb_used ?b) = ws" using inv(2,3) by (simp add: rb_used_def)
  ultimately show ?thesis by simp
qed


definition demo_both :: "nat spsc" where
  "demo_both = demo_spsc\<lparr>sp_buffer := \<lparr>rb_size = 4, rb_write_sequence = 1, rb_read_sequence = 0,
     rb_buffer = [9, 0, 0, 0]\<rparr>, sp_pushed := [9]\<rparr>"

lemma demo_both_reachable:
  "spsc_reachable (demo_both\<lparr>sp_producer := PRoom 5 1, sp_consumer := CReady 0\<rparr>)"
proof -
  let ?p1 = "demo_both\<lparr>sp_producer := PStart 5\<rparr>" and ?p2 = "demo_both\<lparr>sp_producer := PLoaded 5 1\<rparr>"
  let ?p3 = "demo_both\<lparr>sp_producer := PRoom 5 1\<rparr>"
  note go = reachable_step [of spsc_init spsc_step]
  have s0: "spsc_reachable demo_both" using demo_spsc_published by (simp add: demo_both_def)
  have s1: "spsc_step demo_both ?p1" by (rule p_call) (simp add: demo_both_def demo_spsc_def)
  have s2: "spsc_step ?p1 ?p2"
    using p_load_own [of ?p1 5] by (simp add: demo_both_def)
  have s3: "spsc_step ?p2 ?p3"
    using p_room [of ?p2 5 1] by (simp add: demo_both_def word_le_nat_alt)
  have s4: "spsc_step ?p3 (?p3\<lparr>sp_consumer := CStart\<rparr>)"
    by (rule c_call) (simp add: demo_both_def demo_spsc_def)
  have s5: "spsc_step (?p3\<lparr>sp_consumer := CStart\<rparr>) (?p3\<lparr>sp_consumer := CLoaded 0\<rparr>)"
    using c_load_own [of "?p3\<lparr>sp_consumer := CStart\<rparr>"] by (simp add: demo_both_def)
  have s6: "spsc_step (?p3\<lparr>sp_consumer := CLoaded 0\<rparr>) (?p3\<lparr>sp_consumer := CReady 0\<rparr>)"
    using c_ready [of "?p3\<lparr>sp_consumer := CLoaded 0\<rparr>" 0] by (simp add: demo_both_def)
  show ?thesis
    using go [OF go [OF go [OF go [OF go [OF go [OF s0 s1] s2] s3] s4] s5] s6] by simp
qed

lemma spsc_no_race_witness: "rb_slot (sp_buffer demo_both) 1 \<noteq> rb_slot (sp_buffer demo_both) 0"
  using spsc_no_race [OF demo_both_reachable, of 5 1 0] by simp

end
