(* ===== verification/RingWeak.thy ===== *)
theory RingWeak
  imports RingConcurrent
begin

text \<open>
  The ring buffer of \<^verbatim>\<open>src/HPRingBuffer.hpp\<close> under the release and acquire orders the code
  names, not under sequential consistency.  Every sequence has the history of its stores; a load may
  return any store of the history that is not older than what its thread has seen.  A store carries
  a view: what had happened in the storing thread.  A release store carries the whole view of its
  thread, an acquire load takes the view of the store it reads over, a relaxed load or store passes
  nothing on.  The slots are plain memory: an access to a slot that is not ordered after the last
  conflicting access is a data race, which the flag \<open>rm_race\<close> records.  The ghost lists record what
  was published and what was returned.
\<close>

section \<open>Views\<close>

datatype memory_order = Relaxed | Acquire | Release

text \<open>What a thread has seen: the stores of the two sequences by their positions in the histories, the
  number of writes to every slot, and the number of slot reads of the consumer.\<close>

record weak_view =
  vw_write :: nat
  vw_read :: nat
  vw_slots :: "nat \<Rightarrow> nat"
  vw_reads :: nat

definition view_none :: weak_view where
  "view_none = \<lparr>vw_write = 0, vw_read = 0, vw_slots = (\<lambda>_. 0), vw_reads = 0\<rparr>"

definition view_join :: "weak_view \<Rightarrow> weak_view \<Rightarrow> weak_view" where
  "view_join u v = \<lparr>vw_write = max (vw_write u) (vw_write v), vw_read = max (vw_read u) (vw_read v),
     vw_slots = (\<lambda>s. max (vw_slots u s) (vw_slots v s)), vw_reads = max (vw_reads u) (vw_reads v)\<rparr>"

definition load_view :: "memory_order \<Rightarrow> weak_view \<Rightarrow> weak_view \<Rightarrow> weak_view" where
  "load_view order own message = (if order = Acquire then view_join own message else own)"

definition store_view :: "memory_order \<Rightarrow> weak_view \<Rightarrow> weak_view" where
  "store_view order own = (if order = Release then own else view_none)"

section \<open>The two threads\<close>

record 'a rmem =
  rm_size :: nat
  rm_write_hist :: "(64 word \<times> weak_view) list"
  rm_read_hist :: "(64 word \<times> weak_view) list"
  rm_slots :: "nat \<Rightarrow> 'a list" \<comment> \<open>the values written to each slot\<close>
  rm_slot_reads :: "nat \<Rightarrow> nat" \<comment> \<open>the number of the last read of each slot\<close>
  rm_producer :: "'a producer"
  rm_pview :: weak_view
  rm_consumer :: "'a consumer"
  rm_cview :: weak_view
  rm_race :: bool
  rm_pushed :: "'a list"
  rm_popped :: "'a list"

definition view_start :: weak_view where
  "view_start = \<lparr>vw_write = 0, vw_read = 0, vw_slots = (\<lambda>_. 1), vw_reads = 0\<rparr>"

definition rm_start :: "nat \<Rightarrow> 'a \<Rightarrow> 'a rmem" where
  "rm_start n d = \<lparr>rm_size = n, rm_write_hist = [(0, view_start)], rm_read_hist = [(0, view_start)],
     rm_slots = (\<lambda>_. [d]), rm_slot_reads = (\<lambda>_. 0), rm_producer = PIdle, rm_pview = view_start,
     rm_consumer = CIdle, rm_cview = view_start, rm_race = False, rm_pushed = [], rm_popped = []\<rparr>"

definition rm_init :: "'a rmem \<Rightarrow> bool" where
  "rm_init m \<longleftrightarrow> (\<exists>n d. size_ok n \<and> m = rm_start n d)"

definition rm_slot :: "'a rmem \<Rightarrow> 64 word \<Rightarrow> nat" where
  "rm_slot m s = unat (and s (of_nat (rm_size m - 1)))"

text \<open>The stores a load may return: those of the history from the newest one its thread has seen.\<close>

definition may_load :: "nat \<Rightarrow> (64 word \<times> weak_view) list \<Rightarrow> nat \<Rightarrow> 64 word \<Rightarrow> weak_view \<Rightarrow> bool" where
  "may_load seen hist i x message \<longleftrightarrow> seen \<le> i \<and> i < length hist \<and> hist ! i = (x, message)"

definition saw_read :: "memory_order \<Rightarrow> 'a rmem \<Rightarrow> nat \<Rightarrow> weak_view \<Rightarrow> weak_view" where
  "saw_read order m i message = (load_view order (rm_pview m) message)\<lparr>vw_read := i\<rparr>"

definition saw_write :: "memory_order \<Rightarrow> 'a rmem \<Rightarrow> nat \<Rightarrow> weak_view \<Rightarrow> weak_view" where
  "saw_write order m i message = (load_view order (rm_cview m) message)\<lparr>vw_write := i\<rparr>"

text \<open>The slot accesses.  A write conflicts with all earlier reads and writes of the slot, a read (which
  moves the item out) with all earlier writes.\<close>

definition write_slot :: "'a rmem \<Rightarrow> nat \<Rightarrow> 'a \<Rightarrow> 'a rmem" where
  "write_slot m s item =
     m\<lparr>rm_slots := (rm_slots m)(s := rm_slots m s @ [item]),
       rm_pview := (rm_pview m)\<lparr>vw_slots := (vw_slots (rm_pview m))(s := Suc (length (rm_slots m s)))\<rparr>,
       rm_race := (rm_race m \<or> vw_slots (rm_pview m) s \<noteq> length (rm_slots m s) \<or>
         vw_reads (rm_pview m) < rm_slot_reads m s)\<rparr>"

definition read_slot :: "'a rmem \<Rightarrow> nat \<Rightarrow> 'a rmem" where
  "read_slot m s =
     m\<lparr>rm_slot_reads := (rm_slot_reads m)(s := Suc (vw_reads (rm_cview m))),
       rm_cview := (rm_cview m)\<lparr>vw_reads := Suc (vw_reads (rm_cview m))\<rparr>,
       rm_race := (rm_race m \<or> vw_slots (rm_cview m) s \<noteq> length (rm_slots m s))\<rparr>"

definition slot_value :: "'a rmem \<Rightarrow> nat \<Rightarrow> 'a" where
  "slot_value m s = rm_slots m s ! (vw_slots (rm_cview m) s - 1)"

text \<open>\<open>ld\<close> is the order of the loads of the other thread's sequence, \<open>st\<close> that of the stores of the own
  one; the loads of the own sequence are relaxed.\<close>

inductive rm_step :: "memory_order \<Rightarrow> memory_order \<Rightarrow> 'a rmem \<Rightarrow> 'a rmem \<Rightarrow> bool" for ld st where
  w_call: "rm_producer m = PIdle \<Longrightarrow> rm_step ld st m (m\<lparr>rm_producer := PStart item\<rparr>)"
| w_load_own: "rm_producer m = PStart item \<Longrightarrow>
    may_load (vw_write (rm_pview m)) (rm_write_hist m) i ws message \<Longrightarrow>
    rm_step ld st m (m\<lparr>rm_producer := PLoaded item ws\<rparr>)"
| w_full: "rm_producer m = PLoaded item ws \<Longrightarrow>
    may_load (vw_read (rm_pview m)) (rm_read_hist m) i rs message \<Longrightarrow>
    ws - rs \<ge> of_nat (rm_size m - 1) \<Longrightarrow> p = PIdle \<or> p = PStart item \<Longrightarrow>
    rm_step ld st m (m\<lparr>rm_producer := p, rm_pview := saw_read ld m i message\<rparr>)"
| w_room: "rm_producer m = PLoaded item ws \<Longrightarrow>
    may_load (vw_read (rm_pview m)) (rm_read_hist m) i rs message \<Longrightarrow>
    \<not> ws - rs \<ge> of_nat (rm_size m - 1) \<Longrightarrow>
    rm_step ld st m (m\<lparr>rm_producer := PRoom item ws, rm_pview := saw_read ld m i message\<rparr>)"
| w_write: "rm_producer m = PRoom item ws \<Longrightarrow>
    rm_step ld st m (write_slot (m\<lparr>rm_producer := PWritten item ws\<rparr>) (rm_slot m ws) item)"
| w_publish: "rm_producer m = PWritten item ws \<Longrightarrow>
    v = (rm_pview m)\<lparr>vw_write := length (rm_write_hist m)\<rparr> \<Longrightarrow>
    rm_step ld st m (m\<lparr>rm_producer := PIdle, rm_pview := v,
      rm_write_hist := rm_write_hist m @ [(ws + 1, store_view st v)], rm_pushed := rm_pushed m @ [item]\<rparr>)"
| r_call: "rm_consumer m = CIdle \<Longrightarrow> rm_step ld st m (m\<lparr>rm_consumer := CStart\<rparr>)"
| r_load_own: "rm_consumer m = CStart \<Longrightarrow>
    may_load (vw_read (rm_cview m)) (rm_read_hist m) i rs message \<Longrightarrow>
    rm_step ld st m (m\<lparr>rm_consumer := CLoaded rs\<rparr>)"
| r_empty: "rm_consumer m = CLoaded rs \<Longrightarrow>
    may_load (vw_write (rm_cview m)) (rm_write_hist m) i ws message \<Longrightarrow>
    rs = ws \<Longrightarrow> c = CIdle \<or> c = CStart \<Longrightarrow>
    rm_step ld st m (m\<lparr>rm_consumer := c, rm_cview := saw_write ld m i message\<rparr>)"
| r_ready: "rm_consumer m = CLoaded rs \<Longrightarrow>
    may_load (vw_write (rm_cview m)) (rm_write_hist m) i ws message \<Longrightarrow>
    rs \<noteq> ws \<Longrightarrow>
    rm_step ld st m (m\<lparr>rm_consumer := CReady rs, rm_cview := saw_write ld m i message\<rparr>)"
| r_read: "rm_consumer m = CReady rs \<Longrightarrow>
    rm_step ld st m (read_slot (m\<lparr>rm_consumer := CRead rs (slot_value m (rm_slot m rs))\<rparr>) (rm_slot m rs))"
| r_release: "rm_consumer m = CRead rs x \<Longrightarrow>
    v = (rm_cview m)\<lparr>vw_read := length (rm_read_hist m)\<rparr> \<Longrightarrow>
    rm_step ld st m (m\<lparr>rm_consumer := CIdle, rm_cview := v,
      rm_read_hist := rm_read_hist m @ [(rs + 1, store_view st v)], rm_popped := rm_popped m @ [x]\<rparr>)"

section \<open>Positions of a slot\<close>

text \<open>How often a slot was written by the first \<open>k\<close> items, and with which items.\<close>

definition written :: "nat \<Rightarrow> nat \<Rightarrow> nat \<Rightarrow> nat" where
  "written n k s = length (filter (\<lambda>i. i mod n = s) [0..<k])"

definition slot_history :: "nat \<Rightarrow> 'a list \<Rightarrow> nat \<Rightarrow> 'a list" where
  "slot_history n xs s = map ((!) xs) (filter (\<lambda>i. i mod n = s) [0..<length xs])"

lemma written_0 [simp]: "written n 0 s = 0"
  by (simp add: written_def)

lemma written_Suc: "written n (Suc k) s = (if k mod n = s then Suc (written n k s) else written n k s)"
  by (simp add: written_def)

lemma written_mono: "j \<le> k \<Longrightarrow> written n j s \<le> written n k s"
  by (induction rule: dec_induct) (auto simp: written_Suc)

lemma written_max: "written n (max j k) s = max (written n j s) (written n k s)"
  using written_mono [of j k n s] written_mono [of k j n s] by (cases "j \<le> k") (auto simp: max_def)

lemma slot_history_length [simp]: "length (slot_history n xs s) = written n (length xs) s"
  by (simp add: slot_history_def written_def)

lemma slot_history_snoc:
  "slot_history n (xs @ [x]) s = slot_history n xs s @ (if length xs mod n = s then [x] else [])"
  by (auto simp: slot_history_def nth_append)

lemma written_same:
  assumes "i < j" and "j \<le> k" and "k \<le> i + n"
  shows "written n k (i mod n) = written n j (i mod n)"
  using assms(2,3)
proof (induction rule: dec_induct)
  case (step l)
  have "l mod n \<noteq> i mod n"
  proof
    assume "l mod n = i mod n"
    then have "n dvd l - i" using step.hyps assms(1) by (metis less_imp_le mod_eq_dvd_iff_nat order_trans)
    then show False using step assms(1) by (auto dest: dvd_imp_le)
  qed
  then show ?case using step by (simp add: written_Suc)
qed simp

lemma slot_history_nth:
  assumes "k < length xs"
  shows "slot_history n xs (k mod n) ! written n k (k mod n) = xs ! k"
proof -
  have "[0..<length xs] = [0..<k] @ [k..<length xs]"
    using upt_add_eq_append [of 0 k "length xs - k"] assms by simp
  also have "[k..<length xs] = k # [Suc k..<length xs]" using assms by (rule upt_conv_Cons)
  finally have "[0..<length xs] = [0..<k] @ k # [Suc k..<length xs]" .
  then show ?thesis by (simp add: slot_history_def written_def nth_append)
qed

text \<open>A view of this protocol is told by the two positions.\<close>

definition view_at :: "nat \<Rightarrow> nat \<Rightarrow> nat \<Rightarrow> weak_view" where
  "view_at n w r = \<lparr>vw_write = w, vw_read = r, vw_slots = (\<lambda>s. Suc (written n w s)), vw_reads = r\<rparr>"

lemma view_at_simps [simp]:
  "vw_write (view_at n w r) = w" "vw_read (view_at n w r) = r"
  "vw_slots (view_at n w r) s = Suc (written n w s)" "vw_reads (view_at n w r) = r"
  by (simp_all add: view_at_def)

lemma view_at_reads: "(view_at n w r)\<lparr>vw_reads := Suc r\<rparr> = (view_at n w (Suc r))\<lparr>vw_read := r\<rparr>"
  by (simp add: view_at_def)

lemma view_at_write:
  "(view_at n w r)\<lparr>vw_slots := (vw_slots (view_at n w r))(w mod n := Suc (Suc (written n w (w mod n))))\<rparr>
    = (view_at n (Suc w) r)\<lparr>vw_write := w\<rparr>"
  by (auto simp: view_at_def written_Suc)

lemma view_join_at [simp]:
  "view_join (view_at n w r) (view_at n w' r') = view_at n (max w w') (max r r')"
  by (simp add: view_join_def view_at_def written_max)

lemma view_at_update [simp]:
  "(view_at n w r)\<lparr>vw_read := r\<rparr> = view_at n w r" "(view_at n w r)\<lparr>vw_write := w\<rparr> = view_at n w r"
  by (simp_all add: view_at_def)

lemma load_acquire [simp]: "load_view Acquire = view_join"
  by (simp add: load_view_def fun_eq_iff)

lemma store_release [simp]: "store_view Release v = v"
  by (simp add: store_view_def)

section \<open>The invariant\<close>

definition write_hist_ok :: "nat \<Rightarrow> nat \<Rightarrow> nat \<Rightarrow> (64 word \<times> weak_view) list \<Rightarrow> bool" where
  "write_hist_ok n W R hist \<longleftrightarrow> length hist = Suc W \<and>
     (\<forall>k \<le> W. \<exists>r \<le> R. hist ! k = (of_nat k, view_at n k r))"

definition read_hist_ok :: "nat \<Rightarrow> nat \<Rightarrow> nat \<Rightarrow> (64 word \<times> weak_view) list \<Rightarrow> bool" where
  "read_hist_ok n W R hist \<longleftrightarrow> length hist = Suc R \<and>
     (\<forall>j \<le> R. \<exists>w \<le> W. hist ! j = (of_nat j, view_at n w j))"

fun producer_at :: "nat \<Rightarrow> nat \<Rightarrow> nat \<Rightarrow> weak_view \<Rightarrow> 'a producer \<Rightarrow> bool" where
  "producer_at n W r v PIdle = (v = view_at n W r)"
| "producer_at n W r v (PStart item) = (v = view_at n W r)"
| "producer_at n W r v (PLoaded item ws) = (v = view_at n W r \<and> ws = of_nat W)"
| "producer_at n W r v (PRoom item ws) = (v = view_at n W r \<and> ws = of_nat W \<and> W + 2 \<le> r + n)"
| "producer_at n W r v (PWritten item ws) =
     (v = (view_at n (Suc W) r)\<lparr>vw_write := W\<rparr> \<and> ws = of_nat W \<and> W + 2 \<le> r + n)"

fun consumer_at :: "nat \<Rightarrow> 'a list \<Rightarrow> nat \<Rightarrow> nat \<Rightarrow> weak_view \<Rightarrow> 'a consumer \<Rightarrow> bool" where
  "consumer_at n xs w R v CIdle = (v = view_at n w R)"
| "consumer_at n xs w R v CStart = (v = view_at n w R)"
| "consumer_at n xs w R v (CLoaded rs) = (v = view_at n w R \<and> rs = of_nat R)"
| "consumer_at n xs w R v (CReady rs) = (v = view_at n w R \<and> rs = of_nat R \<and> R < w)"
| "consumer_at n xs w R v (CRead rs x) =
     (v = (view_at n w (Suc R))\<lparr>vw_read := R\<rparr> \<and> rs = of_nat R \<and> R < w \<and> x = xs ! R)"

fun in_slot :: "'a producer \<Rightarrow> 'a list" where
  "in_slot (PWritten item ws) = [item]"
| "in_slot _ = []"

definition reads_ok :: "nat \<Rightarrow> nat \<Rightarrow> (nat \<Rightarrow> nat) \<Rightarrow> bool" where
  "reads_ok n k reads \<longleftrightarrow> (\<forall>s. reads s = 0 \<or> (\<exists>i < k. i mod n = s \<and> reads s = Suc i))"

definition rm_ok :: "'a rmem \<Rightarrow> nat \<Rightarrow> nat \<Rightarrow> 'a \<Rightarrow> bool" where
  "rm_ok m w r d \<longleftrightarrow> (let n = rm_size m; W = length (rm_pushed m); R = length (rm_popped m) in
     size_ok n \<and> \<not> rm_race m \<and> r \<le> R \<and> R \<le> w \<and> w \<le> W \<and> W < r + n \<and>
     write_hist_ok n W R (rm_write_hist m) \<and> read_hist_ok n W R (rm_read_hist m) \<and>
     producer_at n W r (rm_pview m) (rm_producer m) \<and>
     consumer_at n (rm_pushed m) w R (rm_cview m) (rm_consumer m) \<and>
     rm_slots m = (\<lambda>s. d # slot_history n (rm_pushed m @ in_slot (rm_producer m)) s) \<and>
     reads_ok n (vw_reads (rm_cview m)) (rm_slot_reads m) \<and>
     rm_popped m = take R (rm_pushed m))"

definition rm_inv :: "'a rmem \<Rightarrow> bool" where
  "rm_inv m \<longleftrightarrow> (\<exists>w r d. rm_ok m w r d)"

lemma rm_slot_mod: "size_ok (rm_size m) \<Longrightarrow> rm_slot m s = unat s mod rm_size m"
  using slot_mod [of "HPRingBuffer_init (rm_size m) undefined" s]
  by (simp add: rm_slot_def rb_slot_def rb_mask_def HPRingBuffer_init_def)

lemma mod_size_word:
  assumes "size_ok n"
  shows "unat (of_nat k :: 64 word) mod n = k mod n"
proof -
  obtain e where e: "e < 64" "n = 2 ^ e" using assms by (auto elim: size_okE)
  have "n dvd 2 ^ 64" unfolding e(2) using e(1) by (intro le_imp_power_dvd) simp
  then have "k mod 2 ^ 64 mod n = k mod n" by (rule mod_mod_cancel)
  then show ?thesis by (simp add: unat_of_nat)
qed

lemma word_difference:
  assumes "j \<le> k" and "k - j < 2 ^ 64"
  shows "unat (of_nat k - of_nat j :: 64 word) = k - j"
proof -
  have "of_nat k - of_nat j = (of_nat (k - j) :: 64 word)" using assms(1) by simp
  then show ?thesis using assms(2) by (simp only: unat_of_nat) simp
qed

lemma full_at:
  assumes "size_ok n" and "j \<le> k" and "k < j + n"
  shows "of_nat k - of_nat j \<ge> (of_nat (n - 1) :: 64 word) \<longleftrightarrow> k + 1 = j + n"
proof -
  have n: "1 < n" "n < 2 ^ 64" using size_ok_bounds [OF assms(1)] by simp_all
  have "unat (of_nat k - of_nat j :: 64 word) = k - j" using assms n by (intro word_difference) simp_all
  moreover have "unat (of_nat (n - 1) :: 64 word) = n - 1" using n by (subst unat_of_nat) simp
  ultimately have "of_nat k - of_nat j \<ge> (of_nat (n - 1) :: 64 word) \<longleftrightarrow> n - 1 \<le> k - j"
    by (simp only: word_le_nat_alt)
  also have "\<dots> \<longleftrightarrow> k + 1 = j + n" using assms n by auto
  finally show ?thesis .
qed

lemma equal_at:
  assumes "size_ok n" and "j \<le> k" and "k < j + n"
  shows "(of_nat j :: 64 word) = of_nat k \<longleftrightarrow> j = k"
proof
  assume "(of_nat j :: 64 word) = of_nat k"
  moreover have "k - j < 2 ^ 64" using assms(3) size_ok_bounds [OF assms(1)] by linarith
  then have "unat (of_nat k - of_nat j :: 64 word) = k - j" by (intro word_difference assms(2))
  ultimately show "j = k" using assms(2) by simp
qed simp


section \<open>Every step keeps the invariant\<close>

lemma write_hist_load:
  assumes "write_hist_ok n W R hist" and "may_load w hist i x message"
  obtains r where "w \<le> i" "i \<le> W" "x = of_nat i" "r \<le> R" "message = view_at n i r"
proof -
  have i: "w \<le> i" "i \<le> W" "hist ! i = (x, message)"
    using assms by (auto simp: write_hist_ok_def may_load_def)
  then obtain r where "r \<le> R" "hist ! i = (of_nat i, view_at n i r)"
    using assms(1) by (auto simp: write_hist_ok_def)
  then show thesis using that i by simp
qed

lemma read_hist_load:
  assumes "read_hist_ok n W R hist" and "may_load r hist j x message"
  obtains w where "r \<le> j" "j \<le> R" "x = of_nat j" "w \<le> W" "message = view_at n w j"
proof -
  have j: "r \<le> j" "j \<le> R" "hist ! j = (x, message)"
    using assms by (auto simp: read_hist_ok_def may_load_def)
  then obtain w where "w \<le> W" "hist ! j = (of_nat j, view_at n w j)"
    using assms(1) by (auto simp: read_hist_ok_def)
  then show thesis using that j by simp
qed

lemma write_hist_more: "write_hist_ok n W R hist \<Longrightarrow> write_hist_ok n W (Suc R) hist"
  unfolding write_hist_ok_def by (meson le_SucI)

lemma read_hist_more: "read_hist_ok n W R hist \<Longrightarrow> read_hist_ok n (Suc W) R hist"
  unfolding read_hist_ok_def by (meson le_SucI)

lemma write_hist_publish:
  assumes "write_hist_ok n W R hist" and "r \<le> R"
  shows "write_hist_ok n (Suc W) R (hist @ [(of_nat W + 1, view_at n (Suc W) r)])"
  using assms by (auto simp: write_hist_ok_def nth_append le_Suc_eq)

lemma read_hist_release:
  assumes "read_hist_ok n W R hist" and "w \<le> W"
  shows "read_hist_ok n W (Suc R) (hist @ [(of_nat R + 1, view_at n w (Suc R))])"
  using assms by (auto simp: read_hist_ok_def nth_append le_Suc_eq)

lemma consumer_at_publish:
  "consumer_at n xs w R v c \<Longrightarrow> w \<le> length xs \<Longrightarrow> consumer_at n (xs @ [x]) w R v c"
  by (cases c) (auto simp: nth_append)

lemma consumer_reads:
  "consumer_at n xs w R v c \<Longrightarrow> vw_reads v \<le> w \<or> vw_reads v = R"
  by (cases c) auto

text \<open>The consumer's reads of the slot that is to be overwritten are all known to the producer.\<close>

lemma overwritten_reads:
  assumes "reads_ok n k reads" and "k \<le> W" and "W + 2 \<le> r + n"
  shows "reads (W mod n) \<le> r"
proof -
  have "i < r" if "i < k" "i mod n = W mod n" for i
  proof -
    have "n dvd W - i" using that assms(2) by (metis less_imp_le mod_eq_dvd_iff_nat order_less_le_trans)
    moreover have "0 < W - i" using that assms(2) by simp
    ultimately have "n \<le> W - i" by (rule dvd_imp_le)
    then show ?thesis using assms(3) \<open>0 < W - i\<close> by simp
  qed
  then show ?thesis using assms(1) unfolding reads_ok_def by (metis Suc_leI le0)
qed

lemma write_slot_ok:
  assumes "rm_ok m w r d" and "rm_producer m = PRoom item ws"
  shows "rm_ok (write_slot (m\<lparr>rm_producer := PWritten item ws\<rparr>) (rm_slot m ws) item) w r d"
proof -
  define n W R where nWR: "n = rm_size m" "W = length (rm_pushed m)" "R = length (rm_popped m)"
  note ok = assms(1) [unfolded rm_ok_def Let_def, folded nWR]
  have n: "size_ok n" "rm_pview m = view_at n W r" "ws = of_nat W" "W + 2 \<le> r + n"
    "rm_slots m = (\<lambda>s. d # slot_history n (rm_pushed m) s)"
    "reads_ok n (vw_reads (rm_cview m)) (rm_slot_reads m)"
    "vw_reads (rm_cview m) \<le> W"
    using ok assms(2) consumer_reads [of n "rm_pushed m" w R "rm_cview m" "rm_consumer m"] by auto
  have slot: "rm_slot m ws = W mod n"
    using n(1,3) rm_slot_mod [of m ws] mod_size_word [of n W] nWR(1) by simp
  have "\<not> r < rm_slot_reads m (W mod n)"
    using overwritten_reads [OF n(6,7,4)] by simp
  then show ?thesis
    using ok n slot
    by (auto simp: view_at_write rm_ok_def Let_def write_slot_def nWR [symmetric] assms(2) slot_history_snoc fun_eq_iff)
qed

lemma read_slot_ok:
  assumes "rm_ok m w r d" and "rm_consumer m = CReady rs"
  shows "rm_ok (read_slot (m\<lparr>rm_consumer := CRead rs (slot_value m (rm_slot m rs))\<rparr>) (rm_slot m rs)) w r d"
proof -
  define n W R where nWR: "n = rm_size m" "W = length (rm_pushed m)" "R = length (rm_popped m)"
  let ?xs = "rm_pushed m @ in_slot (rm_producer m)"
  note ok = assms(1) [unfolded rm_ok_def Let_def, folded nWR]
  have n: "size_ok n" "rm_cview m = view_at n w R" "rs = of_nat R" "R < w" "w \<le> W" "W < r + n" "r \<le> R"
    "rm_slots m = (\<lambda>s. d # slot_history n ?xs s)" "reads_ok n R (rm_slot_reads m)"
    using ok assms(2) by auto
  have len: "length ?xs \<le> R + n" "w \<le> length ?xs"
    using ok n nWR(2) by (cases "rm_producer m"; auto)+
  have slot: "rm_slot m rs = R mod n"
    using n(1,3) rm_slot_mod [of m rs] mod_size_word [of n R] nWR(1) by simp
  have seen: "written n (length ?xs) (R mod n) = written n w (R mod n)"
    using n(4) len by (intro written_same) auto
  have "written n w (R mod n) = written n (Suc R) (R mod n)"
    using n(4,5) len by (intro written_same) auto
  then have before: "written n w (R mod n) = Suc (written n R (R mod n))" by (simp add: written_Suc)
  have "slot_value m (R mod n) = ?xs ! R"
    using before slot_history_nth [of R ?xs n] n(2,4,8) len by (simp add: slot_value_def)
  also have "\<dots> = rm_pushed m ! R" using n(4,5) nWR(2) by (simp add: nth_append)
  finally have val: "slot_value m (R mod n) = rm_pushed m ! R" .
  have "reads_ok n (Suc R) ((rm_slot_reads m)(R mod n := Suc R))"
    using n(9) by (auto simp: reads_ok_def less_Suc_eq)
  then show ?thesis
    using ok n slot seen val
    by (auto simp: view_at_reads rm_ok_def Let_def read_slot_def nWR [symmetric])
qed


text \<open>What a load may return in a state of the invariant, and the view after it.\<close>

lemma producer_loads:
  assumes "rm_ok m w r d" and "rm_producer m = PLoaded item ws"
    and "may_load (vw_read (rm_pview m)) (rm_read_hist m) i rs message"
  shows "saw_read Acquire m i message = view_at (rm_size m) (length (rm_pushed m)) i"
    and "ws - rs \<ge> of_nat (rm_size m - 1) \<longleftrightarrow> length (rm_pushed m) + 1 = i + rm_size m"
    and "r \<le> i" and "i \<le> length (rm_popped m)"
proof -
  let ?n = "rm_size m" and ?W = "length (rm_pushed m)" and ?R = "length (rm_popped m)"
  have ok: "size_ok ?n" "?R \<le> w" "w \<le> ?W" "?W < r + ?n" "rm_pview m = view_at ?n ?W r" "ws = of_nat ?W"
    "read_hist_ok ?n ?W ?R (rm_read_hist m)"
    using assms(1,2) by (auto simp: rm_ok_def Let_def)
  then have "may_load r (rm_read_hist m) i rs message" using assms(3) by simp
  with ok(7) obtain w' where i: "r \<le> i" "i \<le> ?R" "rs = of_nat i" "w' \<le> ?W" "message = view_at ?n w' i"
    by (elim read_hist_load)
  show "saw_read Acquire m i message = view_at ?n ?W i"
    using i(1,4) by (simp add: saw_read_def ok(5) i(5) max_absorb1 max_absorb2)
  show "ws - rs \<ge> of_nat (?n - 1) \<longleftrightarrow> ?W + 1 = i + ?n"
    unfolding ok(6) i(3) using ok(2-4) i(1,2) by (intro full_at ok(1)) linarith+
  show "r \<le> i" "i \<le> ?R" by (fact i)+
qed

lemma consumer_loads:
  assumes "rm_ok m w r d" and "rm_consumer m = CLoaded rs"
    and "may_load (vw_write (rm_cview m)) (rm_write_hist m) i ws message"
  shows "saw_write Acquire m i message = view_at (rm_size m) i (length (rm_popped m))"
    and "rs = ws \<longleftrightarrow> i = length (rm_popped m)"
    and "w \<le> i" and "i \<le> length (rm_pushed m)"
proof -
  let ?n = "rm_size m" and ?W = "length (rm_pushed m)" and ?R = "length (rm_popped m)"
  have ok: "size_ok ?n" "?R \<le> w" "r \<le> ?R" "?W < r + ?n" "rm_cview m = view_at ?n w ?R" "rs = of_nat ?R"
    "write_hist_ok ?n ?W ?R (rm_write_hist m)"
    using assms(1,2) by (auto simp: rm_ok_def Let_def)
  then have "may_load w (rm_write_hist m) i ws message" using assms(3) by simp
  with ok(7) obtain r' where i: "w \<le> i" "i \<le> ?W" "ws = of_nat i" "r' \<le> ?R" "message = view_at ?n i r'"
    by (elim write_hist_load)
  show "saw_write Acquire m i message = view_at ?n i ?R"
    using i(1,4) by (simp add: saw_write_def ok(5) i(5) max_absorb1 max_absorb2)
  have "rs = ws \<longleftrightarrow> ?R = i"
    unfolding ok(6) i(3) using ok(2-4) i(1,2) by (intro equal_at [OF ok(1)]) linarith+
  then show "rs = ws \<longleftrightarrow> i = ?R" by auto
  show "w \<le> i" "i \<le> ?W" by (fact i)+
qed

lemma publish_ok:
  assumes "rm_ok m w r d" and "rm_producer m = PWritten item ws"
    and "v = (rm_pview m)\<lparr>vw_write := length (rm_write_hist m)\<rparr>"
  shows "rm_ok (m\<lparr>rm_producer := PIdle, rm_pview := v, rm_write_hist := rm_write_hist m @ [(ws + 1, v)],
    rm_pushed := rm_pushed m @ [item]\<rparr>) w r d"
proof -
  let ?n = "rm_size m" and ?W = "length (rm_pushed m)" and ?R = "length (rm_popped m)"
  have ok: "write_hist_ok ?n ?W ?R (rm_write_hist m)" "read_hist_ok ?n ?W ?R (rm_read_hist m)" "r \<le> ?R"
    "rm_pview m = (view_at ?n (Suc ?W) r)\<lparr>vw_write := ?W\<rparr>" "ws = of_nat ?W"
    "consumer_at ?n (rm_pushed m) w ?R (rm_cview m) (rm_consumer m)" "w \<le> ?W" "?R \<le> ?W"
    using assms(1,2) by (auto simp: rm_ok_def Let_def)
  have v: "v = view_at ?n (Suc ?W) r"
    using ok(1,4) by (simp add: assms(3) write_hist_ok_def)
  show ?thesis
    using assms(1,2) write_hist_publish [OF ok(1,3)] read_hist_more [OF ok(2)]
      consumer_at_publish [OF ok(6,7)] ok(5,8)
    by (simp add: rm_ok_def Let_def v)
qed

lemma release_ok:
  assumes "rm_ok m w r d" and "rm_consumer m = CRead rs x"
    and "v = (rm_cview m)\<lparr>vw_read := length (rm_read_hist m)\<rparr>"
  shows "rm_ok (m\<lparr>rm_consumer := CIdle, rm_cview := v, rm_read_hist := rm_read_hist m @ [(rs + 1, v)],
    rm_popped := rm_popped m @ [x]\<rparr>) w r d"
proof -
  let ?n = "rm_size m" and ?W = "length (rm_pushed m)" and ?R = "length (rm_popped m)"
  have ok: "write_hist_ok ?n ?W ?R (rm_write_hist m)" "read_hist_ok ?n ?W ?R (rm_read_hist m)" "w \<le> ?W"
    "rm_cview m = (view_at ?n w (Suc ?R))\<lparr>vw_read := ?R\<rparr>" "rs = of_nat ?R" "?R < w"
    "x = rm_pushed m ! ?R" "rm_popped m = take ?R (rm_pushed m)"
    using assms(1,2) by (auto simp: rm_ok_def Let_def)
  have v: "v = view_at ?n w (Suc ?R)"
    using ok(2,4) by (simp add: assms(3) read_hist_ok_def)
  have "rm_popped m @ [x] = take (Suc ?R) (rm_pushed m)"
    using ok(3,6,7) ok(8) [symmetric] by (simp add: take_Suc_conv_app_nth)
  then show ?thesis
    using assms(1,2) write_hist_more [OF ok(1)] read_hist_release [OF ok(2,3)] ok(4-6)
    by (simp add: rm_ok_def Let_def v)
qed

lemma rm_step_inv:
  assumes "rm_inv m" and "rm_step Acquire Release m m'"
  shows "rm_inv m'"
proof -
  obtain w r d where ok: "rm_ok m w r d" using assms(1) by (auto simp: rm_inv_def)
  have "\<exists>w r. rm_ok m' w r d" using assms(2)
  proof cases
    case (w_call item)
    then have "rm_ok m' w r d" using ok by (simp add: rm_ok_def Let_def)
    then show ?thesis by blast
  next
    case r_call
    then have "rm_ok m' w r d" using ok by (auto simp: rm_ok_def Let_def)
    then show ?thesis by blast
  next
    case (w_load_own item i ws message)
    then have "rm_ok m' w r d" using ok
      by (auto simp: rm_ok_def Let_def elim!: write_hist_load)
    then show ?thesis by blast
  next
    case (w_full item ws i rs message p)
    then have "rm_ok m' w i d" using ok producer_loads [OF ok w_full(2,3)]
      by (auto simp: rm_ok_def Let_def)
    then show ?thesis by blast
  next
    case (w_room item ws i rs message)
    then have "rm_ok m' w i d" using ok producer_loads [OF ok w_room(2,3)]
      by (auto simp: rm_ok_def Let_def)
    then show ?thesis by blast
  next
    case (w_write item ws)
    then show ?thesis using write_slot_ok [OF ok] by auto
  next
    case (w_publish item ws v)
    then show ?thesis using publish_ok [OF ok] by auto
  next
    case (r_load_own i rs message)
    then have "rm_ok m' w r d" using ok
      by (auto simp: rm_ok_def Let_def elim!: read_hist_load)
    then show ?thesis by blast
  next
    case (r_empty rs i ws message c)
    then have "rm_ok m' i r d" using ok consumer_loads [OF ok r_empty(2,3)]
      by (auto simp: rm_ok_def Let_def)
    then show ?thesis by blast
  next
    case (r_ready rs i ws message)
    then have "rm_ok m' i r d" using ok consumer_loads [OF ok r_ready(2,3)]
      by (auto simp: rm_ok_def Let_def)
    then show ?thesis by blast
  next
    case (r_read rs)
    then show ?thesis using read_slot_ok [OF ok] by auto
  next
    case (r_release rs x v)
    then show ?thesis using release_ok [OF ok] by auto
  qed
  then show ?thesis by (auto simp: rm_inv_def)
qed


lemma view_start_at: "view_start = view_at n 0 0"
  by (simp add: view_start_def view_at_def)

lemma rm_start_view: "rm_start n d = \<lparr>rm_size = n, rm_write_hist = [(0, view_at n 0 0)],
    rm_read_hist = [(0, view_at n 0 0)], rm_slots = (\<lambda>_. [d]), rm_slot_reads = (\<lambda>_. 0),
    rm_producer = PIdle, rm_pview = view_at n 0 0, rm_consumer = CIdle, rm_cview = view_at n 0 0,
    rm_race = False, rm_pushed = [], rm_popped = []\<rparr>"
  by (simp add: rm_start_def view_start_at [of n])

lemma rm_init_inv: "rm_init m \<Longrightarrow> rm_inv m"
proof -
  assume "rm_init m"
  then obtain n d where n: "size_ok n" "m = rm_start n d" by (auto simp: rm_init_def)
  then have "rm_ok m 0 0 d"
    using size_ok_bounds [OF n(1)]
    by (simp add: rm_ok_def rm_start_view Let_def write_hist_ok_def read_hist_ok_def reads_ok_def slot_history_def)
  then show ?thesis by (auto simp: rm_inv_def)
qed

interpretation weak: invariant_system rm_init "rm_step Acquire Release" rm_inv
  by unfold_locales (auto intro: rm_init_inv rm_step_inv)

abbreviation rm_reachable :: "memory_order \<Rightarrow> memory_order \<Rightarrow> 'a rmem \<Rightarrow> bool" where
  "rm_reachable ld st \<equiv> reachable rm_init (rm_step ld st)"

end
