(* ===== verification/RingOrders.thy ===== *)
theory RingOrders
  imports RingWeak
begin

text \<open>
  What the memory orders of the ring buffer are worth: under release and acquire every execution does
  what some sequentially consistent one of \<open>RingConcurrent\<close> does, under weaker orders there is a race.
\<close>

section \<open>The same run with sequential consistency\<close>

text \<open>
  A sequentially consistent run that does the same: its threads enter an operation only when the load
  in the weak run has decided that the operation goes through.  An attempt that fails, perhaps
  because a load returned an old value, is not made at all.
\<close>

fun late_producer :: "'a producer \<Rightarrow> 'a producer" where
  "late_producer (PRoom item ws) = PRoom item ws"
| "late_producer (PWritten item ws) = PWritten item ws"
| "late_producer _ = PIdle"

fun late_consumer :: "'a consumer \<Rightarrow> 'a consumer" where
  "late_consumer (CReady rs) = CReady rs"
| "late_consumer (CRead rs x) = CRead rs x"
| "late_consumer _ = CIdle"

definition sc_view :: "'a rmem \<Rightarrow> 'a spsc" where
  "sc_view m = \<lparr>sp_buffer = \<lparr>rb_size = rm_size m, rb_write_sequence = of_nat (length (rm_pushed m)),
       rb_read_sequence = of_nat (length (rm_popped m)), rb_buffer = map (\<lambda>s. last (rm_slots m s)) [0..<rm_size m]\<rparr>,
     sp_producer = late_producer (rm_producer m), sp_consumer = late_consumer (rm_consumer m),
     sp_pushed = rm_pushed m, sp_popped = rm_popped m\<rparr>"

lemma sc_slot: "rb_slot (sp_buffer (sc_view m)) ws = rm_slot m ws"
  by (simp add: sc_view_def rb_slot_def rb_mask_def rm_slot_def)

lemma sc_enter_push:
  assumes "late_producer p = PIdle" and "\<not> of_nat W - of_nat R \<ge> (of_nat (n - 1) :: 64 word)"
  shows "spsc_step\<^sup>*\<^sup>* \<lparr>sp_buffer = \<lparr>rb_size = n, rb_write_sequence = of_nat W, rb_read_sequence = of_nat R, rb_buffer = xs\<rparr>,
      sp_producer = PIdle, sp_consumer = c, sp_pushed = l, sp_popped = k\<rparr>
    \<lparr>sp_buffer = \<lparr>rb_size = n, rb_write_sequence = of_nat W, rb_read_sequence = of_nat R, rb_buffer = xs\<rparr>,
      sp_producer = PRoom item (of_nat W), sp_consumer = c, sp_pushed = l, sp_popped = k\<rparr>"
  (is "spsc_step\<^sup>*\<^sup>* (?s PIdle) _")
proof -
  have "spsc_step (?s PIdle) (?s (PStart item))"
    using p_call [of "?s PIdle" item] by simp
  moreover have "spsc_step (?s (PStart item)) (?s (PLoaded item (of_nat W)))"
    using p_load_own [of "?s (PStart item)" item] by simp
  moreover have "spsc_step (?s (PLoaded item (of_nat W))) (?s (PRoom item (of_nat W)))"
    using p_room [of "?s (PLoaded item (of_nat W))" item "of_nat W"] assms(2) by simp
  ultimately show ?thesis by (meson rtranclp.rtrancl_into_rtrancl rtranclp.rtrancl_refl)
qed

lemma sc_enter_pop:
  assumes "(of_nat R :: 64 word) \<noteq> of_nat W"
  shows "spsc_step\<^sup>*\<^sup>* \<lparr>sp_buffer = \<lparr>rb_size = n, rb_write_sequence = of_nat W, rb_read_sequence = of_nat R, rb_buffer = xs\<rparr>,
      sp_producer = p, sp_consumer = CIdle, sp_pushed = l, sp_popped = k\<rparr>
    \<lparr>sp_buffer = \<lparr>rb_size = n, rb_write_sequence = of_nat W, rb_read_sequence = of_nat R, rb_buffer = xs\<rparr>,
      sp_producer = p, sp_consumer = CReady (of_nat R), sp_pushed = l, sp_popped = k\<rparr>"
  (is "spsc_step\<^sup>*\<^sup>* (?s CIdle) _")
proof -
  have "spsc_step (?s CIdle) (?s CStart)"
    using c_call [of "?s CIdle"] by simp
  moreover have "spsc_step (?s CStart) (?s (CLoaded (of_nat R)))"
    using c_load_own [of "?s CStart"] by simp
  moreover have "spsc_step (?s (CLoaded (of_nat R))) (?s (CReady (of_nat R)))"
    using c_ready [of "?s (CLoaded (of_nat R))" "of_nat R"] assms by simp
  ultimately show ?thesis by (meson rtranclp.rtrancl_into_rtrancl rtranclp.rtrancl_refl)
qed

lemma sc_write:
  assumes "rm_producer m = PRoom item ws"
  shows "spsc_step (sc_view m) (sc_view (write_slot (m\<lparr>rm_producer := PWritten item ws\<rparr>) (rm_slot m ws) item))"
proof -
  let ?b = "sp_buffer (sc_view m)"
  have "spsc_step (sc_view m) ((sc_view m)\<lparr>sp_producer := PWritten item ws,
      sp_buffer := ?b\<lparr>rb_buffer := (rb_buffer ?b)[rb_slot ?b ws := item]\<rparr>\<rparr>)"
    by (rule p_write) (simp_all add: sc_view_def assms)
  moreover have "(map (\<lambda>s. last (rm_slots m s)) [0..<rm_size m])[rm_slot m ws := item] =
      map (\<lambda>s. last (((rm_slots m)(rm_slot m ws := rm_slots m (rm_slot m ws) @ [item])) s)) [0..<rm_size m]"
    by (rule nth_equalityI) (auto simp: nth_list_update)
  ultimately show ?thesis unfolding sc_slot by (simp add: sc_view_def write_slot_def)
qed

lemma sc_read:
  assumes ok: "rm_ok m w r d" and pc: "rm_consumer m = CReady rs" and s: "s = rm_slot m rs"
  shows "spsc_step (sc_view m) (sc_view (read_slot (m\<lparr>rm_consumer := CRead rs (slot_value m s)\<rparr>) s))"
proof -
  let ?b = "sp_buffer (sc_view m)"
  have size: "size_ok (rm_size m)" using ok by (simp add: rm_ok_def Let_def)
  have "rm_ok (read_slot (m\<lparr>rm_consumer := CRead rs (slot_value m s)\<rparr>) s) w r d"
    unfolding s by (rule read_slot_ok [OF ok pc])
  then have "vw_slots (rm_cview m) s = length (rm_slots m s)"
    by (auto simp: rm_ok_def Let_def read_slot_def)
  moreover have "rm_slots m s \<noteq> []" using ok by (simp add: rm_ok_def Let_def)
  ultimately have val: "slot_value m s = last (rm_slots m s)" by (simp add: slot_value_def last_conv_nth)
  have "s < rm_size m" using rm_slot_mod [OF size, of rs] size_ok_bounds [OF size] by (simp add: s)
  then have "rb_buffer ?b ! rb_slot ?b rs = slot_value m s" unfolding sc_slot val by (simp add: s sc_view_def)
  moreover have "spsc_step (sc_view m) ((sc_view m)\<lparr>sp_consumer := CRead rs (rb_buffer ?b ! rb_slot ?b rs)\<rparr>)"
    by (rule c_read) (simp_all add: sc_view_def pc)
  ultimately show ?thesis by (simp add: sc_view_def read_slot_def)
qed

lemma sc_step:
  assumes inv: "rm_inv m" and step: "rm_step Acquire Release m m'"
  shows "spsc_step\<^sup>*\<^sup>* (sc_view m) (sc_view m')"
proof -
  obtain w r d where ok: "rm_ok m w r d" using inv by (auto simp: rm_inv_def)
  let ?n = "rm_size m" and ?W = "length (rm_pushed m)" and ?R = "length (rm_popped m)"
  have size: "size_ok ?n" and bounds: "r \<le> ?R" "?R \<le> w" "w \<le> ?W" "?W < r + ?n"
    and at: "producer_at ?n ?W r (rm_pview m) (rm_producer m)"
      "consumer_at ?n (rm_pushed m) w ?R (rm_cview m) (rm_consumer m)"
    using ok by (auto simp: rm_ok_def Let_def)
  show ?thesis using step
  proof cases
    case (w_full item ws i rs message p)
    then have "late_producer p = PIdle" by auto
    then show ?thesis using w_full by (simp add: sc_view_def)
  next
    case (w_room item ws i rs message)
    have "ws = of_nat ?W" using at(1) w_room by simp
    moreover have "\<not> of_nat ?W - of_nat ?R \<ge> (of_nat (?n - 1) :: 64 word)"
      using full_at [OF size, of ?R ?W] bounds producer_loads(2-4) [OF ok w_room(2,3)] w_room(4) by simp
    ultimately show ?thesis using sc_enter_push [of "rm_producer m"] w_room by (simp add: sc_view_def)
  next
    case (w_write item ws)
    then show ?thesis using sc_write [OF w_write(2)] by auto
  next
    case (w_publish item ws v)
    have "ws = of_nat ?W" using at(1) w_publish by simp
    moreover have "spsc_step (sc_view m) ((sc_view m)\<lparr>sp_producer := PIdle,
        sp_buffer := (sp_buffer (sc_view m))\<lparr>rb_write_sequence := ws + 1\<rparr>, sp_pushed := sp_pushed (sc_view m) @ [item]\<rparr>)"
      by (rule p_publish) (simp_all add: sc_view_def w_publish(2))
    ultimately show ?thesis using w_publish by (simp add: sc_view_def add.commute)
  next
    case (r_empty rs i ws message c)
    then have "late_consumer c = CIdle" by auto
    then show ?thesis using r_empty by (simp add: sc_view_def)
  next
    case (r_ready rs i ws message)
    have "rs = of_nat ?R" using at(2) r_ready by simp
    moreover have "(of_nat ?R :: 64 word) \<noteq> of_nat ?W"
      using equal_at [OF size, of ?R ?W] bounds consumer_loads(2-4) [OF ok r_ready(2,3)] r_ready(4) by simp
    ultimately show ?thesis using sc_enter_pop r_ready by (simp add: sc_view_def)
  next
    case (r_read rs)
    then show ?thesis using sc_read [OF ok r_read(2) refl] by auto
  next
    case (r_release rs x v)
    have "rs = of_nat ?R" using at(2) r_release by simp
    moreover have "spsc_step (sc_view m) ((sc_view m)\<lparr>sp_consumer := CIdle,
        sp_buffer := (sp_buffer (sc_view m))\<lparr>rb_read_sequence := rs + 1\<rparr>, sp_popped := sp_popped (sc_view m) @ [x]\<rparr>)"
      by (rule c_release) (simp_all add: sc_view_def r_release(2))
    ultimately show ?thesis using r_release by (simp add: sc_view_def add.commute)
  qed (simp_all add: sc_view_def)
qed

lemma sc_init:
  assumes "rm_init m"
  shows "spsc_init (sc_view m)"
proof -
  obtain n d where n: "size_ok n" "m = rm_start n d" using assms by (auto simp: rm_init_def)
  then have "sp_buffer (sc_view m) = HPRingBuffer_init n d"
    by (simp add: sc_view_def rm_start_def HPRingBuffer_init_def map_replicate_const)
  then show ?thesis using n init_ok [OF n(1), of d] by (simp add: spsc_init_def sc_view_def rm_start_def)
qed

lemma sc_reachable:
  assumes "rm_reachable Acquire Release m"
  shows "spsc_reachable (sc_view m)"
proof -
  obtain m0 where m0: "rm_init m0" "(rm_step Acquire Release)\<^sup>*\<^sup>* m0 m" using assms by (auto simp: reachable_def)
  from m0(2) have "rm_inv m \<and> spsc_step\<^sup>*\<^sup>* (sc_view m0) (sc_view m)"
  proof (induction rule: rtranclp_induct)
    case base
    then show ?case using rm_init_inv [OF m0(1)] by simp
  next
    case (step m1 m2)
    then show ?case using sc_step [of m1 m2] rm_step_inv [of m1 m2] by (auto intro: rtranclp_trans)
  qed
  then show ?thesis using sc_init [OF m0(1)] by (auto simp: reachable_def)
qed

section \<open>A run of one push and one pop\<close>

definition demo_publish :: "memory_order \<Rightarrow> nat rmem" where
  "demo_publish st = (rm_start 2 0)\<lparr>rm_pview := view_at 2 1 0,
     rm_write_hist := [(0, view_at 2 0 0), (1, store_view st (view_at 2 1 0))],
     rm_slots := (\<lambda>_. [0])(0 := [0, 9]), rm_pushed := [9]\<rparr>"

definition demo_ready :: "memory_order \<Rightarrow> memory_order \<Rightarrow> nat rmem" where
  "demo_ready ld st = (demo_publish st)\<lparr>rm_consumer := CReady 0,
     rm_cview := (load_view ld (view_at 2 0 0) (store_view st (view_at 2 1 0)))\<lparr>vw_write := 1\<rparr>\<rparr>"

lemma size_ok_2 [simp]: "size_ok 2"
  unfolding size_ok_def by (intro exI [of _ 1]) simp

lemma load_view_same [simp]: "load_view ld v v = v"
  by (simp add: load_view_def view_join_def)

lemma demo_publish_reachable: "rm_reachable ld st (demo_publish st)"
proof -
  let ?m0 = "rm_start 2 (0 :: nat)"
  let ?m1 = "?m0\<lparr>rm_producer := PStart 9\<rparr>" and ?m2 = "?m0\<lparr>rm_producer := PLoaded 9 0\<rparr>"
  let ?m3 = "?m0\<lparr>rm_producer := PRoom 9 0\<rparr>"
  let ?m4 = "?m0\<lparr>rm_producer := PWritten 9 0, rm_slots := (\<lambda>_. [0])(0 := [0, 9]),
    rm_pview := (view_at 2 1 0)\<lparr>vw_write := 0\<rparr>\<rparr>"
  note go = reachable_step [of rm_init "rm_step ld st"]
  have s0: "rm_reachable ld st ?m0" by (rule reachable_init) (unfold rm_init_def, blast intro: size_ok_2)
  have s1: "rm_step ld st ?m0 ?m1" by (rule w_call) (simp add: rm_start_def)
  have s2: "rm_step ld st ?m1 ?m2"
    using w_load_own [of ?m1 9 0 0 "view_at 2 0 0" ld st] by (simp add: rm_start_view may_load_def)
  have s3: "rm_step ld st ?m2 ?m3"
    using w_room [of ?m2 9 0 0 0 "view_at 2 0 0" ld st] by (simp add: rm_start_view may_load_def saw_read_def)
  have s4: "rm_step ld st ?m3 ?m4"
    using w_write [of ?m3 9 0 ld st]
    by (simp add: rm_start_view write_slot_def rm_slot_def view_at_write [of 2 0 0, simplified])
  have s5: "rm_step ld st ?m4 (demo_publish st)"
    using w_publish [of ?m4 9 0 "view_at 2 1 0" ld st] by (simp add: rm_start_view demo_publish_def)
  show ?thesis by (rule go [OF go [OF go [OF go [OF go [OF s0 s1] s2] s3] s4] s5])
qed

lemma demo_ready_reachable: "rm_reachable ld st (demo_ready ld st)"
proof -
  let ?m0 = "demo_publish st"
  let ?m1 = "?m0\<lparr>rm_consumer := CStart\<rparr>" and ?m2 = "?m0\<lparr>rm_consumer := CLoaded 0\<rparr>"
  note go = reachable_step [of rm_init "rm_step ld st"]
  have s1: "rm_step ld st ?m0 ?m1" by (rule r_call) (simp add: rm_start_view demo_publish_def)
  have s2: "rm_step ld st ?m1 ?m2"
    using r_load_own [of ?m1 0 0 "view_at 2 0 0" ld st]
    by (simp add: rm_start_view may_load_def demo_publish_def)
  have s3: "rm_step ld st ?m2 (demo_ready ld st)"
    using r_ready [of ?m2 0 1 1 "store_view st (view_at 2 1 0)" ld st]
    by (simp add: rm_start_view may_load_def saw_write_def demo_publish_def demo_ready_def)
  show ?thesis by (rule go [OF go [OF go [OF demo_publish_reachable s1] s2] s3])
qed

text \<open>Both orders are needed: with a relaxed load or a relaxed store the consumer may read the slot while
  it is being written.\<close>

lemma relaxed_race:
  assumes "ld \<noteq> Acquire \<or> st \<noteq> Release"
  shows "\<exists>m :: nat rmem. rm_reachable ld st m \<and> rm_race m"
proof -
  let ?m = "demo_ready ld st"
  let ?m' = "read_slot (?m\<lparr>rm_consumer := CRead 0 (slot_value ?m (rm_slot ?m 0))\<rparr>) (rm_slot ?m 0)"
  have "rm_step ld st ?m ?m'" by (rule r_read) (simp add: demo_ready_def)
  then have "rm_reachable ld st ?m'" by (rule reachable_step [OF demo_ready_reachable])
  moreover have "rm_race ?m'"
    using assms by (auto simp: demo_ready_def demo_publish_def rm_start_view read_slot_def rm_slot_def
      load_view_def store_view_def view_join_def view_none_def written_Suc)
  ultimately show ?thesis by blast
qed

section \<open>Property\<close>

text \<open>C12: with the acquire loads and release stores the code uses, no execution of the release and
  acquire memory model has a data race on a slot, a sequentially consistent execution does the same pushes and
  pops with the same items, the consumer receives exactly what was published, in order, and no
  more than \<open>Size - 1\<close> items are ever in the buffer, however stale the sequences are that the
  threads load.\<close>

theorem weak_memory_safe:
  assumes "rm_reachable Acquire Release m"
  shows "\<not> rm_race m \<and> spsc_reachable (sc_view m) \<and> rm_popped m = take (length (rm_popped m)) (rm_pushed m) \<and>
    length (rm_pushed m) \<le> length (rm_popped m) + (rm_size m - 1)"
proof -
  obtain w r d where "rm_ok m w r d" using weak.reachable_inv [OF assms] by (auto simp: rm_inv_def)
  then show ?thesis using sc_reachable [OF assms] by (auto simp: rm_ok_def Let_def)
qed

definition demo_received :: "nat rmem" where
  "demo_received = (demo_publish Release)\<lparr>rm_consumer := CIdle, rm_cview := view_at 2 1 1,
     rm_read_hist := [(0, view_at 2 0 0), (1, view_at 2 1 1)], rm_slot_reads := (\<lambda>_. 0)(0 := 1),
     rm_popped := [9]\<rparr>"

lemma demo_received_reachable: "rm_reachable Acquire Release demo_received"
proof -
  let ?m = "demo_ready Acquire Release"
  let ?m1 = "(demo_publish Release)\<lparr>rm_consumer := CRead 0 9, rm_slot_reads := (\<lambda>_. 0)(0 := 1),
    rm_cview := (view_at 2 1 1)\<lparr>vw_read := 0\<rparr>\<rparr>"
  note go = reachable_step [of rm_init "rm_step Acquire Release"]
  have s1: "rm_step Acquire Release ?m ?m1"
    using r_read [of ?m 0 Acquire Release]
    by (simp add: demo_ready_def demo_publish_def rm_start_view read_slot_def rm_slot_def slot_value_def
      written_Suc view_at_reads)
  have s2: "rm_step Acquire Release ?m1 demo_received"
    using r_release [of ?m1 0 9 "view_at 2 1 1" Acquire Release]
    by (simp add: demo_publish_def rm_start_view demo_received_def)
  show ?thesis by (rule go [OF go [OF demo_ready_reachable s1] s2])
qed

theorem weak_memory_safe_witness:
  "\<not> rm_race demo_received \<and> rm_popped demo_received = [9] \<and> rm_pushed demo_received = [9]"
  using weak_memory_safe [OF demo_received_reachable]
  by (simp add: demo_received_def demo_publish_def rm_start_def)

end
