(* ===== verification/Floats.thy ===== *)
theory Floats
  imports Complex_Main Prelude
begin

text \<open>
  Floating point.  The operations of \<^verbatim>\<open>double\<close> the program uses are the fields of a record that the
  definitions take as a parameter: nothing is assumed about rounding.  \<open>exact_ops\<close> computes with
  rational numbers; a theorem about it says what the formulas of the source compute when no
  rounding happens, which is the case for the integers below \<^verbatim>\<open>2^53\<close> the source converts.
\<close>

record 'f float_ops =
  fl_of_int :: "int \<Rightarrow> 'f"    \<comment> \<open>\<^verbatim>\<open>static_cast<double>\<close>\<close>
  fl_lit :: "rat \<Rightarrow> 'f"       \<comment> \<open>a literal\<close>
  fl_add :: "'f \<Rightarrow> 'f \<Rightarrow> 'f"
  fl_sub :: "'f \<Rightarrow> 'f \<Rightarrow> 'f"
  fl_mul :: "'f \<Rightarrow> 'f \<Rightarrow> 'f"
  fl_div :: "'f \<Rightarrow> 'f \<Rightarrow> 'f"
  fl_less :: "'f \<Rightarrow> 'f \<Rightarrow> bool"
  fl_trunc :: "'f \<Rightarrow> int"     \<comment> \<open>the conversion to an integer type\<close>
  fl_ceil :: "'f \<Rightarrow> int"      \<comment> \<open>\<^verbatim>\<open>std::ceil\<close>, then the conversion\<close>

definition exact_ops :: "rat float_ops" where
  "exact_ops = \<lparr>fl_of_int = of_int, fl_lit = (\<lambda>x. x), fl_add = (+), fl_sub = (-), fl_mul = (*),
     fl_div = (/), fl_less = (<), fl_trunc = (\<lambda>x. if x < 0 then ceiling x else floor x),
     fl_ceil = ceiling\<rparr>"

lemma exact_simps [simp]:
  "fl_of_int exact_ops i = of_int i" "fl_lit exact_ops x = x" "fl_add exact_ops x y = x + y"
  "fl_sub exact_ops x y = x - y" "fl_mul exact_ops x y = x * y" "fl_div exact_ops x y = x / y"
  "fl_less exact_ops x y = (x < y)" "fl_ceil exact_ops x = ceiling x"
  "0 \<le> x \<Longrightarrow> fl_trunc exact_ops x = floor x"
  by (simp_all add: exact_ops_def)

end
