(* ===== verification/Feeds.thy ===== *)
theory Feeds
  imports L3Queries Floats
begin

text \<open>
  The components that read the order book: \<^verbatim>\<open>src/common/clock\<close>, \<^verbatim>\<open>src/orderbook/l2_aggregator\<close>,
  \<^verbatim>\<open>src/orderbook/l1_feed\<close> and \<^verbatim>\<open>src/market/market_data_publisher\<close>.  A component that keeps a reference to the
  book takes the book as an argument.  Floating-point arithmetic is a parameter, a record of the
  operations the code uses.
\<close>

section \<open>Clock\<close>

datatype ClockMode = WallClock | Simulated

record Clock =
  ck_mode :: ClockMode
  ck_simulated_time :: Timestamp

definition Clock_init :: "ClockMode \<Rightarrow> Clock" where
  "Clock_init mode = \<lparr>ck_mode = mode, ck_simulated_time = 0\<rparr>"

definition clock_mode :: "Clock \<Rightarrow> ClockMode" where
  "clock_mode c = ck_mode c"

text \<open>\<open>tp\<close> is the reading of \<^verbatim>\<open>steady_clock\<close>, in nanoseconds since its epoch.\<close>

definition wall_clock_now :: "int \<Rightarrow> Timestamp" where
  "wall_clock_now tp = word_of_int tp"

text \<open>\<open>wall\<close> is what \<^verbatim>\<open>std::chrono::steady_clock\<close> reads.\<close>

definition clock_now :: "Timestamp \<Rightarrow> Clock \<Rightarrow> Timestamp" where
  "clock_now wall c = (if ck_mode c = Simulated then ck_simulated_time c else wall)"

definition clock_advance :: "64 word \<Rightarrow> Clock \<Rightarrow> Clock" where
  "clock_advance delta_ns c =
     (if ck_mode c = Simulated then c\<lparr>ck_simulated_time := ck_simulated_time c + delta_ns\<rparr> else c)"

definition clock_set_time :: "Timestamp \<Rightarrow> Clock \<Rightarrow> Clock" where
  "clock_set_time ts c = (if ck_mode c = Simulated then c\<lparr>ck_simulated_time := ts\<rparr> else c)"

definition clock_reset :: "Clock \<Rightarrow> Clock" where
  "clock_reset c = (if ck_mode c = Simulated then c\<lparr>ck_simulated_time := 0\<rparr> else c)"

section \<open>L2 aggregator\<close>

record L2Aggregator =
  l2_depth :: nat

definition L2Aggregator_init :: "nat \<Rightarrow> L2Aggregator" where
  "L2Aggregator_init depth = \<lparr>l2_depth = min depth MAX_L2_DEPTH\<rparr>"

definition aggregator_depth :: "L2Aggregator \<Rightarrow> nat" where
  "aggregator_depth a = l2_depth a"

definition set_depth :: "nat \<Rightarrow> L2Aggregator \<Rightarrow> L2Aggregator" where
  "set_depth depth l2 = l2\<lparr>l2_depth := min depth MAX_L2_DEPTH\<rparr>"

definition bid_levels :: "L3OrderBook \<Rightarrow> L2Aggregator \<Rightarrow> BookLevel list" where
  "bid_levels b l2 = bid_depth b (l2_depth l2)"

definition ask_levels :: "L3OrderBook \<Rightarrow> L2Aggregator \<Rightarrow> BookLevel list" where
  "ask_levels b l2 = ask_depth b (l2_depth l2)"

text \<open>The copy loop into the fixed-size array.\<close>

fun copy_levels :: "nat \<Rightarrow> BookLevel list \<Rightarrow> BookLevel list \<Rightarrow> BookLevel list" where
  "copy_levels i [] arr = arr"
| "copy_levels i (x # xs) arr =
     (if i < MAX_DEPTH_LEVELS then copy_levels (i + 1) xs (arr[i := x]) else arr)"

definition l2_snapshot :: "L3OrderBook \<Rightarrow> Timestamp \<Rightarrow> L2Aggregator \<Rightarrow> DepthSnapshot" where
  "l2_snapshot b ts l2 =
     (let bids = bid_depth b (l2_depth l2);
          asks = ask_depth b (l2_depth l2)
      in DepthSnapshot_default\<lparr>ds_symbol := bk_symbol b, ds_timestamp := ts,
           ds_bid_levels := of_nat (length bids), ds_ask_levels := of_nat (length asks),
           ds_bids := copy_levels 0 bids (ds_bids DepthSnapshot_default),
           ds_asks := copy_levels 0 asks (ds_asks DepthSnapshot_default)\<rparr>)"

definition l2_ok :: "L2Aggregator \<Rightarrow> bool" where
  "l2_ok l2 \<longleftrightarrow> l2_depth l2 \<le> MAX_L2_DEPTH"

lemma l2_init_ok [simp]: "l2_ok (L2Aggregator_init d)" "l2_ok (set_depth d l2)"
  by (simp_all add: l2_ok_def L2Aggregator_init_def set_depth_def)

lemma copy_levels_spec:
  assumes "i + length xs \<le> MAX_DEPTH_LEVELS" and "length arr = MAX_DEPTH_LEVELS"
  shows "copy_levels i xs arr = take i arr @ xs @ drop (i + length xs) arr"
  using assms
proof (induction i xs arr rule: copy_levels.induct)
  case (2 i x xs arr)
  then have "i < length arr" by simp
  then have "take (Suc i) (arr[i := x]) = take i arr @ [x]"
    by (simp add: take_Suc_conv_app_nth)
  then show ?case using 2 by simp
qed simp

section \<open>L1 feed\<close>

text \<open>The constructor default-initializes the last top of book, whose best levels have a price and a
  quantity without initializers: until the first update they are indeterminate, and copying the
  structure is undefined.  The field is \<^const>\<open>None\<close> until then.\<close>

record L1Feed =
  l1_last_tob :: "TopOfBook option"
  l1_callback :: bool
  l1_recent_trades :: "(Price \<times> Quantity) list"
  l1_spread_history :: "Price list"

definition MAX_TRADE_HISTORY :: nat where "MAX_TRADE_HISTORY = 1000"
definition MAX_SPREAD_HISTORY :: nat where "MAX_SPREAD_HISTORY = 500"

definition L1Feed_init :: L1Feed where
  "L1Feed_init = \<lparr>l1_last_tob = None, l1_callback = False, l1_recent_trades = [],
     l1_spread_history = []\<rparr>"

definition last_top :: "L1Feed \<Rightarrow> TopOfBook option" where
  "last_top f = l1_last_tob f"

declare last_top_def [simp]

definition on_update :: "L1Feed \<Rightarrow> L1Feed" where
  "on_update f = f\<lparr>l1_callback := True\<rparr>"

text \<open>A deque with a bound: push at the back, then pop the front when too long.\<close>

definition push_bounded :: "nat \<Rightarrow> 'a \<Rightarrow> 'a list \<Rightarrow> 'a list" where
  "push_bounded n x xs = (let xs = xs @ [x] in if length xs > n then tl xs else xs)"

text \<open>The returned list holds the calls of the registered callback.\<close>

definition l1_update :: "L3OrderBook \<Rightarrow> Timestamp \<Rightarrow> L1Feed \<Rightarrow> TopOfBook \<times> L1Feed \<times> TopOfBook list" where
  "l1_update b ts f =
     (let tob = top_of_book b ts;
          f = f\<lparr>l1_last_tob := Some tob\<rparr>;
          f = (if tob_valid tob \<and> tob_spread tob > 0
               then f\<lparr>l1_spread_history := push_bounded MAX_SPREAD_HISTORY (tob_spread tob) (l1_spread_history f)\<rparr>
               else f)
      in (tob, f, if l1_callback f then [tob] else []))"

definition record_trade :: "Price \<Rightarrow> Quantity \<Rightarrow> L1Feed \<Rightarrow> L1Feed" where
  "record_trade price qty f =
     f\<lparr>l1_recent_trades := push_bounded MAX_TRADE_HISTORY (price, qty) (l1_recent_trades f)\<rparr>"

definition vwap :: "'f float_ops \<Rightarrow> L1Feed \<Rightarrow> 'f" where
  "vwap F f =
     (if l1_recent_trades f = [] then fl_of_int F 0
      else (let (sum_pv, sum_v) =
                  foldl (\<lambda>(pv, v) (price, qty).
                      (fl_add F pv (fl_mul F (fl_of_int F price) (fl_of_int F qty)),
                       fl_add F v (fl_of_int F qty)))
                    (fl_of_int F 0, fl_of_int F 0) (l1_recent_trades f)
            in if fl_less F (fl_of_int F 0) sum_v then fl_div F sum_pv sum_v else fl_of_int F 0))"

definition rolling_spread :: "'f float_ops \<Rightarrow> nat \<Rightarrow> L1Feed \<Rightarrow> 'f" where
  "rolling_spread F w f =
     (if l1_spread_history f = [] then fl_of_int F 0
      else (let n = min w (length (l1_spread_history f));
                sum = foldl (\<lambda>s x. fl_add F s (fl_of_int F x)) (fl_of_int F 0)
                        (take n (rev (l1_spread_history f)))
            in fl_div F sum (fl_of_int F (int n))))"

definition l1_ok :: "L1Feed \<Rightarrow> bool" where
  "l1_ok f \<longleftrightarrow> length (l1_recent_trades f) \<le> MAX_TRADE_HISTORY \<and>
     length (l1_spread_history f) \<le> MAX_SPREAD_HISTORY \<and> (\<forall>x \<in> set (l1_spread_history f). 0 < x)"

text \<open>Such a deque holds the last \<open>n\<close> values pushed.\<close>

lemma push_bounded_last: "push_bounded n x (drop (length xs - n) xs) = drop (length (xs @ [x]) - n) (xs @ [x])"
proof (cases "n < length (xs @ [x])")
  case True
  then have "tl (drop (length xs - n) (xs @ [x])) = drop (Suc (length xs) - n) (xs @ [x])"
    by (simp only: tl_drop drop_Suc [symmetric] length_append list.size) (simp add: Suc_diff_le drop_Suc)
  then show ?thesis using True by (simp add: push_bounded_def Let_def)
next
  case False
  then show ?thesis by (simp add: push_bounded_def Let_def)
qed

lemma fold_push_bounded: "foldl (\<lambda>q x. push_bounded n x q) [] xs = drop (length xs - n) xs"
  by (induction xs rule: rev_induct) (simp_all add: push_bounded_last)

lemma push_bounded_length [simp]: "length xs \<le> n \<Longrightarrow> length (push_bounded n x xs) \<le> n"
  by (auto simp: push_bounded_def Let_def)

lemma set_push_bounded: "set (push_bounded n x xs) \<subseteq> insert x (set xs)"
  unfolding push_bounded_def Let_def by (auto dest: list.set_sel(2) [rotated] split: if_splits)

lemma l1_init_ok [simp]: "l1_ok L1Feed_init"
  by (simp add: l1_ok_def L1Feed_init_def)

lemma record_trade_ok [simp]: "l1_ok f \<Longrightarrow> l1_ok (record_trade price qty f)"
  by (simp add: l1_ok_def record_trade_def)

lemma l1_update_ok [simp]: "l1_ok f \<Longrightarrow> l1_ok (fst (snd (l1_update b ts f)))"
  using set_push_bounded [of MAX_SPREAD_HISTORY "tob_spread (top_of_book b ts)" "l1_spread_history f"]
  by (auto simp: l1_ok_def l1_update_def Let_def)

lemma l1_update_frame [simp]:
  "l1_recent_trades (fst (snd (l1_update b ts f))) = l1_recent_trades f"
  "l1_last_tob (fst (snd (l1_update b ts f))) = Some (top_of_book b ts)"
  "l1_callback (fst (snd (l1_update b ts f))) = l1_callback f"
  by (simp_all add: l1_update_def Let_def)

section \<open>Market data publisher\<close>

text \<open>Which handlers are set, and the calls each publication makes.\<close>

record MarketDataPublisher =
  mp_tob_handler :: bool
  mp_trade_handler :: bool
  mp_depth_handler :: bool

datatype publisher_call =
  CallTopOfBook TopOfBook | CallTrade Trade | CallDepth string "BookLevel list" "BookLevel list"

definition MarketDataPublisher_init :: MarketDataPublisher where
  "MarketDataPublisher_init = \<lparr>mp_tob_handler = False, mp_trade_handler = False, mp_depth_handler = False\<rparr>"

definition onTopOfBook :: "MarketDataPublisher \<Rightarrow> MarketDataPublisher" where
  "onTopOfBook p = p\<lparr>mp_tob_handler := True\<rparr>"

definition onTrade :: "MarketDataPublisher \<Rightarrow> MarketDataPublisher" where
  "onTrade p = p\<lparr>mp_trade_handler := True\<rparr>"

definition onDepthSnapshot :: "MarketDataPublisher \<Rightarrow> MarketDataPublisher" where
  "onDepthSnapshot p = p\<lparr>mp_depth_handler := True\<rparr>"

definition publishTopOfBook :: "TopOfBook \<Rightarrow> MarketDataPublisher \<Rightarrow> publisher_call list" where
  "publishTopOfBook tob p = (if mp_tob_handler p then [CallTopOfBook tob] else [])"

definition publishTrade :: "Trade \<Rightarrow> MarketDataPublisher \<Rightarrow> publisher_call list" where
  "publishTrade t p = (if mp_trade_handler p then [CallTrade t] else [])"

definition publishDepth :: "string \<Rightarrow> BookLevel list \<Rightarrow> BookLevel list \<Rightarrow> MarketDataPublisher
    \<Rightarrow> publisher_call list" where
  "publishDepth s bids asks p = (if mp_depth_handler p then [CallDepth s bids asks] else [])"

section \<open>Properties\<close>

text \<open>C18: a depth snapshot is faithful: with the configured depth within \<open>MAX_L2_DEPTH\<close>, as the
  constructor and \<open>set_depth\<close> keep it, no level is cut off by the fixed-size arrays, the level
  counts are the lengths of the depth queries, and the unused entries are empty.\<close>

theorem snapshot_faithful:
  assumes "l2_ok l2"
  shows "take (unat (ds_bid_levels (l2_snapshot b ts l2))) (ds_bids (l2_snapshot b ts l2)) = bid_levels b l2 \<and>
    take (unat (ds_ask_levels (l2_snapshot b ts l2))) (ds_asks (l2_snapshot b ts l2)) = ask_levels b l2 \<and>
    unat (ds_bid_levels (l2_snapshot b ts l2)) = min (l2_depth l2) (length (bk_bids b)) \<and>
    unat (ds_ask_levels (l2_snapshot b ts l2)) = min (l2_depth l2) (length (bk_asks b)) \<and>
    length (ds_bids (l2_snapshot b ts l2)) = MAX_DEPTH_LEVELS \<and>
    length (ds_asks (l2_snapshot b ts l2)) = MAX_DEPTH_LEVELS \<and>
    set (drop (length (bid_levels b l2)) (ds_bids (l2_snapshot b ts l2))) \<subseteq> {BookLevel_default} \<and>
    set (drop (length (ask_levels b l2)) (ds_asks (l2_snapshot b ts l2))) \<subseteq> {BookLevel_default}"
proof -
  have len: "length (depth_loop k 0 ls) = min k (length ls)" for k ls
    by (simp add: depth_loop_take)
  have small: "min (l2_depth l2) n \<le> MAX_DEPTH_LEVELS" for n
    using assms by (simp add: l2_ok_def MAX_L2_DEPTH_def MAX_DEPTH_LEVELS_def)
  have unat: "unat (of_nat (min (l2_depth l2) n) :: 32 word) = min (l2_depth l2) n" for n
  proof -
    have "min (l2_depth l2) n < 2 ^ 32"
      using small [of n] by (rule le_less_trans) (simp add: MAX_DEPTH_LEVELS_def)
    then show ?thesis by (simp add: unat_of_nat)
  qed
  have copy: "copy_levels 0 (depth_loop (l2_depth l2) 0 ls) (replicate MAX_DEPTH_LEVELS d) =
      depth_loop (l2_depth l2) 0 ls @ replicate (MAX_DEPTH_LEVELS - min (l2_depth l2) (length ls)) d" for ls d
    using copy_levels_spec [of 0 "depth_loop (l2_depth l2) 0 ls" "replicate MAX_DEPTH_LEVELS d"]
      small [of "length ls"] by (simp add: len)
  show ?thesis
    unfolding l2_snapshot_def Let_def bid_levels_def ask_levels_def bid_depth_def ask_depth_def
    using small unat by (auto simp: DepthSnapshot_default_def copy len)
qed

theorem snapshot_faithful_witness:
  "unat (ds_ask_levels (l2_snapshot demo_book 9 (L2Aggregator_init 10))) = 2 \<and>
   map bl_price (take 2 (ds_asks (l2_snapshot demo_book 9 (L2Aggregator_init 10)))) = [100, 101]"
proof -
  have c: "map bl_price (ask_levels demo_book (L2Aggregator_init 10)) = [100, 101]"
    "min (l2_depth (L2Aggregator_init 10)) (length (bk_asks demo_book)) = 2" by code_simp+
  let ?s = "l2_snapshot demo_book 9 (L2Aggregator_init 10)"
  have n: "unat (ds_ask_levels ?s) = 2"
    and t: "take (unat (ds_ask_levels ?s)) (ds_asks ?s) = ask_levels demo_book (L2Aggregator_init 10)"
    using snapshot_faithful [of "L2Aggregator_init 10" demo_book 9] c(2) by auto
  show ?thesis using n t [unfolded n] c(1) by simp
qed


text \<open>The L1 feed keeps exactly the last 1000 trades recorded, oldest first.\<close>

lemma trade_history_window:
  "l1_recent_trades (foldl (\<lambda>f (price, qty). record_trade price qty f) L1Feed_init trades) =
     drop (length trades - 1000) trades"
proof -
  have "l1_recent_trades (foldl (\<lambda>f (price, qty). record_trade price qty f) f trades) =
      foldl (\<lambda>q x. push_bounded MAX_TRADE_HISTORY x q) (l1_recent_trades f) trades" for f
    by (induction trades arbitrary: f) (auto simp: record_trade_def)
  from this [of L1Feed_init] show ?thesis
    using fold_push_bounded [of MAX_TRADE_HISTORY trades]
    by (simp add: L1Feed_init_def MAX_TRADE_HISTORY_def)
qed

end
