(* ===== verification/Matching.thy ===== *)
theory Matching
  imports Feeds Risk
begin

text \<open>
  \<^verbatim>\<open>src/market/matching_engine.hpp\<close> and \<^verbatim>\<open>.cpp\<close>: the order gateway over one book per symbol.

  \<^verbatim>\<open>symbols_\<close> is iterated, so it is an association list (its order stands for the unspecified order of
  the hash map).  The two lambdas \<^verbatim>\<open>add_symbol\<close> registers with a book are \<open>book_callback\<close>; they do not
  read the book, so an operation runs them on the calls the book operation returns.  Results of
  \<^verbatim>\<open>clock_.now()\<close> are arguments, in the order in which the code takes them.  The engine's own
  callbacks are flags, and an operation returns the calls it makes.
\<close>

section \<open>State\<close>

record SymbolState =
  ss_book :: L3OrderBook
  ss_l2 :: L2Aggregator
  ss_l1 :: L1Feed

record MatchingEngine =
  me_symbols :: "(Symbol \<times> SymbolState) list"
  me_order_symbol_index :: "OrderId \<rightharpoonup> Symbol"
  me_risk_engine :: "RiskEngine option"
  me_exec_cb :: bool
  me_trade_cb :: bool
  me_l1_cb :: bool
  me_l2_cb :: bool
  me_orders_processed :: "64 word"
  me_trades_generated :: "64 word"
  me_cancels_processed :: "64 word"
  me_rejects :: "64 word"

datatype engine_event =
  ExecOut ExecutionReport | TradeOut Trade | L1Out TopOfBook | L2Out DepthSnapshot

definition MatchingEngine_init :: MatchingEngine where
  "MatchingEngine_init = \<lparr>me_symbols = [], me_order_symbol_index = Map.empty,
     me_risk_engine = None, me_exec_cb = False, me_trade_cb = False, me_l1_cb = False,
     me_l2_cb = False, me_orders_processed = 0, me_trades_generated = 0,
     me_cancels_processed = 0, me_rejects = 0\<rparr>"

definition set_risk_engine :: "RiskEngine option \<Rightarrow> MatchingEngine \<Rightarrow> MatchingEngine" where
  "set_risk_engine risk me = me\<lparr>me_risk_engine := risk\<rparr>"

definition on_execution :: "MatchingEngine \<Rightarrow> MatchingEngine" where
  "on_execution me = me\<lparr>me_exec_cb := True\<rparr>"

definition engine_on_trade :: "MatchingEngine \<Rightarrow> MatchingEngine" where
  "engine_on_trade me = me\<lparr>me_trade_cb := True\<rparr>"

definition on_l1_update :: "MatchingEngine \<Rightarrow> MatchingEngine" where
  "on_l1_update me = me\<lparr>me_l1_cb := True\<rparr>"

definition on_l2_update :: "MatchingEngine \<Rightarrow> MatchingEngine" where
  "on_l2_update me = me\<lparr>me_l2_cb := True\<rparr>"

lemmas setters = set_risk_engine_def on_execution_def engine_on_trade_def on_l1_update_def
  on_l2_update_def

declare setters [simp]

definition total_orders_processed :: "MatchingEngine \<Rightarrow> 64 word" where
  "total_orders_processed me = me_orders_processed me"

definition engine_total_trades :: "MatchingEngine \<Rightarrow> 64 word" where
  "engine_total_trades me = me_trades_generated me"

definition total_cancels :: "MatchingEngine \<Rightarrow> 64 word" where
  "total_cancels me = me_cancels_processed me"

definition total_rejects :: "MatchingEngine \<Rightarrow> 64 word" where
  "total_rejects me = me_rejects me"

abbreviation find_symbol :: "MatchingEngine \<Rightarrow> Symbol \<Rightarrow> SymbolState option" where
  "find_symbol me symbol \<equiv> map_of (me_symbols me) symbol"

definition set_symbol :: "Symbol \<Rightarrow> SymbolState \<Rightarrow> MatchingEngine \<Rightarrow> MatchingEngine" where
  "set_symbol symbol st me = me\<lparr>me_symbols := AList.update symbol st (me_symbols me)\<rparr>"

section \<open>Symbols and queries\<close>

definition has_symbol :: "Symbol \<Rightarrow> MatchingEngine \<Rightarrow> bool" where
  "has_symbol symbol me \<longleftrightarrow> find_symbol me symbol \<noteq> None"

definition add_symbol :: "Symbol \<Rightarrow> MatchingEngine \<Rightarrow> MatchingEngine" where
  "add_symbol symbol me =
     (if has_symbol symbol me then me
      else set_symbol symbol
        \<lparr>ss_book = on_top_of_book (on_trade (L3OrderBook_init symbol)),
         ss_l2 = L2Aggregator_init DEFAULT_L2_DEPTH, ss_l1 = L1Feed_init\<rparr> me)"

definition add_symbol_id :: "string \<Rightarrow> MatchingEngine \<Rightarrow> MatchingEngine" where
  "add_symbol_id symbol me = add_symbol (Symbol_of symbol) me"

definition symbols :: "MatchingEngine \<Rightarrow> Symbol list" where
  "symbols me = map fst (me_symbols me)"

text \<open>The query copies the last top of book of the symbol's feed; it is undefined before the first
  update.\<close>

definition get_top_of_book :: "Symbol \<Rightarrow> MatchingEngine \<Rightarrow> TopOfBook option" where
  "get_top_of_book symbol me =
     (case find_symbol me symbol of None \<Rightarrow> Some TopOfBook_default | Some st \<Rightarrow> last_top (ss_l1 st))"

definition get_depth :: "Symbol \<Rightarrow> Timestamp \<Rightarrow> MatchingEngine \<Rightarrow> DepthSnapshot" where
  "get_depth symbol now me =
     (case find_symbol me symbol of
        None \<Rightarrow> DepthSnapshot_default | Some st \<Rightarrow> l2_snapshot (ss_book st) now (ss_l2 st))"

definition get_book :: "Symbol \<Rightarrow> MatchingEngine \<Rightarrow> L3OrderBook option" where
  "get_book symbol me = map_option ss_book (find_symbol me symbol)"

section \<open>Callbacks and publication\<close>

fun book_callback :: "book_event \<Rightarrow> MatchingEngine \<Rightarrow> MatchingEngine \<times> engine_event list" where
  "book_callback (TradeEv trade) me =
     (let me = me\<lparr>me_trades_generated := me_trades_generated me + 1\<rparr>;
          me = (case find_symbol me (t_symbol trade) of
                  None \<Rightarrow> me
                | Some st \<Rightarrow> set_symbol (t_symbol trade)
                    (st\<lparr>ss_l1 := record_trade (t_price trade) (t_qty trade) (ss_l1 st)\<rparr>) me)
      in (me, if me_trade_cb me then [TradeOut trade] else []))"
| "book_callback (TobEv tob) me = (me, if me_l1_cb me then [L1Out tob] else [])"

fun book_callbacks :: "book_event list \<Rightarrow> MatchingEngine \<Rightarrow> MatchingEngine \<times> engine_event list" where
  "book_callbacks [] me = (me, [])"
| "book_callbacks (ev # evs) me =
     (let (me, out) = book_callback ev me; (me, outs) = book_callbacks evs me in (me, out @ outs))"

definition exec_out :: "ExecutionReport \<Rightarrow> MatchingEngine \<Rightarrow> engine_event list" where
  "exec_out rpt me = (if me_exec_cb me then [ExecOut rpt] else [])"

definition publish_market_data :: "Symbol \<Rightarrow> Timestamp \<Rightarrow> MatchingEngine \<Rightarrow> MatchingEngine \<times> engine_event list" where
  "publish_market_data symbol ts me =
     (case find_symbol me symbol of
        None \<Rightarrow> (me, [])
      | Some st \<Rightarrow>
          (let (_, l1, _) = l1_update (ss_book st) ts (ss_l1 st)
           in (set_symbol symbol (st\<lparr>ss_l1 := l1\<rparr>) me,
               if me_l2_cb me then [L2Out (l2_snapshot (ss_book st) ts (ss_l2 st))] else [])))"

section \<open>Order processing\<close>

definition early_reject :: "Order \<Rightarrow> RejectReason \<Rightarrow> Timestamp \<Rightarrow> ExecutionReport" where
  "early_reject order reason ts = ExecutionReport_default
     \<lparr>r_order_id := o_id order, r_trader_id := o_trader_id order, r_symbol := o_symbol order,
      r_status := Rejected, r_reject_reason := reason, r_transact_time := ts\<rparr>"

text \<open>The part of \<^verbatim>\<open>process_new_order\<close> after the checks.\<close>

definition submit_to_book :: "Order \<Rightarrow> Timestamp \<Rightarrow> Timestamp \<Rightarrow> SymbolState \<Rightarrow> MatchingEngine
    \<Rightarrow> ExecutionReport \<times> MatchingEngine \<times> engine_event list" where
  "submit_to_book order ts ts' st me =
     (let (rpt, book, calls) = add_order (ss_book st) order ts;
          (me, outs) = book_callbacks calls (set_symbol (o_symbol order) (st\<lparr>ss_book := book\<rparr>) me);
          me = (if r_status rpt \<noteq> Rejected \<and> r_status rpt \<noteq> Filled
                then me\<lparr>me_order_symbol_index := (me_order_symbol_index me)(o_id order \<mapsto> o_symbol order)\<rparr>
                else me);
          me = (case me_risk_engine me of
                  None \<Rightarrow> me
                | Some risk \<Rightarrow>
                    if r_filled_qty rpt > 0
                    then me\<lparr>me_risk_engine := Some (on_fill (o_trader_id order) (o_symbol order)
                           (o_side order) (r_filled_qty rpt) (r_last_price rpt) risk)\<rparr>
                    else me);
          exec = exec_out rpt me;
          (me, md) = publish_market_data (o_symbol order) ts' me
      in (rpt, me, outs @ exec @ md))"

definition process_new_order :: "Order \<Rightarrow> Timestamp \<Rightarrow> Timestamp \<Rightarrow> MatchingEngine
    \<Rightarrow> ExecutionReport \<times> MatchingEngine \<times> engine_event list" where
  "process_new_order order ts ts' me =
     (let me = me\<lparr>me_orders_processed := me_orders_processed me + 1\<rparr>
      in case find_symbol me (o_symbol order) of
           None \<Rightarrow>
             (let rpt = early_reject order UnknownSymbol ts;
                  me = me\<lparr>me_rejects := me_rejects me + 1\<rparr>
              in (rpt, me, exec_out rpt me))
         | Some st \<Rightarrow>
             (case me_risk_engine me of
                None \<Rightarrow> submit_to_book order ts ts' st me
              | Some risk \<Rightarrow>
                  (let (reject, risk) = check_order order risk;
                       me = me\<lparr>me_risk_engine := Some risk\<rparr>
                   in if reject \<noteq> NoReason
                      then (let rpt = early_reject order reject ts;
                                me = me\<lparr>me_rejects := me_rejects me + 1\<rparr>
                            in (rpt, me, exec_out rpt me))
                      else submit_to_book order ts ts' st me)))"

definition process_cancel :: "CancelRequest \<Rightarrow> Timestamp \<Rightarrow> Timestamp \<Rightarrow> MatchingEngine
    \<Rightarrow> (ExecutionReport \<times> MatchingEngine \<times> engine_event list) option" where
  "process_cancel cancel ts ts' me =
     (let base = ExecutionReport_default\<lparr>r_order_id := c_order_id cancel, r_status := Rejected,
                   r_transact_time := ts\<rparr>
      in case (if c_symbol cancel = Symbol_default
               then me_order_symbol_index me (c_order_id cancel) else Some (c_symbol cancel)) of
           None \<Rightarrow> Some (base, me, [])
         | Some symbol \<Rightarrow>
             (case find_symbol me symbol of
                None \<Rightarrow> Some (base\<lparr>r_reject_reason := UnknownSymbol\<rparr>, me, [])
              | Some st \<Rightarrow>
                  (case cancel_order (ss_book st) (c_order_id cancel) ts of
                     None \<Rightarrow> None
                   | Some (rpt, book, calls) \<Rightarrow>
                       (let (me, outs) = book_callbacks calls (set_symbol symbol (st\<lparr>ss_book := book\<rparr>) me);
                            me = (if r_status rpt = Canceled
                                  then me\<lparr>me_cancels_processed := me_cancels_processed me + 1,
                                          me_order_symbol_index :=
                                            (me_order_symbol_index me)(c_order_id cancel := None)\<rparr>
                                  else me);
                            exec = exec_out rpt me;
                            (me, md) = publish_market_data symbol ts' me
                        in Some (rpt, me, outs @ exec @ md)))))"

definition process_replace :: "ReplaceRequest \<Rightarrow> Timestamp \<Rightarrow> Timestamp \<Rightarrow> MatchingEngine
    \<Rightarrow> (ExecutionReport \<times> MatchingEngine \<times> engine_event list) option" where
  "process_replace req ts ts' me =
     (case find_symbol me (p_symbol req) of
        None \<Rightarrow> Some (ExecutionReport_default\<lparr>r_order_id := p_order_id req, r_status := Rejected,
                   r_reject_reason := UnknownSymbol, r_transact_time := ts\<rparr>, me, [])
      | Some st \<Rightarrow>
          (case replace_order (ss_book st) req ts of
             None \<Rightarrow> None
           | Some (rpt, book, calls) \<Rightarrow>
               (let (me, outs) = book_callbacks calls (set_symbol (p_symbol req) (st\<lparr>ss_book := book\<rparr>) me);
                    exec = exec_out rpt me;
                    (me, md) = publish_market_data (p_symbol req) ts' me
                in Some (rpt, me, outs @ exec @ md))))"

section \<open>Lemmas on the symbol table\<close>

lemma find_set_symbol [simp]:
  "find_symbol (set_symbol s st me) u = (if u = s then Some st else find_symbol me u)"
  by (simp add: set_symbol_def update_conv')

lemma set_symbol_frame [simp]:
  "me_order_symbol_index (set_symbol s st me) = me_order_symbol_index me"
  "me_risk_engine (set_symbol s st me) = me_risk_engine me"
  "me_trades_generated (set_symbol s st me) = me_trades_generated me"
  "me_orders_processed (set_symbol s st me) = me_orders_processed me"
  "me_cancels_processed (set_symbol s st me) = me_cancels_processed me"
  "me_rejects (set_symbol s st me) = me_rejects me"
  "me_exec_cb (set_symbol s st me) = me_exec_cb me" "me_trade_cb (set_symbol s st me) = me_trade_cb me"
  "me_l1_cb (set_symbol s st me) = me_l1_cb me" "me_l2_cb (set_symbol s st me) = me_l2_cb me"
  by (simp_all add: set_symbol_def)

lemma distinct_set_symbol [simp]:
  "distinct (map fst (me_symbols me)) \<Longrightarrow> distinct (map fst (me_symbols (set_symbol s st me)))"
  by (simp add: set_symbol_def distinct_update)

section \<open>The effect of the book callbacks\<close>

text \<open>What the callbacks and the publication leave alone: the books and the depth settings.\<close>

definition same_books :: "MatchingEngine \<Rightarrow> MatchingEngine \<Rightarrow> bool" where
  "same_books me me' \<longleftrightarrow>
     map (\<lambda>(s, st). (s, ss_book st, ss_l2 st)) (me_symbols me) =
     map (\<lambda>(s, st). (s, ss_book st, ss_l2 st)) (me_symbols me') \<and>
     ((\<forall>(s, st) \<in> set (me_symbols me). l1_ok (ss_l1 st)) \<longrightarrow>
      (\<forall>(s, st) \<in> set (me_symbols me'). l1_ok (ss_l1 st))) \<and>
     me_order_symbol_index me' = me_order_symbol_index me \<and>
     me_risk_engine me' = me_risk_engine me \<and>
     me_orders_processed me' = me_orders_processed me \<and>
     me_cancels_processed me' = me_cancels_processed me \<and> me_rejects me' = me_rejects me"

lemma same_books_refl [simp]: "same_books me me"
  by (simp add: same_books_def)

lemma same_books_trans: "same_books a b \<Longrightarrow> same_books b c \<Longrightarrow> same_books a c"
  by (simp add: same_books_def)

end
