(* ===== verification/MatchingSystem.thy ===== *)
theory MatchingSystem
  imports Matching RiskProperties
begin

text \<open>
  The engine as a system: its invariant over every sequence of operations, the routing of cancels,
  and how it combines the risk engine with the books.
\<close>

section \<open>Callbacks and publication keep the books\<close>

lemma update_view:
  assumes "map_of al s = Some st" and "f st' = f st"
  shows "map (\<lambda>(k, v). (k, f v)) (AList.update s st' al) = map (\<lambda>(k, v). (k, f v)) al"
  using assms by (induction al) (auto split: if_splits)

lemma set_l1_same:
  assumes "find_symbol me s = Some st" and "l1_ok (ss_l1 st) \<Longrightarrow> l1_ok l1"
  shows "same_books me (set_symbol s (st\<lparr>ss_l1 := l1\<rparr>) me)"
proof -
  have "map (\<lambda>(k, v). (k, (ss_book v, ss_l2 v))) (AList.update s (st\<lparr>ss_l1 := l1\<rparr>) (me_symbols me)) =
      map (\<lambda>(k, v). (k, (ss_book v, ss_l2 v))) (me_symbols me)"
    using update_view [OF assms(1), of "\<lambda>v. (ss_book v, ss_l2 v)"] by simp
  moreover have "(s, st) \<in> set (me_symbols me)" using assms(1) by (rule map_of_SomeD)
  moreover note update_subset [of s "st\<lparr>ss_l1 := l1\<rparr>" "me_symbols me"]
  ultimately show ?thesis using assms(2) by (fastforce simp: same_books_def set_symbol_def)
qed


lemma trades_generated_same [simp]:
  "same_books (me\<lparr>me_trades_generated := n\<rparr>) me' = same_books me me'"
  by (simp add: same_books_def)

lemma book_callback_same:
  assumes "book_callback ev me = (me', out)"
  shows "same_books me me' \<and> me_trades_generated me' =
    me_trades_generated me + of_nat (length (trade_events [ev]))"
proof (cases ev)
  case (TradeEv trade)
  show ?thesis
  proof (cases "find_symbol me (t_symbol trade)")
    case None
    then show ?thesis using assms TradeEv by (auto simp: Let_def same_books_def trade_events_def)
  next
    case (Some st)
    let ?me = "me\<lparr>me_trades_generated := me_trades_generated me + 1\<rparr>"
    have "same_books ?me (set_symbol (t_symbol trade)
        (st\<lparr>ss_l1 := record_trade (t_price trade) (t_qty trade) (ss_l1 st)\<rparr>) ?me)"
      using Some by (intro set_l1_same) simp_all
    then show ?thesis using assms TradeEv Some by (auto simp: Let_def trade_events_def)
  qed
next
  case (TobEv tob)
  then show ?thesis using assms by (auto simp: trade_events_def)
qed

lemma book_callbacks_same:
  "book_callbacks evs me = (me', outs) \<Longrightarrow> same_books me me' \<and> me_trades_generated me' =
    me_trades_generated me + of_nat (length (trade_events evs))"
proof (induction evs me arbitrary: me' outs rule: book_callbacks.induct)
  case (2 ev evs me)
  obtain me1 out where e: "book_callback ev me = (me1, out)" by (metis surj_pair)
  obtain me2 outs2 where es: "book_callbacks evs me1 = (me2, outs2)" by (metis surj_pair)
  have "me' = me2" using 2(2) e es by (simp add: Let_def)
  moreover have "trade_events (ev # evs) = trade_events [ev] @ trade_events evs"
    by (simp add: trade_events_def)
  ultimately show ?case
    using book_callback_same [OF e] 2(1) [OF e [symmetric] refl es]
    by (auto simp: add.assoc intro: same_books_trans)
qed simp

lemma publish_same:
  assumes "publish_market_data s ts me = (me', outs)"
  shows "same_books me me' \<and> me_trades_generated me' = me_trades_generated me"
proof (cases "find_symbol me s")
  case None
  then show ?thesis using assms by (simp add: publish_market_data_def)
next
  case (Some st)
  have "same_books me (set_symbol s (st\<lparr>ss_l1 := fst (snd (l1_update (ss_book st) ts (ss_l1 st)))\<rparr>) me)"
    using Some by (intro set_l1_same) simp_all
  then show ?thesis
    using assms Some
    by (auto simp: publish_market_data_def Let_def split: prod.splits)
qed

lemma same_books_find:
  assumes "same_books me me'"
  shows "map_option (\<lambda>st. (ss_book st, ss_l2 st)) (find_symbol me' s) =
    map_option (\<lambda>st. (ss_book st, ss_l2 st)) (find_symbol me s)"
proof -
  have "map_of (map (\<lambda>(k, v). (k, f v)) al) s = map_option f (map_of al s)" for f :: "'c \<Rightarrow> 'd" and al s
    by (induction al) auto
  note view = this [of "\<lambda>st. (ss_book st, ss_l2 st)"]
  have "map (\<lambda>(k, v). (k, ss_book v, ss_l2 v)) (me_symbols me) =
      map (\<lambda>(k, v). (k, ss_book v, ss_l2 v)) (me_symbols me')"
    using assms by (simp add: same_books_def)
  from arg_cong [OF this, where f = "\<lambda>al. map_of al s"] show ?thesis by (simp only: view)
qed

section \<open>The invariant\<close>

definition books_ok :: "(Symbol \<times> L3OrderBook \<times> L2Aggregator) list \<Rightarrow> bool" where
  "books_ok bs \<longleftrightarrow> distinct (map fst bs) \<and>
     (\<forall>(s, b, l2) \<in> set bs. l3_reachable b \<and> bk_symbol b = s \<and> bk_trade_cb b \<and> l2_ok l2)"

definition books_view :: "MatchingEngine \<Rightarrow> (Symbol \<times> L3OrderBook \<times> L2Aggregator) list" where
  "books_view me = map (\<lambda>(s, st). (s, ss_book st, ss_l2 st)) (me_symbols me)"

definition trade_total :: "MatchingEngine \<Rightarrow> 64 word" where
  "trade_total me = (\<Sum>(s, b, l2)\<leftarrow>books_view me. bk_trade_count b)"

definition me_inv :: "MatchingEngine \<Rightarrow> bool" where
  "me_inv me \<longleftrightarrow> books_ok (books_view me) \<and> (\<forall>(s, st) \<in> set (me_symbols me). l1_ok (ss_l1 st)) \<and>
     me_trades_generated me = trade_total me"

lemma same_view: "same_books me me' \<Longrightarrow> books_view me' = books_view me \<and>
    ((\<forall>(s, st) \<in> set (me_symbols me). l1_ok (ss_l1 st)) \<longrightarrow>
     (\<forall>(s, st) \<in> set (me_symbols me'). l1_ok (ss_l1 st)))"
  by (simp add: same_books_def books_view_def)

lemma me_inv_same:
  "same_books me me' \<Longrightarrow> me_inv me \<Longrightarrow> me_trades_generated me' = me_trades_generated me \<Longrightarrow> me_inv me'"
  using same_view [of me me'] by (simp add: me_inv_def trade_total_def)

lemma me_inv_find:
  assumes "me_inv me" and "find_symbol me s = Some st"
  shows "l3_reachable (ss_book st)" "bk_symbol (ss_book st) = s" "bk_trade_cb (ss_book st)"
    "l2_ok (ss_l2 st)" "l1_ok (ss_l1 st)" "l3_inv (ss_book st)"
proof -
  have m: "(s, st) \<in> set (me_symbols me)" using assms(2) by (rule map_of_SomeD)
  then have "(s, ss_book st, ss_l2 st) \<in> set (books_view me)" by (force simp: books_view_def)
  then show "l3_reachable (ss_book st)" "bk_symbol (ss_book st) = s" "bk_trade_cb (ss_book st)"
    "l2_ok (ss_l2 st)"
    using assms(1) by (auto simp: me_inv_def books_ok_def)
  then show "l3_inv (ss_book st)" by (blast intro: l3.reachable_inv)
  show "l1_ok (ss_l1 st)" using assms(1) m by (auto simp: me_inv_def)
qed

text \<open>A book operation in the engine, with the callbacks it makes.\<close>

lemma book_operation:
  assumes inv: "me_inv me" and st: "find_symbol me s = Some st"
    and step: "l3_reachable book" "bk_symbol book = s" "bk_trade_cb book"
      "bk_trade_count book = bk_trade_count (ss_book st) + of_nat (length (trade_events calls))"
    and cb: "book_callbacks calls (set_symbol s (st\<lparr>ss_book := book\<rparr>) me) = (me', outs)"
  shows "me_inv me'"
proof -
  let ?me = "set_symbol s (st\<lparr>ss_book := book\<rparr>) me"
  note same = book_callbacks_same [OF cb]
  have distinct: "distinct (map fst (me_symbols me))"
    using inv by (simp add: me_inv_def books_ok_def books_view_def comp_def case_prod_unfold)
  have "(\<Sum>(k, v)\<leftarrow>me_symbols ?me. bk_trade_count (ss_book v)) =
      (\<Sum>(k, v)\<leftarrow>me_symbols me. bk_trade_count (ss_book v)) + of_nat (length (trade_events calls))"
    using sum_update [OF distinct, of "\<lambda>v. bk_trade_count (ss_book v)" s "st\<lparr>ss_book := book\<rparr>"] st step(4)
    by (simp add: set_symbol_def)
  then have total: "trade_total ?me = trade_total me + of_nat (length (trade_events calls))"
    by (simp add: trade_total_def books_view_def comp_def case_prod_unfold)
  note sub = update_subset [of s "st\<lparr>ss_book := book\<rparr>" "me_symbols me"]
  have "books_ok (books_view ?me)"
  proof -
    have "distinct (map fst (books_view ?me))"
      using distinct_set_symbol [OF distinct] by (simp add: books_view_def comp_def case_prod_unfold)
    moreover have "l3_reachable b \<and> bk_symbol b = k \<and> bk_trade_cb b \<and> l2_ok l2"
      if view: "(k, b, l2) \<in> set (books_view ?me)" for k b l2
    proof -
      obtain v where v: "(k, v) \<in> set (me_symbols ?me)" "b = ss_book v" "l2 = ss_l2 v"
        using view unfolding books_view_def by force
      then have "k = s \<and> v = st\<lparr>ss_book := book\<rparr> \<or> (k, v) \<in> set (me_symbols me)"
        using sub by (auto simp: set_symbol_def)
      then show ?thesis
      proof
        assume "k = s \<and> v = st\<lparr>ss_book := book\<rparr>"
        then show ?thesis using step v me_inv_find(4) [OF inv st] by simp
      next
        assume "(k, v) \<in> set (me_symbols me)"
        then have "(k, b, l2) \<in> set (books_view me)" using v by (force simp: books_view_def)
        then show ?thesis using inv by (auto simp: me_inv_def books_ok_def)
      qed
    qed
    ultimately show ?thesis unfolding books_ok_def by blast
  qed
  moreover have "\<forall>(k, v) \<in> set (me_symbols ?me). l1_ok (ss_l1 v)"
    using sub inv me_inv_find(5) [OF inv st] by (fastforce simp: me_inv_def set_symbol_def)
  ultimately show ?thesis
    using same same_view [of ?me me'] total inv by (simp add: me_inv_def trade_total_def)
qed

lemma add_order_frame:
  assumes "l3_inv b" and "order_typed inc" and "bk_trade_cb b" and "add_order b inc ts = (rpt, b', calls)"
  shows "bk_symbol b' = bk_symbol b" "bk_trade_cb b'"
    "bk_trade_count b' = bk_trade_count b + of_nat (length (trade_events calls))"
proof -
  obtain r kept fs where "trade_events calls = trades_of b inc ts fs"
    "bk_trade_count b' = bk_trade_count b + of_nat (length fs)"
    using add_order_trades [OF assms] by metis
  then show "bk_trade_count b' = bk_trade_count b + of_nat (length (trade_events calls))"
    by (simp add: trades_of_fields)
  have "bk_symbol b' = bk_symbol b \<and> bk_trade_cb b' = bk_trade_cb b"
    by (cases rule: add_order_effect [OF assms(1,2,4)]) (simp_all add: set_opposite_def split: Side.split)
  then show "bk_symbol b' = bk_symbol b" "bk_trade_cb b'" using assms(3) by simp_all
qed

lemma cancel_order_frame:
  assumes "l3_inv b" and "cancel_order b i ts = Some (rpt, b', calls)"
  shows "bk_symbol b' = bk_symbol b" "bk_trade_cb b' = bk_trade_cb b"
    "bk_trade_count b' = bk_trade_count b" "trade_events calls = []"
  by (cases rule: cancel_order_cases [OF assms(1), of i ts]; use assms(2) in auto)+

lemma replace_order_frame:
  assumes "l3_inv b" and "replace_typed req" and "bk_trade_cb b"
    and "replace_order b req ts = Some (rpt, b', calls)"
  shows "bk_symbol b' = bk_symbol b" "bk_trade_cb b'"
    "bk_trade_count b' = bk_trade_count b + of_nat (length (trade_events calls))"
proof -
  have "bk_symbol b' = bk_symbol b \<and> bk_trade_cb b' \<and>
    bk_trade_count b' = bk_trade_count b + of_nat (length (trade_events calls))"
  proof (cases rule: replace_order_cases [OF assms(1), of req ts])
    case 1
    then show ?thesis using assms by simp
  next
    case (2 n rpt2 b2 calls2)
    have "bk_trade_cb (cancelled n b)" using assms(3) by simp
    from add_order_frame [OF cancelled_preserves [OF assms(1) 2(1)] replacement_typed [OF assms(2)] this 2(3)]
    show ?thesis using 2(4) assms(4) by simp
  qed
  then show "bk_symbol b' = bk_symbol b" "bk_trade_cb b'"
    "bk_trade_count b' = bk_trade_count b + of_nat (length (trade_events calls))" by blast+
qed


section \<open>Every operation keeps the invariant\<close>

lemma me_inv_update [simp]:
  "me_inv (me\<lparr>me_orders_processed := n\<rparr>) = me_inv me" "me_inv (me\<lparr>me_rejects := n\<rparr>) = me_inv me"
  "me_inv (me\<lparr>me_cancels_processed := n\<rparr>) = me_inv me"
  "me_inv (me\<lparr>me_order_symbol_index := idx\<rparr>) = me_inv me"
  "me_inv (me\<lparr>me_risk_engine := r\<rparr>) = me_inv me"
  "me_inv (me\<lparr>me_exec_cb := c1\<rparr>) = me_inv me" "me_inv (me\<lparr>me_trade_cb := c1\<rparr>) = me_inv me"
  "me_inv (me\<lparr>me_l1_cb := c1\<rparr>) = me_inv me" "me_inv (me\<lparr>me_l2_cb := c1\<rparr>) = me_inv me"
  by (simp_all add: me_inv_def trade_total_def books_view_def)

lemma publish_inv:
  "me_inv me \<Longrightarrow> publish_market_data s ts me = (me', outs) \<Longrightarrow> me_inv me'"
  using publish_same me_inv_same by blast

text \<open>The courses of the operations.\<close>

definition after_submit :: "Order \<Rightarrow> ExecutionReport \<Rightarrow> MatchingEngine \<Rightarrow> MatchingEngine" where
  "after_submit order rpt me =
     (let me = (if r_status rpt \<noteq> Rejected \<and> r_status rpt \<noteq> Filled
                then me\<lparr>me_order_symbol_index := (me_order_symbol_index me)(o_id order \<mapsto> o_symbol order)\<rparr>
                else me)
      in case me_risk_engine me of
           None \<Rightarrow> me
         | Some risk \<Rightarrow>
             if r_filled_qty rpt > 0
             then me\<lparr>me_risk_engine := Some (on_fill (o_trader_id order) (o_symbol order)
                    (o_side order) (r_filled_qty rpt) (r_last_price rpt) risk)\<rparr>
             else me)"

lemma submit_cases:
  assumes "submit_to_book order ts ts' st me = (rpt, me', outs)"
  obtains book calls me1 outs1 outs2 where "add_order (ss_book st) order ts = (rpt, book, calls)"
    "book_callbacks calls (set_symbol (o_symbol order) (st\<lparr>ss_book := book\<rparr>) me) = (me1, outs1)"
    "publish_market_data (o_symbol order) ts' (after_submit order rpt me1) = (me', outs2)"
proof -
  obtain r book calls where add: "add_order (ss_book st) order ts = (r, book, calls)"
    by (metis prod_cases3)
  obtain me1 outs1 where cb: "book_callbacks calls (set_symbol (o_symbol order)
      (st\<lparr>ss_book := book\<rparr>) me) = (me1, outs1)" by (metis surj_pair)
  obtain me2 outs2 where pub:
    "publish_market_data (o_symbol order) ts' (after_submit order r me1) = (me2, outs2)"
    by (metis surj_pair)
  have "r = rpt" "me2 = me'"
    using assms add cb pub by (simp_all add: submit_to_book_def after_submit_def Let_def)
  then show thesis using that add cb pub by blast
qed

lemma process_new_order_cases:
  assumes "process_new_order order ts ts' me = (rpt, me', outs)"
  obtains (unknown) "find_symbol me (o_symbol order) = None" "rpt = early_reject order UnknownSymbol ts"
      "me' = me\<lparr>me_orders_processed := me_orders_processed me + 1, me_rejects := me_rejects me + 1\<rparr>"
  | (risk_reject) st risk reject risk' where "find_symbol me (o_symbol order) = Some st"
      "me_risk_engine me = Some risk" "check_order order risk = (reject, risk')" "reject \<noteq> NoReason"
      "rpt = early_reject order reject ts"
      "me' = me\<lparr>me_orders_processed := me_orders_processed me + 1, me_risk_engine := Some risk',
                me_rejects := me_rejects me + 1\<rparr>"
  | (submitted) st risk where "find_symbol me (o_symbol order) = Some st"
      "(case me_risk_engine me of None \<Rightarrow> risk = None
        | Some r \<Rightarrow> (\<exists>r'. check_order order r = (NoReason, r') \<and> risk = Some r'))"
      "submit_to_book order ts ts' st
         (me\<lparr>me_orders_processed := me_orders_processed me + 1, me_risk_engine := risk\<rparr>) = (rpt, me', outs)"
proof (cases "find_symbol me (o_symbol order)")
  case None
  then show thesis using assms unknown by (simp add: process_new_order_def Let_def)
next
  case (Some st)
  let ?me = "me\<lparr>me_orders_processed := me_orders_processed me + 1\<rparr>"
  show thesis
  proof (cases "me_risk_engine me")
    case None
    have eq: "?me\<lparr>me_risk_engine := None\<rparr> = ?me" by (cases me) (use None in simp)
    have "submit_to_book order ts ts' st ?me = (rpt, me', outs)"
      using assms Some None by (simp add: process_new_order_def Let_def)
    then have "submit_to_book order ts ts' st (?me\<lparr>me_risk_engine := None\<rparr>) = (rpt, me', outs)"
      by (simp only: eq)
    then show thesis using submitted [OF Some, of None] None by simp
  next
    case risk: (Some risk)
    obtain reject risk' where c: "check_order order risk = (reject, risk')" by (metis surj_pair)
    show thesis
    proof (cases "reject = NoReason")
      case True
      then show thesis using submitted [OF Some, of "Some risk'"] assms Some risk c
        by (simp add: process_new_order_def Let_def)
    next
      case False
      then show thesis using risk_reject [OF Some risk c] assms Some risk c
        by (simp add: process_new_order_def Let_def)
    qed
  qed
qed

lemma after_submit_frame [simp]:
  "me_inv (after_submit order rpt me) = me_inv me" "me_symbols (after_submit order rpt me) = me_symbols me"
  "me_order_symbol_index (after_submit order rpt me) =
     (if r_status rpt \<noteq> Rejected \<and> r_status rpt \<noteq> Filled
      then (me_order_symbol_index me)(o_id order \<mapsto> o_symbol order) else me_order_symbol_index me)"
  "me_risk_engine (after_submit order rpt me) = map_option (\<lambda>risk. if r_filled_qty rpt > 0
     then on_fill (o_trader_id order) (o_symbol order) (o_side order) (r_filled_qty rpt) (r_last_price rpt) risk
     else risk) (me_risk_engine me)"
  by (simp_all add: after_submit_def Let_def split: option.split)

lemma submit_inv:
  assumes inv: "me_inv me" and st: "find_symbol me (o_symbol order) = Some st"
    and typed: "order_typed order" and sub: "submit_to_book order ts ts' st me = (rpt, me', outs)"
  shows "me_inv me'"
proof -
  note b = me_inv_find [OF inv st]
  obtain book calls me1 outs1 outs2 where add: "add_order (ss_book st) order ts = (rpt, book, calls)"
    and cb: "book_callbacks calls (set_symbol (o_symbol order) (st\<lparr>ss_book := book\<rparr>) me) = (me1, outs1)"
    and pub: "publish_market_data (o_symbol order) ts' (after_submit order rpt me1) = (me', outs2)"
    using submit_cases [OF sub] .
  note f = add_order_frame [OF b(6) typed b(3) add]
  have "l3_reachable book" using b(1) l3_step.add [OF typed add] by (rule reachable_step)
  from book_operation [OF inv st this _ f(2,3) cb] f(1) b(2) have "me_inv me1" by simp
  then show ?thesis using publish_inv [OF _ pub] by simp
qed

lemma process_new_order_inv:
  assumes "me_inv me" and "order_typed order" and "process_new_order order ts ts' me = (rpt, me', outs)"
  shows "me_inv me'"
proof (cases rule: process_new_order_cases [OF assms(3)])
  case (3 st risk)
  then show ?thesis using submit_inv [OF _ _ assms(2) 3(3)] assms(1) by simp
qed (simp_all add: assms(1))

text \<open>The course of a cancel that reaches a book.\<close>

definition cancel_target :: "CancelRequest \<Rightarrow> MatchingEngine \<Rightarrow> Symbol option" where
  "cancel_target cancel me =
     (if c_symbol cancel = Symbol_default then me_order_symbol_index me (c_order_id cancel)
      else Some (c_symbol cancel))"

lemma process_cancel_total:
  assumes "me_inv me"
  shows "process_cancel cancel ts ts' me \<noteq> None"
proof (cases "cancel_target cancel me")
  case None
  then show ?thesis by (auto simp: process_cancel_def cancel_target_def Let_def)
next
  case target: (Some s)
  show ?thesis
  proof (cases "find_symbol me s")
    case None
    then show ?thesis using target by (auto simp: process_cancel_def cancel_target_def Let_def)
  next
    case (Some st)
    obtain rpt book calls where "cancel_order (ss_book st) (c_order_id cancel) ts = Some (rpt, book, calls)"
      using cancel_never_dangles [OF me_inv_find(6) [OF assms Some]] by (metis not_Some_eq prod_cases3)
    then show ?thesis using target Some
      by (auto simp: process_cancel_def cancel_target_def Let_def split: prod.splits)
  qed
qed

lemma process_replace_total:
  assumes "me_inv me"
  shows "process_replace req ts ts' me \<noteq> None"
proof (cases "find_symbol me (p_symbol req)")
  case (Some st)
  obtain rpt book calls where "replace_order (ss_book st) req ts = Some (rpt, book, calls)"
    using replace_never_dangles [OF me_inv_find(6) [OF assms Some]] by (metis not_Some_eq prod_cases3)
  then show ?thesis using Some by (auto simp: process_replace_def Let_def split: prod.splits)
qed (simp add: process_replace_def)

lemma process_cancel_cases:
  assumes "process_cancel cancel ts ts' me = Some (rpt, me', outs)"
  obtains (unrouted) "me' = me" "r_status rpt = Rejected"
      "cancel_target cancel me = None \<or> (\<exists>s. cancel_target cancel me = Some s \<and> find_symbol me s = None)"
  | (routed) s st book calls me1 outs1 outs2 where "cancel_target cancel me = Some s"
      "find_symbol me s = Some st"
      "cancel_order (ss_book st) (c_order_id cancel) ts = Some (rpt, book, calls)"
      "book_callbacks calls (set_symbol s (st\<lparr>ss_book := book\<rparr>) me) = (me1, outs1)"
      "publish_market_data s ts' (if r_status rpt = Canceled
         then me1\<lparr>me_cancels_processed := me_cancels_processed me1 + 1,
                  me_order_symbol_index := (me_order_symbol_index me1)(c_order_id cancel := None)\<rparr>
         else me1) = (me', outs2)"
proof (cases "cancel_target cancel me")
  case None
  then show thesis using assms unrouted
    by (auto simp: process_cancel_def cancel_target_def Let_def split: if_splits)
next
  case target: (Some s)
  show thesis
  proof (cases "find_symbol me s")
    case None
    then show thesis using assms unrouted target
      by (auto simp: process_cancel_def cancel_target_def Let_def split: if_splits)
  next
    case (Some st)
    then show thesis
      using assms target
      by (auto simp: process_cancel_def cancel_target_def Let_def
          split: prod.splits option.splits if_splits intro!: routed [OF target Some])
  qed
qed

lemma process_cancel_inv:
  assumes inv: "me_inv me" and c: "process_cancel cancel ts ts' me = Some (rpt, me', outs)"
  shows "me_inv me'"
proof (cases rule: process_cancel_cases [OF c])
  case 1
  then show ?thesis using inv by simp
next
  case (2 s st book calls me1 outs1 outs2)
  note b = me_inv_find [OF inv 2(2)]
  note f = cancel_order_frame [OF b(6) 2(3)]
  have "l3_reachable book" using b(1) l3_step.cancel [OF 2(3)] by (rule reachable_step)
  from book_operation [OF inv 2(2) this _ _ _ 2(4)] f b(2,3) have "me_inv me1" by simp
  then show ?thesis using publish_inv [OF _ 2(5)] by auto
qed

lemma process_replace_cases:
  assumes "process_replace req ts ts' me = Some (rpt, me', outs)"
  obtains (unknown) "me' = me" "r_status rpt = Rejected" "find_symbol me (p_symbol req) = None"
  | (routed) st book calls me1 outs1 outs2 where "find_symbol me (p_symbol req) = Some st"
      "replace_order (ss_book st) req ts = Some (rpt, book, calls)"
      "book_callbacks calls (set_symbol (p_symbol req) (st\<lparr>ss_book := book\<rparr>) me) = (me1, outs1)"
      "publish_market_data (p_symbol req) ts' me1 = (me', outs2)"
proof (cases "find_symbol me (p_symbol req)")
  case None
  then show thesis using assms unknown by (auto simp: process_replace_def)
next
  case (Some st)
  then show thesis
    using assms by (auto simp: process_replace_def Let_def split: prod.splits option.splits
        intro!: routed [OF Some])
qed

lemma process_replace_inv:
  assumes inv: "me_inv me" and typed: "replace_typed req"
    and c: "process_replace req ts ts' me = Some (rpt, me', outs)"
  shows "me_inv me'"
proof (cases rule: process_replace_cases [OF c])
  case 1
  then show ?thesis using inv by simp
next
  case (2 st book calls me1 outs1 outs2)
  note b = me_inv_find [OF inv 2(1)]
  note f = replace_order_frame [OF b(6) typed b(3) 2(2)]
  have "l3_reachable book" using b(1) l3_step.replace [OF typed 2(2)] by (rule reachable_step)
  from book_operation [OF inv 2(1) this _ f(2,3) 2(3)] f(1) b(2) have "me_inv me1" by simp
  then show ?thesis using publish_inv [OF _ 2(4)] by auto
qed

lemma add_symbol_inv: "me_inv me \<Longrightarrow> me_inv (add_symbol symbol me)"
proof (cases "has_symbol symbol me")
  case False
  assume inv: "me_inv me"
  let ?st = "\<lparr>ss_book = on_top_of_book (on_trade (L3OrderBook_init symbol)),
         ss_l2 = L2Aggregator_init DEFAULT_L2_DEPTH, ss_l1 = L1Feed_init\<rparr>"
  have none: "map_of (me_symbols me) symbol = None" using False by (simp add: has_symbol_def)
  have update: "AList.update symbol v al = al @ [(symbol, v)]" if "map_of al symbol = None" for v :: SymbolState and al
    using that by (induction al) (auto split: if_splits)
  have "l3_reachable (L3OrderBook_init symbol)"
    by (rule reachable_init) (simp add: l3_initial_def L3OrderBook_init_def)
  then have "l3_reachable (ss_book ?st)"
    by (simp) (meson l3_step.tob_cb l3_step.trade_cb reachable_step)
  moreover have "symbol \<notin> fst ` set (books_view me)"
    using none by (force simp: books_view_def map_of_eq_None_iff)
  ultimately show ?thesis
    using inv False update [OF none, of ?st]
    by (auto simp: me_inv_def books_ok_def books_view_def add_symbol_def set_symbol_def trade_total_def
        on_top_of_book_def on_trade_def L3OrderBook_init_def)
qed (simp add: add_symbol_def)

section \<open>Reachable engines\<close>

datatype me_op =
  AddSymbol Symbol | NewOrder Order Timestamp Timestamp | CancelOrder CancelRequest Timestamp Timestamp
| ReplaceOrder ReplaceRequest Timestamp Timestamp | BindRisk "RiskEngine option" | RiskOp risk_op
| OnExecution | OnTrade | OnL1 | OnL2

fun me_exec :: "me_op \<Rightarrow> MatchingEngine \<Rightarrow> MatchingEngine option" where
  "me_exec (AddSymbol s) me = Some (add_symbol s me)"
| "me_exec (NewOrder order ts ts') me = Some (fst (snd (process_new_order order ts ts' me)))"
| "me_exec (CancelOrder cancel ts ts') me = map_option (fst \<circ> snd) (process_cancel cancel ts ts' me)"
| "me_exec (ReplaceOrder req ts ts') me = map_option (fst \<circ> snd) (process_replace req ts ts' me)"
| "me_exec (BindRisk r) me = Some (set_risk_engine r me)"
| "me_exec (RiskOp op) me = Some (me\<lparr>me_risk_engine := map_option (risk_exec op) (me_risk_engine me)\<rparr>)"
| "me_exec OnExecution me = Some (on_execution me)"
| "me_exec OnTrade me = Some (engine_on_trade me)"
| "me_exec OnL1 me = Some (on_l1_update me)"
| "me_exec OnL2 me = Some (on_l2_update me)"

fun op_typed :: "me_op \<Rightarrow> bool" where
  "op_typed (NewOrder order ts ts') = order_typed order"
| "op_typed (ReplaceOrder req ts ts') = replace_typed req"
| "op_typed _ = True"

definition me_step :: "MatchingEngine \<Rightarrow> MatchingEngine \<Rightarrow> bool" where
  "me_step me me' \<longleftrightarrow> (\<exists>op. op_typed op \<and> me_exec op me = Some me')"

lemma me_step_inv: "me_inv me \<Longrightarrow> op_typed op \<Longrightarrow> me_exec op me = Some me' \<Longrightarrow> me_inv me'"
proof (cases op)
  case (NewOrder order ts ts')
  assume "me_inv me" "op_typed op" "me_exec op me = Some me'"
  then show ?thesis
    using NewOrder process_new_order_inv [of me order ts ts'] by (metis fst_conv me_exec.simps(2) op_typed.simps(1) option.inject prod.collapse)
next
  case (CancelOrder c ts ts')
  assume "me_inv me" "op_typed op" "me_exec op me = Some me'"
  then show ?thesis using CancelOrder process_cancel_inv [of me c ts ts'] by auto
next
  case (ReplaceOrder c ts ts')
  assume "me_inv me" "op_typed op" "me_exec op me = Some me'"
  then show ?thesis using ReplaceOrder process_replace_inv [of me c ts ts'] by auto
qed (auto intro: add_symbol_inv)

interpretation engine: invariant_system "\<lambda>me. me = MatchingEngine_init" me_step me_inv
proof
  show "me_inv s" if "s = MatchingEngine_init" for s
    using that by (simp add: me_inv_def books_ok_def books_view_def trade_total_def MatchingEngine_init_def)
  show "me_inv t" if "me_inv s" "me_step s t" for s t
    using that me_step_inv unfolding me_step_def by blast
qed

abbreviation me_reachable :: "MatchingEngine \<Rightarrow> bool" where
  "me_reachable \<equiv> reachable (\<lambda>me. me = MatchingEngine_init) me_step"

end
