(* ===== verification/MatchingRouting.thy ===== *)
theory MatchingRouting
  imports MatchingSystem
begin

text \<open>
  Properties of the engine: it routes an order to exactly one book after the risk engine's verdict,
  it never undoes a book's invariant, it routes cancels that carry no symbol, and it reports the
  fills of the aggressor to the risk engine.
\<close>

section \<open>Books of an engine\<close>

lemma same_books_book: "same_books me me' \<Longrightarrow> get_book s me' = get_book s me"
  using arg_cong [OF same_books_find [of me me' s], where f = "map_option fst"]
  by (simp add: get_book_def option.map_comp comp_def)

lemma get_book_set [simp]:
  "get_book u (set_symbol s st me) = (if u = s then Some (ss_book st) else get_book u me)"
  by (simp add: get_book_def)

lemma get_book_update [simp]:
  "get_book u (me\<lparr>me_orders_processed := n\<rparr>) = get_book u me" "get_book u (me\<lparr>me_rejects := n\<rparr>) = get_book u me"
  "get_book u (me\<lparr>me_cancels_processed := n\<rparr>) = get_book u me"
  "get_book u (me\<lparr>me_order_symbol_index := idx\<rparr>) = get_book u me"
  "get_book u (me\<lparr>me_risk_engine := r\<rparr>) = get_book u me"
  "get_book u (after_submit order rpt me) = get_book u me"
  by (simp_all add: get_book_def)

text \<open>What a book operation, its callbacks and the publication leave of the other parts.\<close>

lemma callbacks_books:
  assumes "book_callbacks calls (set_symbol s (st\<lparr>ss_book := book\<rparr>) me) = (me', outs)"
  shows "get_book u me' = (if u = s then Some book else get_book u me)"
    and "me_order_symbol_index me' = me_order_symbol_index me" "me_risk_engine me' = me_risk_engine me"
  using book_callbacks_same [OF assms]
  by (simp_all add: same_books_book [of "set_symbol s (st\<lparr>ss_book := book\<rparr>) me"], simp_all add: same_books_def)

lemma publish_books:
  assumes "publish_market_data s ts me = (me', outs)"
  shows "get_book u me' = get_book u me" "me_order_symbol_index me' = me_order_symbol_index me"
    "me_risk_engine me' = me_risk_engine me"
  using publish_same [OF assms] by (simp_all add: same_books_book, simp_all add: same_books_def)

lemma submit_effect:
  assumes "submit_to_book order ts ts' st me = (rpt, me', outs)"
  shows "rpt = fst (add_order (ss_book st) order ts)"
    and "get_book u me' = (if u = o_symbol order then Some (fst (snd (add_order (ss_book st) order ts)))
                           else get_book u me)"
    and "me_order_symbol_index me' =
      (if r_status rpt \<noteq> Rejected \<and> r_status rpt \<noteq> Filled
       then (me_order_symbol_index me)(o_id order \<mapsto> o_symbol order) else me_order_symbol_index me)"
    and "me_risk_engine me' = map_option (\<lambda>risk. if r_filled_qty rpt > 0
       then on_fill (o_trader_id order) (o_symbol order) (o_side order) (r_filled_qty rpt)
              (r_last_price rpt) risk else risk) (me_risk_engine me)"
proof -
  obtain book calls me1 outs1 outs2 where add: "add_order (ss_book st) order ts = (rpt, book, calls)"
    and cb: "book_callbacks calls (set_symbol (o_symbol order) (st\<lparr>ss_book := book\<rparr>) me) = (me1, outs1)"
    and pub: "publish_market_data (o_symbol order) ts' (after_submit order rpt me1) = (me', outs2)"
    using submit_cases [OF assms] .
  note facts = add callbacks_books [OF cb] publish_books [OF pub]
  show "rpt = fst (add_order (ss_book st) order ts)"
    and "get_book u me' = (if u = o_symbol order then Some (fst (snd (add_order (ss_book st) order ts)))
                           else get_book u me)"
    and "me_order_symbol_index me' =
      (if r_status rpt \<noteq> Rejected \<and> r_status rpt \<noteq> Filled
       then (me_order_symbol_index me)(o_id order \<mapsto> o_symbol order) else me_order_symbol_index me)"
    and "me_risk_engine me' = map_option (\<lambda>risk. if r_filled_qty rpt > 0
       then on_fill (o_trader_id order) (o_symbol order) (o_side order) (r_filled_qty rpt)
              (r_last_price rpt) risk else risk) (me_risk_engine me)"
    using facts by simp_all
qed

lemma cancel_effect_engine:
  assumes "process_cancel cancel ts ts' me = Some (rpt, me', outs)"
  obtains (unrouted) "me' = me" "r_status rpt = Rejected"
      "cancel_target cancel me = None \<or> (\<exists>s. cancel_target cancel me = Some s \<and> get_book s me = None)"
  | (routed) s b book calls where "cancel_target cancel me = Some s" "get_book s me = Some b"
      "cancel_order b (c_order_id cancel) ts = Some (rpt, book, calls)"
      "\<And>u. get_book u me' = (if u = s then Some book else get_book u me)"
      "me_order_symbol_index me' = (if r_status rpt = Canceled
         then (me_order_symbol_index me)(c_order_id cancel := None) else me_order_symbol_index me)"
proof (cases rule: process_cancel_cases [OF assms])
  case 1
  then show thesis using unrouted by (auto simp: get_book_def)
next
  case (2 s st book calls me1 outs1 outs2)
  show thesis
  proof (rule routed [OF 2(1) _ 2(3)])
    show "get_book s me = Some (ss_book st)" using 2(2) by (simp add: get_book_def)
    show "get_book u me' = (if u = s then Some book else get_book u me)" for u
      using callbacks_books(1) [OF 2(4)] publish_books(1) [OF 2(5)] by simp
    show "me_order_symbol_index me' = (if r_status rpt = Canceled
         then (me_order_symbol_index me)(c_order_id cancel := None) else me_order_symbol_index me)"
      using callbacks_books(2) [OF 2(4)] publish_books(2) [OF 2(5)] by simp
  qed
qed

lemma replace_effect_engine:
  assumes "process_replace req ts ts' me = Some (rpt, me', outs)"
  obtains (unknown) "me' = me" "r_status rpt = Rejected" "get_book (p_symbol req) me = None"
  | (routed) b book calls where "get_book (p_symbol req) me = Some b"
      "replace_order b req ts = Some (rpt, book, calls)"
      "\<And>u. get_book u me' = (if u = p_symbol req then Some book else get_book u me)"
      "me_order_symbol_index me' = me_order_symbol_index me" "me_risk_engine me' = me_risk_engine me"
proof (cases rule: process_replace_cases [OF assms])
  case 1
  then show thesis using unknown by (auto simp: get_book_def)
next
  case (2 st book calls me1 outs1 outs2)
  show thesis
    using callbacks_books [OF 2(3)] publish_books [OF 2(4)] 2(1)
    by (intro routed [OF _ 2(2)]) (simp_all add: get_book_def)
qed

lemma me_inv_book:
  "me_inv me \<Longrightarrow> get_book s me = Some b \<Longrightarrow> l3_inv b \<and> bk_symbol b = s \<and> bk_trade_cb b \<and> l3_reachable b"
  using me_inv_find by (auto simp: get_book_def)

section \<open>Live orders\<close>

text \<open>The orders of a book are those in its index (\<open>index_iff\<close>).\<close>

lemma apply_fills_live:
  "bk_order_index (apply_fills fs b) i \<noteq> None \<Longrightarrow> bk_order_index b i \<noteq> None"
  by (induction fs b rule: apply_fills.induct)
     (auto simp: forget_order_def count_trade_def Let_def split: if_splits Side.splits)

lemma add_order_live:
  assumes "l3_inv b" and "order_typed inc" and "add_order b inc ts = (rpt, b', calls)"
    and "bk_order_index b' i \<noteq> None"
  shows "bk_order_index b i \<noteq> None \<or> i = o_id inc \<and> r_status rpt \<noteq> Rejected \<and> r_status rpt \<noteq> Filled"
proof (cases rule: add_order_effect [OF assms(1-3)])
  case (3 r kept fs ls' result)
  show ?thesis
  proof (cases "r > 0 \<and> o_type inc = Limit \<and> o_tif inc \<in> {Day, GTC}")
    case True
    have "r_status rpt \<noteq> Rejected \<and> r_status rpt \<noteq> Filled"
      using settled_fields(3) [OF 3(8)] True 3(4) by auto
    moreover have "i = o_id inc \<or> bk_order_index (apply_fills fs b) i \<noteq> None"
      using assms(4) True 3(6)
      by (auto simp: add_resting_order_def Let_def set_opposite_def split: Side.splits if_splits)
    ultimately show ?thesis using apply_fills_live by blast
  next
    case False
    then have "bk_order_index (apply_fills fs b) i \<noteq> None"
      using assms(4) 3(6) by (auto simp: set_opposite_def split: Side.splits if_splits)
    then show ?thesis using apply_fills_live by blast
  qed
qed (use assms(4) in auto)

lemma cancelled_index [simp]:
  "bk_order_index (cancelled n b) = (bk_order_index b)(node_id n := None)"
  by (simp add: cancelled_def split: Side.split)

lemma cancel_order_live:
  assumes "l3_inv b" and "cancel_order b i ts = Some (rpt, b', calls)"
  shows "bk_order_index b' = (bk_order_index b)(i := None)"
    and "r_status rpt = Canceled \<longleftrightarrow> bk_order_index b i \<noteq> None"
proof -
  have "bk_order_index b' = (bk_order_index b)(i := None) \<and>
    (r_status rpt = Canceled \<longleftrightarrow> bk_order_index b i \<noteq> None)"
  proof (cases rule: cancel_order_cases [OF assms(1), of i ts])
    case 1
    then show ?thesis using assms(2) by (auto simp: fun_upd_idem)
  next
    case (2 n)
    then show ?thesis using assms(2) index_iff [OF assms(1), of i] by (auto simp: cancel_report_def)
  qed
  then show "bk_order_index b' = (bk_order_index b)(i := None)"
    "r_status rpt = Canceled \<longleftrightarrow> bk_order_index b i \<noteq> None" by blast+
qed

lemma replace_order_live:
  assumes "l3_inv b" and "replace_typed req" and "replace_order b req ts = Some (rpt, b', calls)"
    and "bk_order_index b' i \<noteq> None"
  shows "bk_order_index b i \<noteq> None"
proof (cases rule: replace_order_cases [OF assms(1), of req ts])
  case 1
  then show ?thesis using assms by simp
next
  case (2 n rpt2 b2 calls2)
  have "bk_order_index b2 i \<noteq> None" using assms(3,4) 2(4) by simp
  from add_order_live [OF cancelled_preserves [OF assms(1) 2(1)] replacement_typed [OF assms(2)] 2(3) this]
  have "bk_order_index (cancelled n b) i \<noteq> None \<or> i = p_order_id req"
    by (auto simp: replacement_order_def split: if_splits)
  moreover have "p_order_id req \<in> node_id ` set (all_nodes b)" using 2(1,2) by force
  ultimately show ?thesis using index_iff [OF assms(1), of i] by (auto split: if_splits)
qed

section \<open>Routing\<close>

text \<open>
  Every live order is in the routing index under the symbol of its book.  This needs the clients to
  use an identifier for one symbol at a time: \<open>op_fresh\<close>.
\<close>

definition route_inv :: "MatchingEngine \<Rightarrow> bool" where
  "route_inv me \<longleftrightarrow> me_inv me \<and>
     (\<forall>s b i. get_book s me = Some b \<longrightarrow> bk_order_index b i \<noteq> None \<longrightarrow>
        me_order_symbol_index me i = Some s)"

fun op_fresh :: "me_op \<Rightarrow> MatchingEngine \<Rightarrow> bool" where
  "op_fresh (NewOrder order ts ts') me =
     list_all (\<lambda>(s, st). s = o_symbol order \<or> bk_order_index (ss_book st) (o_id order) = None) (me_symbols me)"
| "op_fresh _ me = True"

definition routed_step :: "MatchingEngine \<Rightarrow> MatchingEngine \<Rightarrow> bool" where
  "routed_step me me' \<longleftrightarrow> (\<exists>op. op_typed op \<and> op_fresh op me \<and> me_exec op me = Some me')"

lemma route_invD:
  "route_inv me \<Longrightarrow> get_book s me = Some b \<Longrightarrow> bk_order_index b i \<noteq> None \<Longrightarrow>
   me_order_symbol_index me i = Some s"
  "route_inv me \<Longrightarrow> me_inv me"
  unfolding route_inv_def by blast+

lemma op_fresh_book:
  assumes "op_fresh (NewOrder order ts ts') me" and "get_book s me = Some b" and "s \<noteq> o_symbol order"
  shows "bk_order_index b (o_id order) = None"
proof -
  obtain st where "(s, st) \<in> set (me_symbols me)" "b = ss_book st"
    using assms(2) by (auto simp: get_book_def dest: map_of_SomeD)
  then show ?thesis using assms(1,3) by (auto simp: list_all_iff)
qed

lemma submit_route:
  assumes inv: "route_inv me" and st: "find_symbol me (o_symbol order) = Some st"
    and typed: "order_typed order" and fresh: "op_fresh (NewOrder order ts ts') me"
    and sub: "submit_to_book order ts ts' st me = (rpt, me', outs)"
  shows "route_inv me'"
  unfolding route_inv_def
proof (intro conjI allI impI)
  show "me_inv me'" using submit_inv [OF route_invD(2) [OF inv] st typed sub] .
  fix s b i
  assume book: "get_book s me' = Some b" and live: "bk_order_index b i \<noteq> None"
  note eff = submit_effect [OF sub]
  have old: "get_book (o_symbol order) me = Some (ss_book st)" using st by (simp add: get_book_def)
  show "me_order_symbol_index me' i = Some s"
  proof (cases "s = o_symbol order")
    case True
    obtain rpt1 b1 calls where add: "add_order (ss_book st) order ts = (rpt1, b1, calls)"
      by (metis prod_cases3)
    have "bk_order_index (ss_book st) i \<noteq> None \<or> i = o_id order \<and> r_status rpt \<noteq> Rejected \<and> r_status rpt \<noteq> Filled"
      using add_order_live [OF me_inv_find(6) [OF route_invD(2) [OF inv] st] typed add, of i] live book eff(1,2) True add
      by simp
    then show ?thesis using eff(3) route_invD(1) [OF inv old] True by auto
  next
    case False
    then have "get_book s me = Some b" using book eff(2) by simp
    moreover from op_fresh_book [OF fresh this False] have "i \<noteq> o_id order" using live by blast
    ultimately show ?thesis using eff(3) route_invD(1) [OF inv _ live] by simp
  qed
qed

lemma cancel_route:
  assumes inv: "route_inv me" and c: "process_cancel cancel ts ts' me = Some (rpt, me', outs)"
  shows "route_inv me'"
  unfolding route_inv_def
proof (intro conjI allI impI)
  show "me_inv me'" using process_cancel_inv [OF route_invD(2) [OF inv] c] .
  fix u b i
  assume book: "get_book u me' = Some b" and live: "bk_order_index b i \<noteq> None"
  show "me_order_symbol_index me' i = Some u"
  proof (cases rule: cancel_effect_engine [OF c])
    case 1
    then show ?thesis using route_invD(1) [OF inv] book live by blast
  next
    case (2 s b0 book1 calls)
    note idx = cancel_order_live [OF conjunct1 [OF me_inv_book [OF route_invD(2) [OF inv] 2(2)]] 2(3)]
    show ?thesis
    proof (cases "u = s")
      case True
      then have "b = book1" using book 2(4) by simp
      then have "i \<noteq> c_order_id cancel" "bk_order_index b0 i \<noteq> None"
        using live idx(1) by (auto split: if_splits)
      then show ?thesis using 2(5) route_invD(1) [OF inv 2(2)] True by auto
    next
      case False
      then have b: "get_book u me = Some b" using book 2(4) by simp
      from route_invD(1) [OF inv b live] have route: "me_order_symbol_index me i = Some u" .
      have "i \<noteq> c_order_id cancel" if "r_status rpt = Canceled"
        using route_invD(1) [OF inv 2(2)] idx(2) that route False by auto
      then show ?thesis using 2(5) route by auto
    qed
  qed
qed

lemma replace_route:
  assumes inv: "route_inv me" and typed: "replace_typed req"
    and c: "process_replace req ts ts' me = Some (rpt, me', outs)"
  shows "route_inv me'"
  unfolding route_inv_def
proof (intro conjI allI impI)
  show "me_inv me'" using process_replace_inv [OF route_invD(2) [OF inv] typed c] .
  fix u b i
  assume book: "get_book u me' = Some b" and live: "bk_order_index b i \<noteq> None"
  show "me_order_symbol_index me' i = Some u"
  proof (cases rule: replace_effect_engine [OF c])
    case 1
    then show ?thesis using route_invD(1) [OF inv] book live by blast
  next
    case (2 b0 book1 calls)
    note inv0 = conjunct1 [OF me_inv_book [OF route_invD(2) [OF inv] 2(1)]]
    show ?thesis
      using replace_order_live [OF inv0 typed 2(2), of i] route_invD(1) [OF inv 2(1)]
        route_invD(1) [OF inv _ live] 2(3,4) book live by (cases "u = p_symbol req") auto
  qed
qed

lemma route_unchanged:
  assumes "route_inv me" and "me_inv me'" and "\<And>s. get_book s me' = get_book s me"
    and "me_order_symbol_index me' = me_order_symbol_index me"
  shows "route_inv me'"
  using assms by (simp add: route_inv_def)

lemma new_order_route:
  assumes inv: "route_inv me" and typed: "order_typed order" and fresh: "op_fresh (NewOrder order ts ts') me"
    and p: "process_new_order order ts ts' me = (rpt, me', outs)"
  shows "route_inv me'"
proof (cases rule: process_new_order_cases [OF p])
  case (3 st risk)
  let ?me = "me\<lparr>me_orders_processed := me_orders_processed me + 1, me_risk_engine := risk\<rparr>"
  have "route_inv ?me" using inv by (simp add: route_inv_def)
  moreover have "op_fresh (NewOrder order ts ts') ?me" using fresh by simp
  ultimately show ?thesis using submit_route [OF _ _ typed _ 3(3)] 3(1) by simp
qed (use inv in \<open>simp_all add: route_inv_def\<close>)

lemma add_symbol_books:
  "get_book u (add_symbol s me) =
     (if u = s \<and> get_book s me = None then Some (on_top_of_book (L3Book.on_trade (L3OrderBook_init s)))
      else get_book u me)"
  "me_order_symbol_index (add_symbol s me) = me_order_symbol_index me"
  by (simp_all add: add_symbol_def has_symbol_def get_book_def)

lemma add_symbol_route: "route_inv me \<Longrightarrow> route_inv (add_symbol s me)"
  unfolding route_inv_def
  by (auto simp: add_symbol_inv add_symbol_books L3Book.on_trade_def on_top_of_book_def L3OrderBook_init_def
      split: if_splits)

lemma routed_step_inv:
  assumes "route_inv me" and "op_typed op" and "op_fresh op me" and "me_exec op me = Some me'"
  shows "route_inv me'"
proof (cases op)
  case (AddSymbol s)
  then show ?thesis using add_symbol_route [OF assms(1), of s] assms(4) by simp
next
  case (NewOrder order ts ts')
  obtain rpt me1 outs where p: "process_new_order order ts ts' me = (rpt, me1, outs)" by (metis prod_cases3)
  then show ?thesis using new_order_route [OF assms(1) _ _ p] assms NewOrder by simp
next
  case (CancelOrder c ts ts')
  then obtain rpt outs where "process_cancel c ts ts' me = Some (rpt, me', outs)" using assms(4) by auto
  then show ?thesis by (rule cancel_route [OF assms(1)])
next
  case (ReplaceOrder req ts ts')
  then obtain rpt outs where "process_replace req ts ts' me = Some (rpt, me', outs)" using assms(4) by auto
  then show ?thesis using replace_route [OF assms(1)] assms(2) ReplaceOrder by simp
qed (use assms in \<open>auto simp: route_inv_def get_book_def\<close>)

interpretation route: invariant_system "\<lambda>me. me = MatchingEngine_init" routed_step route_inv
proof
  show "route_inv s" if "s = MatchingEngine_init" for s
    using that by (simp add: route_inv_def me_inv_def books_ok_def books_view_def trade_total_def
        MatchingEngine_init_def get_book_def)
  show "route_inv t" if "route_inv s" "routed_step s t" for s t
    using that routed_step_inv unfolding routed_step_def by blast
qed

abbreviation routed_reachable :: "MatchingEngine \<Rightarrow> bool" where
  "routed_reachable \<equiv> reachable (\<lambda>me. me = MatchingEngine_init) routed_step"

text \<open>A routed run is in particular a run.\<close>

lemma routed_is_reachable: "routed_reachable me \<Longrightarrow> me_reachable me"
  unfolding reachable_def
  by (elim exE conjE, intro exI conjI, assumption,
      erule rtranclp_mono [THEN predicate2D, rotated]) (auto simp: routed_step_def me_step_def)

fun routed_run :: "me_op list \<Rightarrow> MatchingEngine \<Rightarrow> MatchingEngine option" where
  "routed_run [] me = Some me"
| "routed_run (op # ops) me =
     (if op_typed op \<and> op_fresh op me
      then (case me_exec op me of None \<Rightarrow> None | Some me \<Rightarrow> routed_run ops me) else None)"

lemma routed_run_reachable:
  "routed_run ops me = Some me' \<Longrightarrow> routed_reachable me \<Longrightarrow> routed_reachable me'"
proof (induction ops me arbitrary: me' rule: routed_run.induct)
  case (2 op ops me)
  then obtain me1 where step: "op_typed op" "op_fresh op me" "me_exec op me = Some me1"
    and rest: "routed_run ops me1 = Some me'" by (auto split: if_splits option.splits)
  then have "routed_step me me1" unfolding routed_step_def by blast
  then show ?case using 2(1) [OF _ step(3) rest] step 2(3) reachable_step [of _ routed_step] by blast
qed simp

end
