(* ===== verification/MatchingProperties.thy ===== *)
theory MatchingProperties
  imports MatchingRouting
begin

text \<open>
  Properties of the matching engine over its reachable states, and a small engine on which the
  witnesses are evaluated.
\<close>

section \<open>The calls to the engine's clients\<close>

definition trade_outs :: "engine_event list \<Rightarrow> Trade list" where
  "trade_outs outs = concat (map (\<lambda>e. case e of TradeOut t \<Rightarrow> [t] | _ \<Rightarrow> []) outs)"

definition exec_outs :: "engine_event list \<Rightarrow> ExecutionReport list" where
  "exec_outs outs = concat (map (\<lambda>e. case e of ExecOut r \<Rightarrow> [r] | _ \<Rightarrow> []) outs)"

lemma outs_simps [simp]:
  "trade_outs (xs @ ys) = trade_outs xs @ trade_outs ys" "exec_outs (xs @ ys) = exec_outs xs @ exec_outs ys"
  "trade_outs [] = []" "exec_outs [] = []"
  "trade_outs (TradeOut t # xs) = t # trade_outs xs" "exec_outs (TradeOut t # xs) = exec_outs xs"
  "trade_outs (ExecOut r # xs) = trade_outs xs" "exec_outs (ExecOut r # xs) = r # exec_outs xs"
  "trade_outs (L1Out tob # xs) = trade_outs xs" "exec_outs (L1Out tob # xs) = exec_outs xs"
  "trade_outs (L2Out d # xs) = trade_outs xs" "exec_outs (L2Out d # xs) = exec_outs xs"
  by (simp_all add: trade_outs_def exec_outs_def)

lemma trade_events_Cons:
  "trade_events (ev # evs) = (case ev of TradeEv t \<Rightarrow> t # trade_events evs | TobEv _ \<Rightarrow> trade_events evs)"
  by (simp add: trade_events_def split: book_event.split)

lemma book_callback_out:
  assumes "book_callback ev me = (me', outs)"
  shows "trade_outs outs = (if me_trade_cb me then trade_events [ev] else []) \<and> exec_outs outs = [] \<and>
    me_trade_cb me' = me_trade_cb me \<and> me_exec_cb me' = me_exec_cb me"
  using assms by (cases ev) (auto simp: Let_def trade_events_def split: option.splits)

lemma book_callbacks_out:
  assumes "book_callbacks evs me = (me', outs)"
  shows "trade_outs outs = (if me_trade_cb me then trade_events evs else []) \<and> exec_outs outs = [] \<and>
    me_trade_cb me' = me_trade_cb me \<and> me_exec_cb me' = me_exec_cb me"
  using assms
proof (induction evs me arbitrary: me' outs rule: book_callbacks.induct)
  case (1 me)
  then show ?case by (simp add: trade_events_def)
next
  case (2 ev evs me)
  obtain me1 out where e: "book_callback ev me = (me1, out)" by (metis surj_pair)
  obtain me2 outs2 where es: "book_callbacks evs me1 = (me2, outs2)" by (metis surj_pair)
  have eq: "me' = me2" "outs = out @ outs2" using 2(2) e es by (simp_all add: Let_def)
  have "trade_events (ev # evs) = trade_events [ev] @ trade_events evs"
    by (simp add: trade_events_def)
  then show ?case
    using eq book_callback_out [OF e] 2(1) [OF e [symmetric] refl es] by auto
qed

lemma publish_out:
  "publish_market_data s ts me = (me', outs) \<Longrightarrow> trade_outs outs = [] \<and> exec_outs outs = []"
  by (auto simp: publish_market_data_def Let_def split: option.splits prod.splits if_splits)

lemma submit_out:
  assumes "submit_to_book order ts ts' st me = (rpt, me', outs)"
  shows "trade_outs outs = (if me_trade_cb me then trade_events (snd (snd (add_order (ss_book st) order ts))) else [])"
    and "exec_outs outs = (if me_exec_cb me then [rpt] else [])"
proof -
  obtain r book calls where add: "add_order (ss_book st) order ts = (r, book, calls)"
    by (metis prod_cases3)
  obtain me1 outs1 where cb: "book_callbacks calls (set_symbol (o_symbol order)
      (st\<lparr>ss_book := book\<rparr>) me) = (me1, outs1)" by (metis surj_pair)
  obtain me2 outs2 where pub:
    "publish_market_data (o_symbol order) ts' (after_submit order r me1) = (me2, outs2)"
    by (metis surj_pair)
  have "me_exec_cb (after_submit order r me1) = me_exec_cb me1"
    by (simp add: after_submit_def Let_def split: option.split)
  then have "outs = outs1 @ (if me_exec_cb me1 then [ExecOut r] else []) @ outs2" "r = rpt"
    using assms add cb pub by (simp_all add: submit_to_book_def after_submit_def exec_out_def Let_def)
  then show "trade_outs outs = (if me_trade_cb me then trade_events (snd (snd (add_order (ss_book st) order ts))) else [])"
    "exec_outs outs = (if me_exec_cb me then [rpt] else [])"
    using book_callbacks_out [OF cb] publish_out [OF pub] add by auto
qed

section \<open>A small engine\<close>

definition sym_A :: Symbol where "sym_A = Symbol_of ''AAPL''"
definition sym_B :: Symbol where "sym_B = Symbol_of ''MSFT''"

definition eng_order :: "OrderId \<Rightarrow> TraderId \<Rightarrow> Symbol \<Rightarrow> Side \<Rightarrow> Price \<Rightarrow> Quantity \<Rightarrow> Order" where
  "eng_order i t s side p q = Order_default\<lparr>o_id := i, o_trader_id := t, o_symbol := s, o_side := side,
     o_price := p, o_quantity := q\<rparr>"

definition demo_ops :: "me_op list" where
  "demo_ops = [AddSymbol sym_A, AddSymbol sym_B, BindRisk (Some RiskEngine_init), OnExecution, OnTrade,
     NewOrder (eng_order 1 10 sym_A Sell 100 5) 1 1,
     NewOrder (eng_order 2 11 sym_A Sell 101 5) 2 2,
     NewOrder (eng_order 3 11 sym_B Buy 50 7) 3 3]"

definition demo_engine :: MatchingEngine where
  "demo_engine = the (routed_run demo_ops MatchingEngine_init)"

lemma demo_engine_run: "routed_run demo_ops MatchingEngine_init \<noteq> None"
  by code_simp

lemma demo_engine_routed: "routed_reachable demo_engine"
proof -
  have "routed_run demo_ops MatchingEngine_init = Some demo_engine"
    using demo_engine_run by (simp add: demo_engine_def)
  then show ?thesis by (rule routed_run_reachable) (simp add: reachable_init)
qed

lemma demo_engine_reachable: "me_reachable demo_engine"
  by (rule routed_is_reachable) (rule demo_engine_routed)

lemma demo_engine_books: "get_book sym_A demo_engine \<noteq> None" "get_book sym_B demo_engine \<noteq> None"
  "me_risk_engine demo_engine \<noteq> None" "me_trade_cb demo_engine"
  by code_simp+

section \<open>Properties\<close>

text \<open>C24: whatever the clients submit, in every reachable engine each symbol has one book, that book
  satisfies the book invariant, carries its symbol, reports its trades to the engine, and the
  engine's trade counter is the sum of the books' trade counters.\<close>

theorem engine_invariant:
  assumes "me_reachable me"
  shows "distinct (symbols me) \<and>
    (\<forall>s b. get_book s me = Some b \<longrightarrow> l3_inv b \<and> bk_symbol b = s \<and> bk_trade_cb b) \<and>
    me_trades_generated me = (\<Sum>(s, st)\<leftarrow>me_symbols me. bk_trade_count (ss_book st))"
proof -
  have inv: "me_inv me" using assms by (rule engine.reachable_inv)
  then have "distinct (symbols me)"
    by (simp add: me_inv_def books_ok_def books_view_def symbols_def comp_def case_prod_unfold)
  moreover have "me_trades_generated me = (\<Sum>(s, st)\<leftarrow>me_symbols me. bk_trade_count (ss_book st))"
    using inv by (simp add: me_inv_def trade_total_def books_view_def comp_def case_prod_unfold)
  ultimately show ?thesis using me_inv_book [OF inv] by blast
qed

theorem engine_invariant_witness:
  "distinct (symbols demo_engine) \<and> l3_inv (the (get_book sym_A demo_engine)) \<and>
   length (all_nodes (the (get_book sym_A demo_engine))) = 2"
proof (intro conjI)
  note inv = engine_invariant [OF demo_engine_reachable]
  show "distinct (symbols demo_engine)" using inv by blast
  show "l3_inv (the (get_book sym_A demo_engine))" using inv demo_engine_books(1) by force
  show "length (all_nodes (the (get_book sym_A demo_engine))) = 2" by code_simp
qed

text \<open>The requests a client can send always return: on a reachable engine neither a cancel nor a
  replace follows a dangling iterator, whatever symbol and identifier they carry.\<close>

lemma engine_never_undefined:
  assumes "me_reachable me"
  shows "(\<exists>rpt me' outs. process_cancel cancel ts ts' me = Some (rpt, me', outs)) \<and>
    (\<exists>rpt me' outs. process_replace req ts ts' me = Some (rpt, me', outs))"
proof -
  have inv: "me_inv me" using assms by (rule engine.reachable_inv)
  show ?thesis
    using process_cancel_total [OF inv, of cancel ts ts'] process_replace_total [OF inv, of req ts ts']
    by (metis not_None_eq prod_cases3)
qed

lemma engine_never_undefined_witness:
  "\<exists>rpt me' outs. process_replace \<lparr>p_order_id = 1, p_trader_id = 10, p_symbol = sym_A, p_new_price = 99,
     p_new_qty = 4, p_submit_time = 4, p_cl_ord_id = empty_cl_ord_id,
     p_orig_cl_ord_id = empty_cl_ord_id\<rparr> 4 4 demo_engine = Some (rpt, me', outs)"
  using engine_never_undefined [OF demo_engine_reachable] by blast

text \<open>C26: a new order for an unknown symbol, or one the risk engine rejects, leaves every book as it is
  and reports that reason; any other order has exactly the effect and the report of submitting it
  to the book of its symbol, and no other book changes.  A registered execution callback gets that
  one report, a registered trade callback the trades of the book in order.\<close>

theorem new_order_effect:
  assumes "process_new_order order ts ts' me = (rpt, me', outs)"
  shows "(case get_book (o_symbol order) me of
        None \<Rightarrow> rpt = early_reject order UnknownSymbol ts \<and> (\<forall>u. get_book u me' = get_book u me) \<and>
          me_risk_engine me' = me_risk_engine me \<and> trade_outs outs = []
      | Some b \<Rightarrow>
          (let reason = (case me_risk_engine me of None \<Rightarrow> NoReason | Some risk \<Rightarrow> verdict risk order)
           in if reason \<noteq> NoReason
              then rpt = early_reject order reason ts \<and> (\<forall>u. get_book u me' = get_book u me) \<and>
                trade_outs outs = []
              else rpt = fst (add_order b order ts) \<and>
                (\<forall>u. get_book u me' = (if u = o_symbol order then Some (fst (snd (add_order b order ts)))
                                       else get_book u me)) \<and>
                trade_outs outs =
                  (if me_trade_cb me then trade_events (snd (snd (add_order b order ts))) else []))) \<and>
    exec_outs outs = (if me_exec_cb me then [rpt] else [])"
proof (cases rule: process_new_order_cases [OF assms])
  case 1
  then show ?thesis
    using assms by (auto simp: get_book_def process_new_order_def exec_out_def Let_def)
next
  case (2 st risk reject risk')
  have outs: "trade_outs outs = [] \<and> exec_outs outs = (if me_exec_cb me then [rpt] else [])"
    using assms 2(1-4) by (auto simp: process_new_order_def exec_out_def Let_def)
  show ?thesis
    using 2 outs check_order_verdict(1) [OF 2(3) refl] by (auto simp: get_book_def Let_def)
next
  case (3 st risk)
  have reason: "(case me_risk_engine me of None \<Rightarrow> NoReason | Some risk \<Rightarrow> verdict risk order) = NoReason"
  proof (cases "me_risk_engine me")
    case (Some r)
    then obtain r' where "check_order order r = (NoReason, r')" using 3(2) by auto
    from check_order_verdict(1) [OF this refl] show ?thesis using Some by simp
  qed simp
  have book: "get_book (o_symbol order) me = Some (ss_book st)" using 3(1) by (simp add: get_book_def)
  show ?thesis
    using submit_effect(1,2) [OF 3(3)] submit_out [OF 3(3)] reason book
    by (simp add: Let_def del: get_book_set)
qed

theorem new_order_effect_witness:
  "let (rpt, me', outs) = process_new_order (eng_order 4 12 sym_A Buy 100 3) 4 4 demo_engine
   in exec_outs outs = [rpt] \<and> r_filled_qty rpt = 3 \<and> get_book sym_B me' = get_book sym_B demo_engine \<and>
      map t_resting_id (trade_outs outs) = [1]"
proof -
  obtain rpt me' outs where p: "process_new_order (eng_order 4 12 sym_A Buy 100 3) 4 4 demo_engine = (rpt, me', outs)"
    by (metis prod_cases3)
  obtain b where b: "get_book sym_A demo_engine = Some b" using demo_engine_books(1) by blast
  have facts: "(case me_risk_engine demo_engine of None \<Rightarrow> NoReason
       | Some risk \<Rightarrow> verdict risk (eng_order 4 12 sym_A Buy 100 3)) = NoReason"
    "map t_resting_id (trade_events (snd (snd (add_order (the (get_book sym_A demo_engine))
       (eng_order 4 12 sym_A Buy 100 3) 4)))) = [1]"
    "r_filled_qty (fst (add_order (the (get_book sym_A demo_engine)) (eng_order 4 12 sym_A Buy 100 3) 4)) = 3"
    "sym_A \<noteq> sym_B" "me_exec_cb demo_engine"
    by code_simp+
  have "o_symbol (eng_order 4 12 sym_A Buy 100 3) = sym_A" by (simp add: eng_order_def)
  then show ?thesis using new_order_effect [OF p] facts b demo_engine_books(4) p by (auto simp: Let_def)
qed

text \<open>C27: routing.  As long as no client reuses the identifier of an order that rests under another
  symbol, a cancel that carries no symbol reaches the book where the order rests: the report says
  canceled, the order is gone from the book and from the routing index, and no other book changes.\<close>

theorem cancel_routed:
  assumes "routed_reachable me" and "get_book s me = Some b" and "bk_order_index b (c_order_id cancel) \<noteq> None"
    and "c_symbol cancel = Symbol_default"
  shows "\<exists>rpt me' outs book. process_cancel cancel ts ts' me = Some (rpt, me', outs) \<and>
    r_status rpt = Canceled \<and> get_book s me' = Some book \<and>
    bk_order_index book = (bk_order_index b)(c_order_id cancel := None) \<and>
    me_order_symbol_index me' (c_order_id cancel) = None \<and>
    (\<forall>u. u \<noteq> s \<longrightarrow> get_book u me' = get_book u me)"
proof -
  have inv: "route_inv me" using assms(1) by (rule route.reachable_inv)
  obtain rpt me' outs where p: "process_cancel cancel ts ts' me = Some (rpt, me', outs)"
    using process_cancel_total [OF route_invD(2) [OF inv], of cancel ts ts'] by (metis not_None_eq prod_cases3)
  have target: "cancel_target cancel me = Some s"
    using route_invD(1) [OF inv assms(2,3)] assms(4) by (simp add: cancel_target_def)
  show ?thesis
  proof (cases rule: cancel_effect_engine [OF p])
    case 1
    then show ?thesis using target assms(2) by simp
  next
    case (2 u b0 book calls)
    then have "u = s" "b0 = b" using target assms(2) by simp_all
    moreover have "l3_inv b0" using me_inv_book [OF route_invD(2) [OF inv] 2(2)] by blast
    ultimately show ?thesis
      using cancel_order_live [OF _ 2(3)] 2(4,5) assms(3) p by auto
  qed
qed

theorem cancel_routed_witness:
  "\<exists>rpt me' outs book. process_cancel \<lparr>c_order_id = 3, c_trader_id = 11, c_symbol = Symbol_default,
      c_submit_time = 5, c_cl_ord_id = empty_cl_ord_id\<rparr> 5 5 demo_engine = Some (rpt, me', outs) \<and>
    r_status rpt = Canceled \<and> get_book sym_B me' = Some book \<and> bk_order_index book 3 = None"
proof -
  obtain b where b: "get_book sym_B demo_engine = Some b" using demo_engine_books(2) by blast
  have "bk_order_index (the (get_book sym_B demo_engine)) 3 \<noteq> None" by code_simp
  then have "bk_order_index b 3 \<noteq> None" using b by simp
  from cancel_routed [OF demo_engine_routed b, of "\<lparr>c_order_id = 3, c_trader_id = 11,
      c_symbol = Symbol_default, c_submit_time = 5, c_cl_ord_id = empty_cl_ord_id\<rparr>" 5 5] this
  show ?thesis by auto
qed

text \<open>An accepted order moves exactly one position: the aggressor's in the order's symbol, by the
  (signed, 64-bit) filled quantity.  The traders whose resting orders were hit keep the positions
  the risk engine had for them.\<close>

lemma aggressor_position_only:
  assumes "process_new_order order ts ts' me = (rpt, me', outs)" and "me_risk_engine me = Some risk"
    and "get_book (o_symbol order) me \<noteq> None"
  shows "\<exists>risk'. me_risk_engine me' = Some risk' \<and>
    (\<forall>t u. get_position risk' t u =
      (if t = o_trader_id order \<and> u = o_symbol order \<and> verdict risk order = NoReason \<and> r_filled_qty rpt > 0
       then add64 (get_position risk t u)
              (case o_side order of Buy \<Rightarrow> r_filled_qty rpt | Sell \<Rightarrow> - r_filled_qty rpt)
       else get_position risk t u))"
proof (cases rule: process_new_order_cases [OF assms(1)])
  case 1
  then show ?thesis using assms(3) by (simp add: get_book_def)
next
  case (2 st r reject risk')
  then have "r = risk" using assms(2) by simp
  moreover note check_order_verdict(1,6) [OF 2(3) refl]
  ultimately show ?thesis using 2 by (auto simp: get_position_state position_of_def)
next
  case (3 st r)
  then obtain risk1 where c: "check_order order risk = (NoReason, risk1)" "r = Some risk1"
    using assms(2) by auto
  note v = check_order_verdict(1,6) [OF c(1) refl]
  have keep: "get_position risk1 t u = get_position risk t u" for t u
    by (auto simp: get_position_state position_of_def v(2))
  have "me_risk_engine me' = Some (if r_filled_qty rpt > 0
      then on_fill (o_trader_id order) (o_symbol order) (o_side order) (r_filled_qty rpt) (r_last_price rpt) risk1
      else risk1)"
    using submit_effect(4) [OF 3(3)] c(2) by simp
  then show ?thesis using v(1) keep
    by (auto simp: get_position_state on_fill_state Let_def position_of_def)
qed


end
