(* ===== verification/EngineOutputs.thy ===== *)
theory EngineOutputs
  imports MatchingProperties
begin

text \<open>
  What a client of the matching engine sees of an operation: the book operation it amounts to, and
  the calls to the registered callbacks.
\<close>

section \<open>The book operation behind an engine operation\<close>

fun book_result :: "me_op \<Rightarrow> MatchingEngine
    \<Rightarrow> (Symbol \<times> ExecutionReport \<times> L3OrderBook \<times> book_event list) option" where
  "book_result (NewOrder order ts ts') me =
     Option.bind (get_book (o_symbol order) me) (\<lambda>b.
       if (case me_risk_engine me of None \<Rightarrow> True | Some risk \<Rightarrow> verdict risk order = NoReason)
       then Some (o_symbol order, add_order b order ts) else None)"
| "book_result (CancelOrder cancel ts ts') me =
     Option.bind (cancel_target cancel me) (\<lambda>s. Option.bind (get_book s me) (\<lambda>b.
       map_option (Pair s) (cancel_order b (c_order_id cancel) ts)))"
| "book_result (ReplaceOrder req ts ts') me =
     Option.bind (get_book (p_symbol req) me) (\<lambda>b.
       map_option (Pair (p_symbol req)) (replace_order b req ts))"
| "book_result _ me = None"

fun me_outputs :: "me_op \<Rightarrow> MatchingEngine \<Rightarrow> engine_event list" where
  "me_outputs (NewOrder order ts ts') me = snd (snd (process_new_order order ts ts' me))"
| "me_outputs (CancelOrder cancel ts ts') me =
     (case process_cancel cancel ts ts' me of None \<Rightarrow> [] | Some (_, _, outs) \<Rightarrow> outs)"
| "me_outputs (ReplaceOrder req ts ts') me =
     (case process_replace req ts ts' me of None \<Rightarrow> [] | Some (_, _, outs) \<Rightarrow> outs)"
| "me_outputs _ me = []"

text \<open>The clock reading the publication of the market data takes.\<close>

fun publish_time :: "me_op \<Rightarrow> Timestamp" where
  "publish_time (NewOrder order ts ts') = ts'"
| "publish_time (CancelOrder cancel ts ts') = ts'"
| "publish_time (ReplaceOrder req ts ts') = ts'"
| "publish_time _ = 0"

text \<open>The calls the two lambdas registered with a book pass on.\<close>

definition forward :: "MatchingEngine \<Rightarrow> book_event list \<Rightarrow> engine_event list" where
  "forward me calls = concat (map (\<lambda>ev. case ev of
       TradeEv t \<Rightarrow> if me_trade_cb me then [TradeOut t] else []
     | TobEv tob \<Rightarrow> if me_l1_cb me then [L1Out tob] else []) calls)"

definition depth_out :: "Symbol \<Rightarrow> Timestamp \<Rightarrow> L3OrderBook \<Rightarrow> MatchingEngine \<Rightarrow> engine_event list" where
  "depth_out s ts' b me = (if me_l2_cb me
     then [L2Out (l2_snapshot b ts' (ss_l2 (the (find_symbol me s))))] else [])"

definition same_callbacks :: "MatchingEngine \<Rightarrow> MatchingEngine \<Rightarrow> bool" where
  "same_callbacks me me' \<longleftrightarrow> me_exec_cb me' = me_exec_cb me \<and> me_trade_cb me' = me_trade_cb me \<and>
     me_l1_cb me' = me_l1_cb me \<and> me_l2_cb me' = me_l2_cb me"

lemma same_callbacks_forward: "same_callbacks me me' \<Longrightarrow> forward me' calls = forward me calls"
  by (simp add: same_callbacks_def forward_def cong: book_event.case_cong)

lemma book_callback_forward:
  "book_callback ev me = (me', out) \<Longrightarrow> out = forward me [ev] \<and> same_callbacks me me'"
  by (cases ev) (auto simp: forward_def same_callbacks_def Let_def split: option.splits)

lemma book_callbacks_forward:
  "book_callbacks calls me = (me', outs) \<Longrightarrow> outs = forward me calls \<and> same_callbacks me me'"
proof (induction calls me arbitrary: me' outs rule: book_callbacks.induct)
  case (1 me)
  then show ?case by (simp add: forward_def same_callbacks_def)
next
  case (2 ev calls me)
  obtain me1 out where e: "book_callback ev me = (me1, out)" by (metis surj_pair)
  obtain me2 outs2 where es: "book_callbacks calls me1 = (me2, outs2)" by (metis surj_pair)
  have eq: "me' = me2" "outs = out @ outs2" using 2(2) e es by (simp_all add: Let_def)
  have "forward me (ev # calls) = forward me [ev] @ forward me calls" by (simp add: forward_def)
  then show ?case
    using eq book_callback_forward [OF e] 2(1) [OF e [symmetric] refl es]
    by (auto simp: same_callbacks_forward) (auto simp: same_callbacks_def)
qed

lemma publish_depth:
  assumes "publish_market_data s ts' me = (me', outs)"
  shows "same_callbacks me me'" "find_symbol me s = Some st \<Longrightarrow>
    outs = (if me_l2_cb me then [L2Out (l2_snapshot (ss_book st) ts' (ss_l2 st))] else [])"
  using assms
  by (auto simp: publish_market_data_def same_callbacks_def Let_def split: option.splits prod.splits)

text \<open>The answer to \<^verbatim>\<open>get_top_of_book\<close> is the summary made by the last publication.\<close>

lemma book_callbacks_query:
  "book_callbacks calls me = (me', outs) \<Longrightarrow> get_top_of_book u me' = get_top_of_book u me"
proof (induction calls me arbitrary: me' outs rule: book_callbacks.induct)
  case (2 ev calls me)
  obtain me1 out where e: "book_callback ev me = (me1, out)" by (metis surj_pair)
  obtain outs2 where es: "book_callbacks calls me1 = (me', outs2)"
    using 2(2) e by (auto simp: Let_def split: prod.splits)
  have "get_top_of_book u me1 = get_top_of_book u me"
    using e by (cases ev) (auto simp: get_top_of_book_def record_trade_def Let_def split: option.splits if_splits)
  then show ?case using 2(1) [OF e [symmetric] refl es] by simp
qed simp

lemma publish_query:
  assumes "publish_market_data s ts' me = (me', outs)" and "find_symbol me s = Some st"
  shows "get_top_of_book u me' = (if u = s then Some (top_of_book (ss_book st) ts') else get_top_of_book u me)"
  using assms by (auto simp: publish_market_data_def get_top_of_book_def Let_def split: prod.splits)
    (metis fst_conv l1_update_frame(2) snd_conv)+

lemma same_books_state:
  assumes "same_books me me'" and "find_symbol me s = Some st"
  obtains st' where "find_symbol me' s = Some st'" "ss_book st' = ss_book st" "ss_l2 st' = ss_l2 st"
  using same_books_find [OF assms(1), of s] assms(2) by auto

text \<open>The common tail of the three handlers: the book operation, its callbacks, the report and the
  publication.\<close>

lemma handler_outputs:
  assumes st: "find_symbol me0 s = Some st"
    and cb: "book_callbacks calls (set_symbol s (st\<lparr>ss_book := b'\<rparr>) me0) = (me1, outs1)"
    and pub: "publish_market_data s ts' me2 = (me', outs2)"
    and mid: "me_symbols me2 = me_symbols me1" "same_callbacks me1 me2"
  shows "outs1 @ exec_out rpt me2 @ outs2 = forward me0 calls @ exec_out rpt me0 @ depth_out s ts' b' me0"
    and "same_callbacks me0 me'"
    and "get_top_of_book u me' = (if u = s then Some (top_of_book b' ts') else get_top_of_book u me0)"
proof -
  let ?m = "set_symbol s (st\<lparr>ss_book := b'\<rparr>) me0"
  have m: "same_callbacks me0 ?m" "find_symbol ?m s = Some (st\<lparr>ss_book := b'\<rparr>)"
    by (simp_all add: same_callbacks_def)
  note c = book_callbacks_forward [OF cb]
  have flags: "same_callbacks me0 me2" using m(1) c mid(2) by (simp add: same_callbacks_def)
  obtain st1 where st1: "find_symbol me1 s = Some st1" "ss_book st1 = b'" "ss_l2 st1 = ss_l2 st"
    using same_books_state [OF conjunct1 [OF book_callbacks_same [OF cb]] m(2)] by auto
  then have "find_symbol me2 s = Some st1" using mid(1) by simp
  note p = publish_depth(2) [OF pub this]
  have "outs1 = forward me0 calls" using c same_callbacks_forward [OF m(1)] by simp
  moreover have "exec_out rpt me2 = exec_out rpt me0" using flags by (simp add: exec_out_def same_callbacks_def)
  moreover have "outs2 = depth_out s ts' b' me0"
    using p st st1 flags by (simp add: depth_out_def same_callbacks_def)
  ultimately show "outs1 @ exec_out rpt me2 @ outs2 = forward me0 calls @ exec_out rpt me0 @ depth_out s ts' b' me0"
    by simp
  show "same_callbacks me0 me'" using flags publish_depth(1) [OF pub] by (simp add: same_callbacks_def)
  have "get_top_of_book u ?m = get_top_of_book u me0" using st by (simp add: get_top_of_book_def)
  then show "get_top_of_book u me' = (if u = s then Some (top_of_book b' ts') else get_top_of_book u me0)"
    using publish_query [OF pub, of st1 u] st1 mid(1) book_callbacks_query [OF cb, of u]
    by (simp add: get_top_of_book_def)
qed

lemma publish_effect:
  "publish_market_data s ts' me = (me', outs) \<Longrightarrow> me_trades_generated me' = me_trades_generated me"
  using publish_same by blast

lemma submit_outputs:
  assumes sub: "submit_to_book order ts ts' st me = (rpt, me', outs)"
    and st: "find_symbol me (o_symbol order) = Some st"
    and add: "add_order (ss_book st) order ts = (r, b', calls)"
  shows "r = rpt" and "outs = forward me calls @ exec_out rpt me @ depth_out (o_symbol order) ts' b' me"
    and "same_callbacks me me'"
    and "me_trades_generated me' = me_trades_generated me + of_nat (length (trade_events calls))"
    and "get_top_of_book u me' = (if u = o_symbol order then Some (top_of_book b' ts') else get_top_of_book u me)"
proof -
  obtain me1 outs1 where cb: "book_callbacks calls (set_symbol (o_symbol order)
      (st\<lparr>ss_book := b'\<rparr>) me) = (me1, outs1)" by (metis surj_pair)
  obtain me2 outs2 where pub:
    "publish_market_data (o_symbol order) ts' (after_submit order r me1) = (me2, outs2)"
    by (metis surj_pair)
  have exec: "me_exec_cb (after_submit order r me1) = me_exec_cb me1"
    by (simp add: after_submit_def Let_def split: option.split)
  then have "r = rpt" "me2 = me'" "outs = outs1 @ (if me_exec_cb me1 then [ExecOut r] else []) @ outs2"
    using sub add cb pub by (simp_all add: submit_to_book_def after_submit_def exec_out_def Let_def)
  then have eq: "r = rpt" "me2 = me'" "outs = outs1 @ exec_out rpt (after_submit order rpt me1) @ outs2"
    using exec by (simp_all add: exec_out_def)
  have flags: "same_callbacks me1 (after_submit order rpt me1)"
    by (simp add: after_submit_def same_callbacks_def Let_def split: option.split)
  show "r = rpt" by (rule eq)
  show "outs = forward me calls @ exec_out rpt me @ depth_out (o_symbol order) ts' b' me" "same_callbacks me me'"
    "get_top_of_book u me' = (if u = o_symbol order then Some (top_of_book b' ts') else get_top_of_book u me)"
    using handler_outputs [OF st cb _ after_submit_frame(2) flags, of ts' me2 outs2] pub eq by simp_all
  have "me_trades_generated (after_submit order rpt me1) = me_trades_generated me1"
    by (simp add: after_submit_def Let_def split: option.split)
  then show "me_trades_generated me' = me_trades_generated me + of_nat (length (trade_events calls))"
    using book_callbacks_same [OF cb] publish_effect [OF pub] eq by simp
qed

lemma me_fields [simp]:
  "forward (me\<lparr>me_orders_processed := n, me_risk_engine := r\<rparr>) calls = forward me calls"
  "exec_out rpt (me\<lparr>me_orders_processed := n, me_risk_engine := r\<rparr>) = exec_out rpt me"
  "depth_out s ts' b (me\<lparr>me_orders_processed := n, me_risk_engine := r\<rparr>) = depth_out s ts' b me"
  "same_callbacks (me\<lparr>me_orders_processed := n, me_risk_engine := r\<rparr>) me' = same_callbacks me me'"
  "get_top_of_book u (me\<lparr>me_orders_processed := n, me_risk_engine := r\<rparr>) = get_top_of_book u me"
  by (simp_all add: forward_def exec_out_def depth_out_def same_callbacks_def get_top_of_book_def
      cong: book_event.case_cong)

text \<open>An operation that reaches a book.\<close>

lemma routed_outputs:
  assumes exec: "me_exec op me = Some me'" and res: "book_result op me = Some (s, rpt, b', calls)"
  shows "me_outputs op me = forward me calls @ exec_out rpt me @ depth_out s (publish_time op) b' me"
    and "same_callbacks me me'"
    and "me_trades_generated me' = me_trades_generated me + of_nat (length (trade_events calls))"
    and "get_book u me' = (if u = s then Some b' else get_book u me)"
    and "get_top_of_book u me' = (if u = s then Some (top_of_book b' (publish_time op)) else get_top_of_book u me)"
proof -
  have "me_outputs op me = forward me calls @ exec_out rpt me @ depth_out s (publish_time op) b' me \<and>
    same_callbacks me me' \<and>
    me_trades_generated me' = me_trades_generated me + of_nat (length (trade_events calls)) \<and>
    get_book u me' = (if u = s then Some b' else get_book u me) \<and>
    get_top_of_book u me' = (if u = s then Some (top_of_book b' (publish_time op)) else get_top_of_book u me)"
  proof (cases op)
    case (NewOrder order ts ts')
    obtain rpt' outs where p: "process_new_order order ts ts' me = (rpt', me', outs)"
      using exec NewOrder by (metis fst_conv me_exec.simps(2) option.inject prod.collapse)
    have out: "me_outputs op me = outs" using NewOrder p by simp
    obtain st where st: "find_symbol me (o_symbol order) = Some st" and s: "s = o_symbol order"
      and add: "add_order (ss_book st) order ts = (rpt, b', calls)"
      and ok: "case me_risk_engine me of None \<Rightarrow> True | Some risk \<Rightarrow> verdict risk order = NoReason"
      using res NewOrder by (auto simp: get_book_def split: bind_splits if_splits)
    show ?thesis
    proof (cases rule: process_new_order_cases [OF p])
      case 1
      then show ?thesis using st by simp
    next
      case (2 st1 risk reject risk')
      then show ?thesis using ok check_order_verdict(1) [OF 2(3) refl] by simp
    next
      case (3 st1 risk)
      have "st1 = st" using 3(1) st by simp
      moreover from submit_outputs [OF 3(3), where r = rpt and b' = b' and calls = calls] st add 3(1) have
        "outs = forward me calls @ exec_out rpt me @ depth_out s ts' b' me" "same_callbacks me me'"
        "me_trades_generated me' = me_trades_generated me + of_nat (length (trade_events calls))"
        "get_top_of_book u me' = (if u = s then Some (top_of_book b' ts') else get_top_of_book u me)"
        using s by simp_all
      ultimately show ?thesis using out submit_effect(2) [OF 3(3)] add s NewOrder by (simp add: get_book_def)
    qed
  next
    case (CancelOrder cancel ts ts')
    obtain st where s: "cancel_target cancel me = Some s" and st: "find_symbol me s = Some st"
      and c: "cancel_order (ss_book st) (c_order_id cancel) ts = Some (rpt, b', calls)"
      using res CancelOrder by (auto simp: get_book_def split: bind_splits)
    let ?after = "\<lambda>me1. if r_status rpt = Canceled
         then me1\<lparr>me_cancels_processed := me_cancels_processed me1 + 1,
                  me_order_symbol_index := (me_order_symbol_index me1)(c_order_id cancel := None)\<rparr> else me1"
    obtain me1 outs1 where cb: "book_callbacks calls (set_symbol s (st\<lparr>ss_book := b'\<rparr>) me) = (me1, outs1)"
      by (metis surj_pair)
    obtain me2 outs2 where pub: "publish_market_data s ts' (?after me1) = (me2, outs2)" by (metis surj_pair)
    have p: "process_cancel cancel ts ts' me = Some (rpt, me2, outs1 @ exec_out rpt (?after me1) @ outs2)"
      using s st c cb pub by (simp add: process_cancel_def cancel_target_def Let_def)
    then have eq: "me2 = me'" using exec CancelOrder by simp
    have "me_symbols (?after me1) = me_symbols me1" "same_callbacks me1 (?after me1)"
      "me_trades_generated (?after me1) = me_trades_generated me1"
      by (simp_all add: same_callbacks_def)
    with handler_outputs(1) [OF st cb pub, of rpt] handler_outputs(2,3) [OF st cb pub] book_callbacks_same [OF cb] publish_effect [OF pub]
      callbacks_books(1) [OF cb] publish_books(1) [OF pub] p eq
    show ?thesis by (simp add: CancelOrder get_book_def)
  next
    case (ReplaceOrder req ts ts')
    obtain st where s: "p_symbol req = s" and st: "find_symbol me s = Some st"
      and c: "replace_order (ss_book st) req ts = Some (rpt, b', calls)"
      using res ReplaceOrder by (auto simp: get_book_def split: bind_splits)
    obtain me1 outs1 where cb: "book_callbacks calls (set_symbol s (st\<lparr>ss_book := b'\<rparr>) me) = (me1, outs1)"
      by (metis surj_pair)
    obtain me2 outs2 where pub: "publish_market_data s ts' me1 = (me2, outs2)" by (metis surj_pair)
    have p: "process_replace req ts ts' me = Some (rpt, me2, outs1 @ exec_out rpt me1 @ outs2)"
      using s st c cb pub by (simp add: process_replace_def Let_def)
    then have eq: "me2 = me'" using exec ReplaceOrder by simp
    have "same_callbacks me1 me1" by (simp add: same_callbacks_def)
    with handler_outputs(1) [OF st cb pub refl, of rpt] handler_outputs(2,3) [OF st cb pub refl] book_callbacks_same [OF cb] publish_effect [OF pub]
      callbacks_books(1) [OF cb] publish_books(1) [OF pub] p eq
    show ?thesis by (simp add: ReplaceOrder)
  qed (use res in simp_all)
  then show "me_outputs op me = forward me calls @ exec_out rpt me @ depth_out s (publish_time op) b' me"
    "same_callbacks me me'"
    "me_trades_generated me' = me_trades_generated me + of_nat (length (trade_events calls))"
    "get_book u me' = (if u = s then Some b' else get_book u me)"
    "get_top_of_book u me' = (if u = s then Some (top_of_book b' (publish_time op)) else get_top_of_book u me)" by blast+
qed

text \<open>An operation that does not: an order that is refused, a request nobody can serve, or a call that
  changes the set-up.  All a client may get is the report of a refused order.\<close>

definition refusals :: "engine_event list \<Rightarrow> bool" where
  "refusals outs \<longleftrightarrow> (\<forall>ev \<in> set outs. \<exists>order reason ts. ev = ExecOut (early_reject order reason ts))"

lemma refusal_simps [simp]:
  "refusals []" "refusals [ExecOut (early_reject order reason ts)]" "refusals outs \<Longrightarrow> trade_outs outs = []"
  by (auto simp: refusals_def) (induction outs, auto)

lemma unrouted_outputs:
  assumes exec: "me_exec op me = Some me'" and res: "book_result op me = None"
  shows "refusals (me_outputs op me)"
    and "me_trades_generated me' = me_trades_generated me"
    and "get_book u me' = (case op of AddSymbol s \<Rightarrow>
        if u = s \<and> get_book s me = None then Some (on_top_of_book (on_trade (L3OrderBook_init s))) else get_book u me
      | _ \<Rightarrow> get_book u me)"
    and "me_trade_cb me \<Longrightarrow> me_trade_cb me'" "me_l1_cb me \<Longrightarrow> me_l1_cb me'" "me_l2_cb me \<Longrightarrow> me_l2_cb me'"
    and "get_top_of_book u me' =
      (if op = AddSymbol u \<and> get_book u me = None then None else get_top_of_book u me)"
proof -
  have "refusals (me_outputs op me) \<and>
    me_trades_generated me' = me_trades_generated me \<and>
    get_book u me' = (case op of AddSymbol s \<Rightarrow>
        if u = s \<and> get_book s me = None then Some (on_top_of_book (on_trade (L3OrderBook_init s))) else get_book u me
      | _ \<Rightarrow> get_book u me) \<and>
    get_top_of_book u me' =
      (if op = AddSymbol u \<and> get_book u me = None then None else get_top_of_book u me) \<and>
    (me_trade_cb me \<longrightarrow> me_trade_cb me') \<and> (me_l1_cb me \<longrightarrow> me_l1_cb me') \<and> (me_l2_cb me \<longrightarrow> me_l2_cb me')"
  proof (cases op)
    case (AddSymbol s)
    then show ?thesis using exec
      by (auto simp: add_symbol_def has_symbol_def get_book_def get_top_of_book_def L1Feed_init_def last_top_def)
  next
    case (NewOrder order ts ts')
    obtain rpt outs where p: "process_new_order order ts ts' me = (rpt, me', outs)"
      using exec NewOrder by (metis fst_conv me_exec.simps(2) option.inject prod.collapse)
    show ?thesis
    proof (cases rule: process_new_order_cases [OF p])
      case 1
      then show ?thesis using p NewOrder
        by (auto simp: process_new_order_def exec_out_def get_book_def get_top_of_book_def Let_def split: if_splits)
    next
      case (2 st risk reject risk')
      then show ?thesis using p NewOrder
        by (auto simp: process_new_order_def exec_out_def get_book_def get_top_of_book_def Let_def split: if_splits)
    next
      case (3 st risk)
      have "case me_risk_engine me of None \<Rightarrow> True | Some risk \<Rightarrow> verdict risk order = NoReason"
        using 3(2) check_order_verdict(1) by (fastforce split: option.splits)
      then show ?thesis using res NewOrder 3(1) by (simp add: get_book_def)
    qed
  next
    case (CancelOrder cancel ts ts')
    obtain rpt outs where p: "process_cancel cancel ts ts' me = Some (rpt, me', outs)"
      using exec CancelOrder by auto
    show ?thesis
    proof (cases rule: process_cancel_cases [OF p])
      case 1
      then have "outs = []" using p by (auto simp: process_cancel_def cancel_target_def Let_def split: if_splits)
      then show ?thesis using 1 p CancelOrder by simp
    next
      case (2 s st book calls me1 outs1 outs2)
      then show ?thesis using res CancelOrder by (simp add: get_book_def)
    qed
  next
    case (ReplaceOrder req ts ts')
    obtain rpt outs where p: "process_replace req ts ts' me = Some (rpt, me', outs)"
      using exec ReplaceOrder by auto
    show ?thesis
    proof (cases rule: process_replace_cases [OF p])
      case 1
      then have "outs = []" using p by (auto simp: process_replace_def)
      then show ?thesis using 1 p ReplaceOrder by simp
    next
      case (2 st book calls me1 outs1 outs2)
      then show ?thesis using res ReplaceOrder by (simp add: get_book_def)
    qed
  qed (use exec in \<open>auto simp: get_book_def get_top_of_book_def\<close>)
  then show "refusals (me_outputs op me)"
    "me_trades_generated me' = me_trades_generated me"
    "get_book u me' = (case op of AddSymbol s \<Rightarrow>
        if u = s \<and> get_book s me = None then Some (on_top_of_book (on_trade (L3OrderBook_init s))) else get_book u me
      | _ \<Rightarrow> get_book u me)"
    "me_trade_cb me \<Longrightarrow> me_trade_cb me'" "me_l1_cb me \<Longrightarrow> me_l1_cb me'" "me_l2_cb me \<Longrightarrow> me_l2_cb me'"
    "get_top_of_book u me' =
      (if op = AddSymbol u \<and> get_book u me = None then None else get_top_of_book u me)"
    by blast+
qed

section \<open>Queries\<close>

text \<open>What \<^verbatim>\<open>get_top_of_book\<close> may answer for a book: nothing defined while nothing has been published, and
  then the book is empty, or the top of the book, with the time stamp of the last publication.\<close>

definition query_ok :: "L3OrderBook \<Rightarrow> TopOfBook option \<Rightarrow> bool" where
  "query_ok b tob \<longleftrightarrow> tob = None \<and> all_nodes b = [] \<or> (\<exists>ts. tob = Some (top_of_book b ts))"

definition queries_ok :: "MatchingEngine \<Rightarrow> bool" where
  "queries_ok me \<longleftrightarrow> (\<forall>s b. get_book s me = Some b \<longrightarrow> query_ok b (get_top_of_book s me))"

lemma queries_step:
  assumes exec: "me_exec op me = Some me'" and ok: "queries_ok me"
  shows "queries_ok me'"
  unfolding queries_ok_def
proof (intro allI impI)
  fix s b
  assume b: "get_book s me' = Some b"
  show "query_ok b (get_top_of_book s me')"
  proof (cases "book_result op me")
    case None
    note u = unrouted_outputs(3,7) [OF exec None, of s]
    show ?thesis
    proof (cases "op = AddSymbol s \<and> get_book s me = None")
      case True
      then have "b = on_top_of_book (on_trade (L3OrderBook_init s))" "get_top_of_book s me' = None"
        using u b True by auto
      then show ?thesis
        by (simp add: query_ok_def on_top_of_book_def on_trade_def L3OrderBook_init_def all_nodes_def)
    next
      case False
      then have "get_book s me = Some b" using u(1) b by (auto split: me_op.splits if_splits)
      then show ?thesis using ok u(2) by (simp add: queries_ok_def)
    qed
  next
    case (Some x)
    obtain v rpt b' calls where "book_result op me = Some (v, rpt, b', calls)" using Some by (cases x) auto
    note r = routed_outputs(4,5) [OF exec this, of s]
    show ?thesis using r b ok by (auto simp: queries_ok_def query_ok_def split: if_splits)
  qed
qed

end
