(* ===== verification/EngineLimits.thy ===== *)
theory EngineLimits
  imports MatchingRouting RiskProperties
begin

text \<open>
  The position limits across the components: what the risk engine knows of the traders' positions
  while the matching engine asks it before every submission and reports the fills to it.
\<close>

section \<open>The filled quantity\<close>

lemma filled_range:
  assumes inv: "l3_inv b" and typed: "order_typed inc" and pos: "0 < o_quantity inc"
    and add: "add_order b inc ts = (rpt, b', calls)"
  shows "0 \<le> r_filled_qty rpt \<and> r_filled_qty rpt \<le> o_quantity inc"
proof (cases rule: add_order_effect [OF inv typed add])
  case 1
  then show ?thesis using pos by (simp add: base_report_def ExecutionReport_default_def)
next
  case 2
  then show ?thesis using settled_fields(1) [OF 2(4)] pos by (simp add: killed_result_def)
next
  case (3 r kept fs ls' result)
  note c = fill_conserves(2,3) [OF 3(3) eligible_ok [OF inv] less_imp_le [OF pos]]
  then have "wrap64 (o_quantity inc - r) = o_quantity inc - r"
    using typed by (intro wrap64_id) (simp add: order_typed_def i64_ok_def)
  then show ?thesis using settled_fields(1) [OF 3(8)] 3(4) c pos by auto
qed

section \<open>Engines with fixed limits\<close>

definition limits_ok :: "RiskEngine \<Rightarrow> bool" where
  "limits_ok e \<longleftrightarrow> (\<forall>t. 0 \<le> rl_max_position_per_symbol (get_limits e t) \<and> rl_max_position_per_symbol (get_limits e t) < 2 ^ 62 \<and>
     0 \<le> rl_max_net_position (get_limits e t) \<and> rl_max_net_position (get_limits e t) < 2 ^ 62)"

definition positions_within :: "RiskEngine \<Rightarrow> bool" where
  "positions_within e \<longleftrightarrow> (\<forall>t. (\<forall>s. \<bar>get_position e t s\<bar> \<le> rl_max_position_per_symbol (get_limits e t)) \<and>
     \<bar>rs_net_position (state_of e t)\<bar> \<le> rl_max_net_position (get_limits e t))"

lemma limits_okD:
  "limits_ok e \<Longrightarrow> rl_max_position_per_symbol (get_limits e t) < 2 ^ 62 \<and>
     rl_max_net_position (get_limits e t) < 2 ^ 62"
  by (simp add: limits_ok_def)

lemma positions_withinD:
  "positions_within e \<Longrightarrow> \<bar>get_position e t s\<bar> \<le> rl_max_position_per_symbol (get_limits e t) \<and>
     \<bar>rs_net_position (state_of e t)\<bar> \<le> rl_max_net_position (get_limits e t)"
  by (simp add: positions_within_def)

text \<open>
  The operations: everything a client or an administrator does, except changing the limits, binding
  another risk engine or reporting fills behind the engine's back.
\<close>

fun op_limited :: "me_op \<Rightarrow> bool" where
  "op_limited (NewOrder order ts ts') \<longleftrightarrow> order_typed order \<and> o_quantity order \<le> 2 ^ 62"
| "op_limited (ReplaceOrder req ts ts') \<longleftrightarrow> replace_typed req"
| "op_limited (BindRisk r) \<longleftrightarrow> False"
| "op_limited (RiskOp op) \<longleftrightarrow> (case op of Fill t symbol side qty price \<Rightarrow> False
     | SetTraderLimits t l \<Rightarrow> False | SetDefaultLimits l \<Rightarrow> False | _ \<Rightarrow> True)"
| "op_limited _ \<longleftrightarrow> True"

definition limited_init :: "MatchingEngine \<Rightarrow> bool" where
  "limited_init me \<longleftrightarrow> (\<exists>e. me = MatchingEngine_init\<lparr>me_risk_engine := Some e\<rparr> \<and>
     re_trader_states e = Map.empty \<and> limits_ok e)"

definition limited_step :: "MatchingEngine \<Rightarrow> MatchingEngine \<Rightarrow> bool" where
  "limited_step me me' \<longleftrightarrow> (\<exists>op. op_limited op \<and> me_exec op me = Some me')"

definition risk_ok :: "RiskEngine option \<Rightarrow> bool" where
  "risk_ok r \<longleftrightarrow> (\<exists>e. r = Some e \<and> limits_ok e \<and> positions_within e)"

definition limited_inv :: "MatchingEngine \<Rightarrow> bool" where
  "limited_inv me \<longleftrightarrow> me_inv me \<and> risk_ok (me_risk_engine me)"

lemma op_limited_typed: "op_limited op \<Longrightarrow> op_typed op"
  by (cases op) simp_all

text \<open>Asking and killing leave positions and limits alone.\<close>

lemma same_positions:
  assumes "\<And>t. get_limits e' t = get_limits e t" and "\<And>t. rs_positions (state_of e' t) = rs_positions (state_of e t)"
    and "\<And>t. rs_net_position (state_of e' t) = rs_net_position (state_of e t)"
  shows "risk_ok (Some e') = risk_ok (Some e)"
  using assms by (simp add: risk_ok_def limits_ok_def positions_within_def get_position_state position_of_def)

lemma check_keeps_risk: "check_order order e = (r, e') \<Longrightarrow> risk_ok (Some e') = risk_ok (Some e)"
  using check_order_verdict(5,6) [of order e r e' "o_trader_id order"]
  by (intro same_positions) auto

lemma kill_keeps_risk [simp]:
  "risk_ok (Some (kill_trader t e)) = risk_ok (Some e)" "risk_ok (Some (kill_all e)) = risk_ok (Some e)"
  "risk_ok (Some (unkill_trader t e)) = risk_ok (Some e)" "risk_ok (Some (unkill_all e)) = risk_ok (Some e)"
  by (rule same_positions; simp add: kill_states)+

lemma fill_keeps_risk:
  assumes ok: "risk_ok (Some e)" and c: "check_order order e = (NoReason, e')"
    and q: "0 \<le> qty" "qty \<le> o_quantity order" "o_quantity order \<le> 2 ^ 62"
  shows "risk_ok (Some (on_fill (o_trader_id order) (o_symbol order) (o_side order) qty px e'))"
proof -
  let ?t = "o_trader_id order" and ?s = "o_symbol order"
  let ?e = "on_fill ?t ?s (o_side order) qty px e'"
  have lim: "limits_ok e" and within: "positions_within e" using ok by (simp_all add: risk_ok_def)
  have l: "get_limits e' u = get_limits e u" for u using check_order_verdict(5) [OF c refl] .
  have small: "\<bar>get_position e ?t ?s\<bar> + o_quantity order < 2 ^ 63"
    "\<bar>rs_net_position (state_of e ?t)\<bar> + o_quantity order < 2 ^ 63"
    using limits_okD [OF lim, of ?t] positions_withinD [OF within, of ?t ?s] q(3) by auto
  from fill_within_limits [OF c refl q(1,2) small refl, of px] within
  have mine: "\<bar>get_position ?e ?t ?s\<bar> \<le> rl_max_position_per_symbol (get_limits e ?t)"
    "\<bar>rs_net_position (state_of ?e ?t)\<bar> \<le> rl_max_net_position (get_limits e ?t)"
    unfolding positions_within_def by (simp_all add: max_def split: if_splits)
  have other: "get_position ?e u v = get_position e u v" if "u \<noteq> ?t \<or> v \<noteq> ?s" for u v
    using that check_order_verdict(6) [OF c refl, of u]
    by (auto simp: get_position_state on_fill_state Let_def position_of_def)
  have net: "rs_net_position (state_of ?e u) = rs_net_position (state_of e u)" if "u \<noteq> ?t" for u
    using that check_order_verdict(6) [OF c refl, of u] by (auto simp: on_fill_state)
  have "\<bar>get_position ?e u v\<bar> \<le> rl_max_position_per_symbol (get_limits e u)" for u v
    using mine(1) other [of u v] within unfolding positions_within_def by metis
  moreover have "\<bar>rs_net_position (state_of ?e u)\<bar> \<le> rl_max_net_position (get_limits e u)" for u
    using mine(2) net [of u] within unfolding positions_within_def by metis
  ultimately show ?thesis using lim by (simp add: risk_ok_def limits_ok_def positions_within_def l)
qed

lemma new_order_keeps_risk:
  assumes inv: "me_inv me" and ok: "risk_ok (me_risk_engine me)"
    and typed: "order_typed order" "o_quantity order \<le> 2 ^ 62"
    and p: "process_new_order order ts ts' me = (rpt, me', outs)"
  shows "risk_ok (me_risk_engine me')"
proof (cases rule: process_new_order_cases [OF p])
  case 1
  then show ?thesis using ok by simp
next
  case (2 st risk reject risk')
  then show ?thesis using ok check_keeps_risk [OF 2(3)] by simp
next
  case (3 st r)
  obtain e where e: "me_risk_engine me = Some e" using ok by (auto simp: risk_ok_def)
  then obtain e' where c: "check_order order e = (NoReason, e')" "r = Some e'" using 3(2) by auto
  have "verdict e order = NoReason" using check_order_verdict(1) [OF c(1) refl] by simp
  then have pos: "0 < o_quantity order" by (auto simp: verdict_def Let_def split: if_splits)
  have book: "get_book (o_symbol order) me = Some (ss_book st)" using 3(1) by (simp add: get_book_def)
  obtain b' calls where add: "add_order (ss_book st) order ts = (rpt, b', calls)"
    using submit_effect(1) [OF 3(3)] by (metis prod_cases3 fst_conv)
  have "l3_inv (ss_book st)" using me_inv_book [OF inv book] by blast
  note range = filled_range [OF this typed(1) pos add]
  show ?thesis
    using submit_effect(4) [OF 3(3)] c(2) ok e check_keeps_risk [OF c(1)]
      fill_keeps_risk [OF _ c(1) conjunct1 [OF range] conjunct2 [OF range] typed(2)] by simp
qed

lemma cancel_keeps_risk:
  "process_cancel cancel ts ts' me = Some (rpt, me', outs) \<Longrightarrow> me_risk_engine me' = me_risk_engine me"
proof (erule process_cancel_cases)
  fix s st book calls me1 outs1 outs2
  assume "book_callbacks calls (set_symbol s (st\<lparr>ss_book := book\<rparr>) me) = (me1, outs1)"
    and "publish_market_data s ts'
      (if r_status rpt = Canceled
       then me1\<lparr>me_cancels_processed := me_cancels_processed me1 + 1,
              me_order_symbol_index := (me_order_symbol_index me1)(c_order_id cancel := None)\<rparr>
       else me1) = (me', outs2)"
  from callbacks_books(3) [OF this(1)] publish_books(3) [OF this(2)]
  show "me_risk_engine me' = me_risk_engine me" by simp
qed simp

lemma replace_keeps_risk:
  "process_replace req ts ts' me = Some (rpt, me', outs) \<Longrightarrow> me_risk_engine me' = me_risk_engine me"
  by (cases rule: replace_effect_engine) auto

lemma limited_step_inv:
  assumes "limited_inv me" and "op_limited op" and "me_exec op me = Some me'"
  shows "limited_inv me'"
proof -
  have inv: "me_inv me" and ok: "risk_ok (me_risk_engine me)" using assms(1) by (simp_all add: limited_inv_def)
  have "risk_ok (me_risk_engine me')"
  proof (cases op)
    case (NewOrder order ts ts')
    then show ?thesis using assms(2,3) new_order_keeps_risk [OF inv ok, of order ts ts'] by (metis fst_conv
        me_exec.simps(2) op_limited.simps(1) option.inject prod.collapse)
  next
    case (RiskOp rop)
    obtain e where "me_risk_engine me = Some e" using ok by (auto simp: risk_ok_def)
    then show ?thesis using RiskOp assms(2,3) ok check_keeps_risk
      by (cases rop) (auto, metis prod.collapse)
  next
    case (AddSymbol s)
    then show ?thesis using assms(3) ok by (auto simp: add_symbol_def set_symbol_def split: if_splits)
  qed (use assms ok in \<open>auto dest: cancel_keeps_risk replace_keeps_risk\<close>)
  then show ?thesis
    using me_step_inv [OF inv op_limited_typed [OF assms(2)] assms(3)] by (simp add: limited_inv_def)
qed

interpretation limits: invariant_system limited_init limited_step limited_inv
proof
  show "limited_inv me" if init: "limited_init me" for me
  proof -
    obtain e where e: "me = MatchingEngine_init\<lparr>me_risk_engine := Some e\<rparr>" "re_trader_states e = Map.empty" "limits_ok e"
      using init by (auto simp: limited_init_def)
    have "positions_within e"
      using e(2,3) by (simp add: positions_within_def limits_ok_def get_position_def state_of_def TraderRiskState_default_def)
    moreover have "me_inv me"
      using e(1) by (simp add: me_inv_def books_ok_def books_view_def trade_total_def MatchingEngine_init_def)
    ultimately show ?thesis using e by (simp add: limited_inv_def risk_ok_def)
  qed
  show "limited_inv t" if "limited_inv s" "limited_step s t" for s t
    using that limited_step_inv unfolding limited_step_def by blast
qed

abbreviation limited_reachable :: "MatchingEngine \<Rightarrow> bool" where
  "limited_reachable \<equiv> reachable limited_init limited_step"

section \<open>Properties\<close>

text \<open>C25: position limits across the components.  Start the matching engine with a fresh risk engine whose
  limits are fixed and below 2^62, and let clients submit (up to 2^62 units an order), cancel and
  replace, and administrators add symbols and use the kill switches, in any order: the positions and
  the net position the risk engine holds for every trader stay within the limits.\<close>

theorem engine_positions_limited:
  assumes "limited_reachable me"
  shows "\<exists>e. me_risk_engine me = Some e \<and>
    (\<forall>t. (\<forall>s. \<bar>get_position e t s\<bar> \<le> rl_max_position_per_symbol (get_limits e t)) \<and>
      \<bar>rs_net_position (state_of e t)\<bar> \<le> rl_max_net_position (get_limits e t))"
  using limits.reachable_inv [OF assms] by (auto simp: limited_inv_def risk_ok_def positions_within_def)

text \<open>A run of limited operations.\<close>

fun limited_run :: "me_op list \<Rightarrow> MatchingEngine \<Rightarrow> MatchingEngine option" where
  "limited_run [] me = Some me"
| "limited_run (op # ops) me =
     (if op_limited op then Option.bind (me_exec op me) (limited_run ops) else None)"

lemma limited_run_reachable:
  "limited_run ops me = Some me' \<Longrightarrow> limited_reachable me \<Longrightarrow> limited_reachable me'"
proof (induction ops arbitrary: me)
  case (Cons op ops)
  then obtain me1 where step: "op_limited op" "me_exec op me = Some me1"
    and rest: "limited_run ops me1 = Some me'" by (auto split: if_splits bind_splits)
  then have "limited_step me me1" unfolding limited_step_def by blast
  then show ?case using Cons.IH [OF rest] Cons.prems(2) reachable_step [of _ limited_step] by blast
qed simp

definition lim_order :: "OrderId \<Rightarrow> TraderId \<Rightarrow> Side \<Rightarrow> Quantity \<Rightarrow> Order" where
  "lim_order i t side q = Order_default\<lparr>o_id := i, o_trader_id := t, o_symbol := Symbol_of ''AAPL'',
     o_side := side, o_price := 100, o_quantity := q\<rparr>"

definition lim_ops :: "me_op list" where
  "lim_ops = [AddSymbol (Symbol_of ''AAPL''), NewOrder (lim_order 1 10 Sell 5) 1 1,
     NewOrder (lim_order 2 11 Buy 3) 2 2, RiskOp (KillTrader 10), NewOrder (lim_order 3 10 Buy 3) 3 3]"

definition lim_start :: MatchingEngine where
  "lim_start = MatchingEngine_init\<lparr>me_risk_engine := Some RiskEngine_init\<rparr>"

lemma limits_ok_default: "limits_ok RiskEngine_init"
  by (simp add: limits_ok_def RiskEngine_init_def get_limits_def TraderRiskLimits_default_def
      DEFAULT_POSITION_LIMIT_def wrap64_def)

lemma lim_start_reachable: "limited_reachable lim_start"
proof (rule reachable_init)
  have "re_trader_states RiskEngine_init = Map.empty" by (simp add: RiskEngine_init_def)
  then show "limited_init lim_start" unfolding limited_init_def lim_start_def using limits_ok_default by blast
qed

theorem engine_positions_limited_witness:
  "let me = the (limited_run lim_ops lim_start); e = the (me_risk_engine me) in
     get_position e 11 (Symbol_of ''AAPL'') = 3 \<and>
     \<bar>rs_net_position (state_of e 11)\<bar> \<le> rl_max_net_position (get_limits e 11)"
proof -
  have run: "limited_run lim_ops lim_start \<noteq> None" by code_simp
  then have "limited_reachable (the (limited_run lim_ops lim_start))"
    using limited_run_reachable [OF _ lim_start_reachable] by auto
  from engine_positions_limited [OF this] obtain e where
    "me_risk_engine (the (limited_run lim_ops lim_start)) = Some e"
    "\<bar>rs_net_position (state_of e 11)\<bar> \<le> rl_max_net_position (get_limits e 11)" by blast
  moreover have "get_position (the (me_risk_engine (the (limited_run lim_ops lim_start)))) 11 (Symbol_of ''AAPL'') = 3"
    by code_simp
  ultimately show ?thesis by (simp add: Let_def)
qed

end
