(* ===== verification/TradePositions.thy ===== *)
theory TradePositions
  imports Types Floats
begin

text \<open>
  \<^verbatim>\<open>src/market/trade_engine.hpp\<close> and \<^verbatim>\<open>.cpp\<close>: positions per trader and symbol, and their profit and
  loss.  \<^verbatim>\<open>positions_\<close> is iterated, so it is an association list (its order stands for the
  unspecified order of the hash map).  Amounts of type \<^verbatim>\<open>double\<close> go through the operations \<open>F\<close>.  The
  two callbacks are flags, and an operation returns the calls it makes.
\<close>

section \<open>State\<close>

record 'f Position =
  pos_symbol :: Symbol
  pos_net_qty :: Quantity
  pos_buy_qty :: Quantity
  pos_sell_qty :: Quantity
  pos_avg_buy_price :: 'f
  pos_avg_sell_price :: 'f
  pos_realized_pnl :: 'f
  pos_unrealized_pnl :: 'f

definition Position_default :: "'f float_ops \<Rightarrow> 'f Position" where
  "Position_default F = \<lparr>pos_symbol = Symbol_default, pos_net_qty = 0, pos_buy_qty = 0, pos_sell_qty = 0,
     pos_avg_buy_price = fl_lit F 0, pos_avg_sell_price = fl_lit F 0, pos_realized_pnl = fl_lit F 0,
     pos_unrealized_pnl = fl_lit F 0\<rparr>"

type_synonym TraderSymbolKey = "TraderId \<times> Symbol"

record 'f TradeEngine =
  te_positions :: "(TraderSymbolKey \<times> 'f Position) list"
  te_trade_cb :: bool
  te_position_cb :: bool
  te_total_trades :: "64 word"
  te_total_volume :: Quantity
  te_total_notional :: 'f

datatype 'f te_call = TradeCall Trade | PositionCall TraderId "'f Position"

definition TradeEngine_init :: "'f float_ops \<Rightarrow> 'f TradeEngine" where
  "TradeEngine_init F = \<lparr>te_positions = [], te_trade_cb = False, te_position_cb = False,
     te_total_trades = 0, te_total_volume = 0, te_total_notional = fl_lit F 0\<rparr>"

definition trades_total :: "'f TradeEngine \<Rightarrow> 64 word" where
  "trades_total te = te_total_trades te"

definition volume_total :: "'f TradeEngine \<Rightarrow> Quantity" where
  "volume_total te = te_total_volume te"

definition notional_total :: "'f TradeEngine \<Rightarrow> 'f" where
  "notional_total te = te_total_notional te"

definition te_on_trade :: "'f TradeEngine \<Rightarrow> 'f TradeEngine" where
  "te_on_trade te = te\<lparr>te_trade_cb := True\<rparr>"

definition te_on_position :: "'f TradeEngine \<Rightarrow> 'f TradeEngine" where
  "te_on_position te = te\<lparr>te_position_cb := True\<rparr>"

section \<open>Positions\<close>

text \<open>The two branches of \<^verbatim>\<open>update_position\<close>, on the position itself.\<close>

definition buy_fill :: "'f float_ops \<Rightarrow> Quantity \<Rightarrow> Price \<Rightarrow> 'f Position \<Rightarrow> 'f Position" where
  "buy_fill F qty price pos0 =
     (let fill_price = fl_of_int F price; fill_qty = fl_of_int F qty;
          pos = (if pos_net_qty pos0 < 0
                 then (let close_qty = min qty (sub64 0 (pos_net_qty pos0))
                       in pos0\<lparr>pos_realized_pnl := fl_add F (pos_realized_pnl pos0)
                            (fl_mul F (fl_of_int F close_qty) (fl_sub F (pos_avg_sell_price pos0) fill_price))\<rparr>)
                 else pos0);
          pos = (if pos_net_qty pos \<ge> 0
                 then (let old_cost = fl_mul F (pos_avg_buy_price pos) (fl_of_int F (pos_buy_qty pos));
                           bq = add64 (pos_buy_qty pos) qty
                       in pos\<lparr>pos_buy_qty := bq,
                              pos_avg_buy_price := fl_div F (fl_add F old_cost (fl_mul F fill_price fill_qty))
                                (fl_of_int F bq)\<rparr>)
                 else pos)
      in pos\<lparr>pos_net_qty := add64 (pos_net_qty pos) qty\<rparr>)"

definition sell_fill :: "'f float_ops \<Rightarrow> Quantity \<Rightarrow> Price \<Rightarrow> 'f Position \<Rightarrow> 'f Position" where
  "sell_fill F qty price pos0 =
     (let fill_price = fl_of_int F price; fill_qty = fl_of_int F qty;
          pos = (if pos_net_qty pos0 > 0
                 then (let close_qty = min qty (pos_net_qty pos0)
                       in pos0\<lparr>pos_realized_pnl := fl_add F (pos_realized_pnl pos0)
                            (fl_mul F (fl_of_int F close_qty) (fl_sub F fill_price (pos_avg_buy_price pos0)))\<rparr>)
                 else pos0);
          pos = (if pos_net_qty pos \<le> 0
                 then (let old_cost = fl_mul F (pos_avg_sell_price pos) (fl_of_int F (pos_sell_qty pos));
                           sq = add64 (pos_sell_qty pos) qty
                       in pos\<lparr>pos_sell_qty := sq,
                              pos_avg_sell_price := fl_div F (fl_add F old_cost (fl_mul F fill_price fill_qty))
                                (fl_of_int F sq)\<rparr>)
                 else pos)
      in pos\<lparr>pos_net_qty := sub64 (pos_net_qty pos) qty\<rparr>)"

text \<open>\<^verbatim>\<open>positions_[key]\<close> inserts a fresh position.\<close>

definition update_position :: "'f float_ops \<Rightarrow> TraderId \<Rightarrow> Symbol \<Rightarrow> Side \<Rightarrow> Quantity \<Rightarrow> Price
    \<Rightarrow> 'f TradeEngine \<Rightarrow> 'f TradeEngine \<times> 'f te_call list" where
  "update_position F trader_id symbol side qty price te =
     (let pos = (case map_of (te_positions te) (trader_id, symbol) of
                   None \<Rightarrow> Position_default F | Some pos \<Rightarrow> pos);
          pos = pos\<lparr>pos_symbol := symbol\<rparr>;
          pos = (case side of Buy \<Rightarrow> buy_fill F qty price pos | Sell \<Rightarrow> sell_fill F qty price pos)
      in (te\<lparr>te_positions := AList.update (trader_id, symbol) pos (te_positions te)\<rparr>,
          if te_position_cb te then [PositionCall trader_id pos] else []))"

definition process_trade :: "'f float_ops \<Rightarrow> Trade \<Rightarrow> 'f TradeEngine \<Rightarrow> 'f TradeEngine \<times> 'f te_call list" where
  "process_trade F trade te =
     (let te = te\<lparr>te_total_trades := te_total_trades te + 1,
                  te_total_volume := add64 (te_total_volume te) (t_qty trade),
                  te_total_notional := fl_add F (te_total_notional te)
                    (fl_mul F (fl_of_int F (t_qty trade)) (fl_of_int F (t_price trade)))\<rparr>;
          (te, calls1) = update_position F (t_incoming_trader trade) (t_symbol trade)
                           (t_aggressor_side trade) (t_qty trade) (t_price trade) te;
          passive_side = (if t_aggressor_side trade = Buy then Sell else Buy);
          (te, calls2) = update_position F (t_resting_trader trade) (t_symbol trade) passive_side
                           (t_qty trade) (t_price trade) te
      in (te, calls1 @ calls2 @ (if te_trade_cb te then [TradeCall trade] else [])))"

definition te_get_position :: "TraderId \<Rightarrow> Symbol \<Rightarrow> 'f TradeEngine \<Rightarrow> 'f Position option" where
  "te_get_position trader_id symbol te = map_of (te_positions te) (trader_id, symbol)"

definition get_positions :: "TraderId \<Rightarrow> 'f TradeEngine \<Rightarrow> 'f Position list" where
  "get_positions trader_id te = map snd (filter (\<lambda>(key, pos). fst key = trader_id) (te_positions te))"

definition mark_position :: "'f float_ops \<Rightarrow> Price \<Rightarrow> 'f Position \<Rightarrow> 'f Position" where
  "mark_position F current_price pos = pos\<lparr>pos_unrealized_pnl :=
     (if pos_net_qty pos > 0
      then fl_mul F (fl_of_int F (pos_net_qty pos)) (fl_sub F (fl_of_int F current_price) (pos_avg_buy_price pos))
      else if pos_net_qty pos < 0
      then fl_mul F (fl_of_int F (sub64 0 (pos_net_qty pos)))
             (fl_sub F (pos_avg_sell_price pos) (fl_of_int F current_price))
      else fl_lit F 0)\<rparr>"

definition mark_to_market :: "'f float_ops \<Rightarrow> Symbol \<Rightarrow> Price \<Rightarrow> 'f TradeEngine \<Rightarrow> 'f TradeEngine" where
  "mark_to_market F symbol current_price te =
     te\<lparr>te_positions := map (\<lambda>(key, pos). (key, if snd key = symbol then mark_position F current_price pos
                                                 else pos)) (te_positions te)\<rparr>"

section \<open>Net positions\<close>

lemma fill_net [simp]:
  "pos_net_qty (buy_fill F qty price pos) = add64 (pos_net_qty pos) qty"
  "pos_net_qty (sell_fill F qty price pos) = sub64 (pos_net_qty pos) qty"
  "pos_symbol (buy_fill F qty price pos) = pos_symbol pos"
  "pos_symbol (sell_fill F qty price pos) = pos_symbol pos"
  by (simp_all add: buy_fill_def sell_fill_def Let_def)

lemma mark_net [simp]: "pos_net_qty (mark_position F p pos) = pos_net_qty pos"
  "pos_symbol (mark_position F p pos) = pos_symbol pos"
  by (simp_all add: mark_position_def)

definition te_inv :: "'f TradeEngine \<Rightarrow> bool" where
  "te_inv te \<longleftrightarrow> distinct (map fst (te_positions te)) \<and> (\<forall>(key, pos) \<in> set (te_positions te). pos_symbol pos = snd key)"

text \<open>The sum of the net quantities held in a symbol, over all traders.\<close>

definition symbol_net :: "Symbol \<Rightarrow> 'f TradeEngine \<Rightarrow> int" where
  "symbol_net s te = (\<Sum>(key, pos)\<leftarrow>te_positions te. if pos_symbol pos = s then pos_net_qty pos else 0)"

definition signed_fill :: "Side \<Rightarrow> Quantity \<Rightarrow> int" where
  "signed_fill side qty = (case side of Buy \<Rightarrow> qty | Sell \<Rightarrow> - qty)"

lemma wrap64_dvd: "(2 ^ 64 :: int) dvd wrap64 x - x"
  by (simp add: wrap64_def mod_eq_dvd_iff [symmetric] mod_simps)

lemma update_position_effect:
  assumes inv: "te_inv te" and up: "update_position F t u side qty price te = (te', calls)"
  shows "te_inv te'"
    and "2 ^ 64 dvd symbol_net s te' - (symbol_net s te + (if s = u then signed_fill side qty else 0))"
    and "te_total_trades te' = te_total_trades te" "te_total_volume te' = te_total_volume te"
proof -
  define pos0 where "pos0 = (case map_of (te_positions te) (t, u) of None \<Rightarrow> Position_default F | Some pos \<Rightarrow> pos)"
  define pos where "pos = (case side of Buy \<Rightarrow> buy_fill F qty price (pos0\<lparr>pos_symbol := u\<rparr>)
      | Sell \<Rightarrow> sell_fill F qty price (pos0\<lparr>pos_symbol := u\<rparr>))"
  have te': "te' = te\<lparr>te_positions := AList.update (t, u) pos (te_positions te)\<rparr>"
    using up unfolding update_position_def pos_def pos0_def by (auto simp: Let_def)
  have p: "pos_symbol pos = u" "pos_net_qty pos = wrap64 (pos_net_qty pos0 + signed_fill side qty)"
    by (simp_all add: pos_def signed_fill_def split: Side.split)
  have dist: "distinct (map fst (te_positions te))"
    and keys: "\<And>key q. (key, q) \<in> set (te_positions te) \<Longrightarrow> pos_symbol q = snd key"
    using inv by (auto simp: te_inv_def)
  have "set (AList.update (t, u) pos (te_positions te)) \<subseteq> insert ((t, u), pos) (set (te_positions te))"
    by (rule update_subset)
  then show "te_inv te'" using dist keys p(1) te' by (auto simp: te_inv_def distinct_update)
  define f where "f p = (if pos_symbol p = s then pos_net_qty p else 0)" for p :: "'a Position"
  have net: "symbol_net s te = (\<Sum>(key, pos)\<leftarrow>te_positions te. f pos)" for te :: "'a TradeEngine"
    by (simp add: symbol_net_def f_def)
  have old: "(case map_of (te_positions te) (t, u) of None \<Rightarrow> 0 | Some p \<Rightarrow> f p) = (if s = u then pos_net_qty pos0 else 0)"
    using keys [of "(t, u)"]
    by (auto simp: f_def pos0_def Position_default_def dest!: map_of_SomeD split: option.split)
  have "symbol_net s te' = symbol_net s te + f pos - (if s = u then pos_net_qty pos0 else 0)"
    using sum_update [OF dist, of f "(t, u)" pos] old te' by (simp add: net)
  moreover have "f pos = (if s = u then wrap64 (pos_net_qty pos0 + signed_fill side qty) else 0)"
    using p by (simp add: f_def eq_commute)
  ultimately show "2 ^ 64 dvd symbol_net s te' - (symbol_net s te + (if s = u then signed_fill side qty else 0))"
    using wrap64_dvd [of "pos_net_qty pos0 + signed_fill side qty"] by (auto simp: algebra_simps)
  show "te_total_trades te' = te_total_trades te" "te_total_volume te' = te_total_volume te"
    using te' by simp_all
qed

definition te_balanced :: "'f TradeEngine \<Rightarrow> bool" where
  "te_balanced te \<longleftrightarrow> te_inv te \<and> (\<forall>s. 2 ^ 64 dvd symbol_net s te)"

lemma process_trade_balanced:
  assumes bal: "te_balanced te" and p: "process_trade F trade te = (te', calls)"
  shows "te_balanced te'" "te_total_trades te' = te_total_trades te + 1"
    "te_total_volume te' = wrap64 (te_total_volume te + t_qty trade)"
proof -
  let ?te = "te\<lparr>te_total_trades := te_total_trades te + 1,
                  te_total_volume := add64 (te_total_volume te) (t_qty trade),
                  te_total_notional := fl_add F (te_total_notional te)
                    (fl_mul F (fl_of_int F (t_qty trade)) (fl_of_int F (t_price trade)))\<rparr>"
  let ?passive = "if t_aggressor_side trade = Buy then Sell else Buy"
  obtain te1 calls1 where u1: "update_position F (t_incoming_trader trade) (t_symbol trade)
      (t_aggressor_side trade) (t_qty trade) (t_price trade) ?te = (te1, calls1)" by (metis surj_pair)
  obtain te2 calls2 where u2: "update_position F (t_resting_trader trade) (t_symbol trade)
      ?passive (t_qty trade) (t_price trade) te1 = (te2, calls2)" by (metis surj_pair)
  have te': "te' = te2" using p u1 u2 by (simp add: process_trade_def Let_def)
  have inv: "te_inv ?te" and net: "symbol_net s ?te = symbol_net s te" for s
    using bal by (simp_all add: te_balanced_def te_inv_def symbol_net_def)
  note e1 = update_position_effect [OF inv u1] and e2 = update_position_effect [OF update_position_effect(1) [OF inv u1] u2]
  have "2 ^ 64 dvd symbol_net s te2" for s
  proof -
    let ?d = "\<lambda>side. if s = t_symbol trade then signed_fill side (t_qty trade) else 0"
    have opp: "?d (t_aggressor_side trade) + ?d ?passive = 0"
      by (cases "t_aggressor_side trade") (simp_all add: signed_fill_def)
    have "symbol_net s te2 = (symbol_net s te2 - (symbol_net s te1 + ?d ?passive)) +
        (symbol_net s te1 - (symbol_net s ?te + ?d (t_aggressor_side trade))) + symbol_net s te"
      using opp net [of s] by simp
    moreover have "2 ^ 64 dvd symbol_net s te" using bal by (simp add: te_balanced_def)
    ultimately show ?thesis using e1(2) [of s] e2(2) [of s] by (metis dvd_add)
  qed
  then show "te_balanced te'" using e2(1) te' by (simp add: te_balanced_def)
  show "te_total_trades te' = te_total_trades te + 1"
    "te_total_volume te' = wrap64 (te_total_volume te + t_qty trade)"
    using e1(3,4) e2(3,4) te' by simp_all
qed

lemma mark_balanced: "te_balanced te \<Longrightarrow> te_balanced (mark_to_market F s p te)"
proof -
  assume bal: "te_balanced te"
  let ?f = "\<lambda>(key, pos). (key, if snd key = s then mark_position F p pos else pos)"
  have "map fst (map ?f (te_positions te)) = map fst (te_positions te)" by auto
  then have "te_inv (mark_to_market F s p te)"
    using bal by (auto simp: te_balanced_def te_inv_def mark_to_market_def simp del: map_map)
  moreover have "symbol_net u (mark_to_market F s p te) = symbol_net u te" for u
    unfolding symbol_net_def mark_to_market_def by (auto simp: comp_def intro!: arg_cong [of _ _ sum_list])
  ultimately show ?thesis using bal by (simp add: te_balanced_def)
qed

lemma callbacks_balanced [simp]: "te_balanced (te_on_trade te) = te_balanced te"
  "te_balanced (te_on_position te) = te_balanced te"
  by (simp_all add: te_balanced_def te_inv_def symbol_net_def te_on_trade_def te_on_position_def)

inductive te_step :: "'f float_ops \<Rightarrow> 'f TradeEngine \<Rightarrow> 'f TradeEngine \<Rightarrow> bool" for F where
  trade: "process_trade F trade te = (te', calls) \<Longrightarrow> te_step F te te'"
| mark: "te_step F te (mark_to_market F symbol price te)"
| trade_cb: "te_step F te (te_on_trade te)"
| position_cb: "te_step F te (te_on_position te)"

interpretation trade_engine: invariant_system "\<lambda>te. te = TradeEngine_init F" "te_step F" te_balanced
  for F :: "'f float_ops"
proof
  show "te_balanced s" if "s = TradeEngine_init F" for s :: "'f TradeEngine"
    using that by (simp add: te_balanced_def te_inv_def symbol_net_def TradeEngine_init_def)
  show "te_balanced t" if "te_balanced s" "te_step F s t" for s t :: "'f TradeEngine"
    using that(2,1) by cases (auto intro: process_trade_balanced(1) mark_balanced)
qed

abbreviation te_reachable :: "'f float_ops \<Rightarrow> 'f TradeEngine \<Rightarrow> bool" where
  "te_reachable F \<equiv> reachable (\<lambda>te. te = TradeEngine_init F) (te_step F)"

section \<open>Profit and loss without rounding\<close>

definition cash :: "(Quantity \<times> Price) list \<Rightarrow> int" where
  "cash fills = (\<Sum>(q, p)\<leftarrow>fills. q * p)"

definition run_buys :: "'f float_ops \<Rightarrow> (Quantity \<times> Price) list \<Rightarrow> 'f Position \<Rightarrow> 'f Position" where
  "run_buys F fills pos = foldl (\<lambda>pos (q, p). buy_fill F q p pos) pos fills"

definition run_sells :: "'f float_ops \<Rightarrow> (Quantity \<times> Price) list \<Rightarrow> 'f Position \<Rightarrow> 'f Position" where
  "run_sells F fills pos = foldl (\<lambda>pos (q, p). sell_fill F q p pos) pos fills"

lemma sum_fst_nonneg: "list_all (\<lambda>(q, p). 0 < q) fills \<Longrightarrow> 0 \<le> sum_list (map fst fills)" for fills :: "(int \<times> int) list"
  by (induction fills) auto

lemma buy_step:
  assumes "pos_net_qty pos = n" and "pos_buy_qty pos = n" and "0 \<le> n" and "0 < q" and "n + q \<le> I64_MAX"
    and "pos_avg_buy_price pos * of_int n = of_int c"
  shows "pos_net_qty (buy_fill exact_ops q p pos) = n + q \<and> pos_buy_qty (buy_fill exact_ops q p pos) = n + q \<and>
    pos_avg_buy_price (buy_fill exact_ops q p pos) * of_int (n + q) = of_int (c + q * p) \<and>
    pos_realized_pnl (buy_fill exact_ops q p pos) = pos_realized_pnl pos"
proof -
  have range: "wrap64 (n + q) = n + q" using assms(3-5) by (intro wrap64_id) (simp add: i64_ok_def)
  have ne: "(of_int n + of_int q :: rat) \<noteq> 0"
    using assms(3,4) by (metis add_nonneg_pos less_irrefl of_int_0_less_iff of_int_add)
  show ?thesis using assms ne by (simp add: buy_fill_def range Let_def mult.commute)
qed

lemma sell_step:
  assumes "pos_net_qty pos = n" and "0 < q" and "q \<le> n" and "n \<le> I64_MAX"
  shows "pos_net_qty (sell_fill exact_ops q p pos) = n - q \<and>
    pos_avg_buy_price (sell_fill exact_ops q p pos) = pos_avg_buy_price pos \<and>
    pos_realized_pnl (sell_fill exact_ops q p pos) =
      pos_realized_pnl pos + of_int q * (of_int p - pos_avg_buy_price pos)"
proof -
  have "wrap64 (n - q) = n - q" using assms(2-4) by (intro wrap64_id) (simp add: i64_ok_def)
  moreover have "min q n = q" using assms(3) by simp
  ultimately show ?thesis using assms by (simp add: sell_fill_def Let_def)
qed

lemma run_buys_exact:
  assumes "list_all (\<lambda>(q, p). 0 < q) fills" and "sum_list (map fst fills) \<le> I64_MAX"
  shows "pos_net_qty (run_buys exact_ops fills (Position_default exact_ops)) = sum_list (map fst fills) \<and>
    pos_buy_qty (run_buys exact_ops fills (Position_default exact_ops)) = sum_list (map fst fills) \<and>
    pos_avg_buy_price (run_buys exact_ops fills (Position_default exact_ops)) * of_int (sum_list (map fst fills)) =
      of_int (cash fills) \<and>
    pos_realized_pnl (run_buys exact_ops fills (Position_default exact_ops)) = 0"
  using assms
proof (induction fills rule: rev_induct)
  case Nil
  then show ?case by (simp add: run_buys_def Position_default_def cash_def)
next
  case (snoc f fills)
  obtain q p where f: "f = (q, p)" by (cases f)
  have q: "0 < q" and pos: "list_all (\<lambda>(q, p). 0 < q) fills" using snoc.prems(1) f by auto
  have nonneg: "0 \<le> sum_list (map fst fills)" by (rule sum_fst_nonneg [OF pos])
  have bound: "sum_list (map fst fills) + q \<le> I64_MAX" using snoc.prems(2) f by simp
  then have ih: "pos_net_qty (run_buys exact_ops fills (Position_default exact_ops)) = sum_list (map fst fills)"
    "pos_buy_qty (run_buys exact_ops fills (Position_default exact_ops)) = sum_list (map fst fills)"
    "pos_avg_buy_price (run_buys exact_ops fills (Position_default exact_ops)) * of_int (sum_list (map fst fills)) =
      of_int (cash fills)"
    "pos_realized_pnl (run_buys exact_ops fills (Position_default exact_ops)) = 0"
    using snoc.IH [OF pos] q by simp_all
  have step: "run_buys exact_ops (fills @ [f]) pos = buy_fill exact_ops q p (run_buys exact_ops fills pos)" for pos
    by (simp add: run_buys_def f)
  have sums: "sum_list (map fst (fills @ [f])) = sum_list (map fst fills) + q" "cash (fills @ [f]) = cash fills + q * p"
    by (simp_all add: f cash_def)
  show ?case unfolding step sums using buy_step [OF ih(1,2) nonneg q bound ih(3), of p] ih(4) by simp
qed

lemma run_sells_exact:
  assumes "list_all (\<lambda>(q, p). 0 < q) fills" and "pos_net_qty pos \<le> I64_MAX"
    and "sum_list (map fst fills) \<le> pos_net_qty pos"
  shows "pos_net_qty (run_sells exact_ops fills pos) = pos_net_qty pos - sum_list (map fst fills) \<and>
    pos_avg_buy_price (run_sells exact_ops fills pos) = pos_avg_buy_price pos \<and>
    pos_realized_pnl (run_sells exact_ops fills pos) = pos_realized_pnl pos + of_int (cash fills) -
      of_int (sum_list (map fst fills)) * pos_avg_buy_price pos"
  using assms
proof (induction fills rule: rev_induct)
  case Nil
  then show ?case by (simp add: run_sells_def cash_def)
next
  case (snoc f fills)
  obtain q p where f: "f = (q, p)" by (cases f)
  have q: "0 < q" and pos: "list_all (\<lambda>(q, p). 0 < q) fills" using snoc.prems(1) f by auto
  have small: "sum_list (map fst fills) \<le> pos_net_qty pos" and rest: "q \<le> pos_net_qty pos - sum_list (map fst fills)"
    using snoc.prems(3) q f by simp_all
  have nonneg: "0 \<le> sum_list (map fst fills)" by (rule sum_fst_nonneg [OF pos])
  note ih = snoc.IH [OF pos snoc.prems(2) small]
  have step: "run_sells exact_ops (fills @ [f]) pos = sell_fill exact_ops q p (run_sells exact_ops fills pos)" for pos
    by (simp add: run_sells_def f)
  have sums: "sum_list (map fst (fills @ [f])) = sum_list (map fst fills) + q" "cash (fills @ [f]) = cash fills + q * p"
    by (simp_all add: f cash_def)
  have "pos_net_qty pos - sum_list (map fst fills) \<le> I64_MAX" using snoc.prems(2) nonneg by simp
  from sell_step [OF conjunct1 [OF ih] q rest this, of p] show ?case
    unfolding step sums using ih by (simp add: algebra_simps del: fill_net)
qed

section \<open>Properties\<close>

text \<open>C31: without rounding, the profit and loss of a position that was bought and then (partly or
  completely) sold is what the cash flows say: realized plus unrealized profit equals what the sales
  brought, minus what the purchases cost, plus the value of what is left at the mark price.\<close>

theorem pnl_matches_cash:
  assumes "list_all (\<lambda>(q, p). 0 < q) (buys @ sells)" and "sum_list (map fst buys) \<le> I64_MAX"
    and "sum_list (map fst sells) \<le> sum_list (map fst buys)"
  shows "(let pos = mark_position exact_ops m (run_sells exact_ops sells (run_buys exact_ops buys (Position_default exact_ops)))
          in pos_net_qty pos = sum_list (map fst buys) - sum_list (map fst sells) \<and>
             pos_realized_pnl pos + pos_unrealized_pnl pos =
               of_int (cash sells - cash buys + pos_net_qty pos * m))"
proof -
  let ?b = "run_buys exact_ops buys (Position_default exact_ops)"
  let ?s = "run_sells exact_ops sells ?b"
  have pos: "list_all (\<lambda>(q, p). 0 < q) buys" "list_all (\<lambda>(q, p). 0 < q) sells" using assms(1) by simp_all
  note b = run_buys_exact [OF pos(1) assms(2)]
  have "pos_net_qty ?b \<le> I64_MAX" "sum_list (map fst sells) \<le> pos_net_qty ?b" using b assms(2,3) by simp_all
  note s = run_sells_exact [OF pos(2) this]
  have net: "pos_net_qty ?s = sum_list (map fst buys) - sum_list (map fst sells)" using b s by simp
  have cost: "pos_avg_buy_price ?s * of_int (sum_list (map fst buys)) = of_int (cash buys)" using b s by simp
  have real: "pos_realized_pnl ?s = of_int (cash sells) - of_int (sum_list (map fst sells)) * pos_avg_buy_price ?s"
    using b s by simp
  let ?n = "sum_list (map fst buys) - sum_list (map fst sells)"
  have unreal: "pos_unrealized_pnl (mark_position exact_ops m ?s) =
      of_int ?n * (of_int m - pos_avg_buy_price ?s)"
    using net assms(3) by (simp add: mark_position_def)
  have "pos_realized_pnl (mark_position exact_ops m ?s) = pos_realized_pnl ?s"
    by (simp add: mark_position_def)
  then have "pos_realized_pnl (mark_position exact_ops m ?s) + pos_unrealized_pnl (mark_position exact_ops m ?s) =
      of_int (cash sells) + of_int ?n * of_int m - pos_avg_buy_price ?s * of_int (sum_list (map fst buys))"
    unfolding unreal real by (simp add: algebra_simps)
  then show ?thesis using net cost by (simp add: Let_def)
qed

theorem pnl_matches_cash_witness:
  "let pos = mark_position exact_ops 120 (run_sells exact_ops [(10, 115)]
       (run_buys exact_ops [(10, 100), (10, 110)] (Position_default exact_ops)))
   in pos_net_qty pos = 10 \<and> pos_realized_pnl pos + pos_unrealized_pnl pos = 250"
  using pnl_matches_cash [of "[(10, 100), (10, 110)]" "[(10, 115)]" 120] by (simp add: cash_def Let_def)

text \<open>A fill that takes a position through zero loses the cost of the new side.  Selling \<open>q\<close> and then
  buying \<open>q + d\<close> leaves a long position of \<open>d\<close> with an average buy price of 0, and its profit and loss
  exceeds what the cash flows say by the whole cost of the \<open>d\<close> units.\<close>

lemma flip_overstates_pnl:
  assumes "0 < q" and "0 < d" and "q + d \<le> I64_MAX"
  shows "(let pos = mark_position exact_ops m (buy_fill exact_ops (q + d) p2
      (sell_fill exact_ops q p1 (Position_default exact_ops)))
    in pos_net_qty pos = d \<and> pos_avg_buy_price pos = 0 \<and>
       pos_realized_pnl pos + pos_unrealized_pnl pos =
         of_int (cash [(q, p1)] - cash [(q + d, p2)] + d * m) + of_int (d * p2))"
proof -
  have w: "wrap64 q = q" "wrap64 (- q) = - q" "wrap64 d = d"
    using assms by (intro wrap64_id; simp add: i64_ok_def)+
  let ?s = "sell_fill exact_ops q p1 (Position_default exact_ops)"
  have s: "pos_net_qty ?s = - q" "pos_avg_sell_price ?s = of_int p1" "pos_avg_buy_price ?s = 0"
    "pos_realized_pnl ?s = 0"
    using assms w by (simp_all add: sell_fill_def Position_default_def Let_def)
  let ?b = "buy_fill exact_ops (q + d) p2 ?s"
  have b: "pos_net_qty ?b = d" "pos_avg_buy_price ?b = 0"
    "pos_realized_pnl ?b = of_int q * (of_int p1 - of_int p2)"
    using assms w s by (simp_all add: buy_fill_def Let_def min_def)
  show ?thesis using assms b by (simp add: mark_position_def cash_def Let_def algebra_simps)
qed

lemma flip_overstates_pnl_witness:
  "(let pos = mark_position exact_ops 90 (buy_fill exact_ops 10 90
      (sell_fill exact_ops 5 100 (Position_default exact_ops)))
    in pos_realized_pnl pos + pos_unrealized_pnl pos = 500 \<and>
       cash [(5, 100)] - cash [(10, 90)] + pos_net_qty pos * 90 = 50)"
  using flip_overstates_pnl [of 5 5 90 90 100] by (simp add: cash_def Let_def)

end
