(* ===== verification/Clearing.thy ===== *)
theory Clearing
  imports EngineOutputs EngineLimits TradePositions
begin

text \<open>
  The matching engine with a trade engine behind it: a client registers \<^verbatim>\<open>process_trade\<close> as the trade
  callback, and every trade of the engine is booked.  The theory compares what the trade engine, the
  books and the risk engine know about the same trades.
\<close>

section \<open>Net quantities as sums over trades\<close>

definition te_net :: "'f TradeEngine \<Rightarrow> TraderId \<Rightarrow> Symbol \<Rightarrow> Quantity" where
  "te_net te t s = (case te_get_position t s te of None \<Rightarrow> 0 | Some pos \<Rightarrow> pos_net_qty pos)"

text \<open>What a trader bought less what the trader sold as the aggressor, and as the resting party.\<close>

definition as_aggressor :: "TraderId \<Rightarrow> Symbol \<Rightarrow> Trade list \<Rightarrow> int" where
  "as_aggressor t s trades = (\<Sum>x\<leftarrow>trades. if t_incoming_trader x = t \<and> t_symbol x = s
     then signed_fill (t_aggressor_side x) (t_qty x) else 0)"

definition as_resting :: "TraderId \<Rightarrow> Symbol \<Rightarrow> Trade list \<Rightarrow> int" where
  "as_resting t s trades = (\<Sum>x\<leftarrow>trades. if t_resting_trader x = t \<and> t_symbol x = s
     then - signed_fill (t_aggressor_side x) (t_qty x) else 0)"

lemma flow_simps [simp]:
  "as_aggressor t s [] = 0" "as_resting t s [] = 0"
  "as_aggressor t s (xs @ ys) = as_aggressor t s xs + as_aggressor t s ys"
  "as_resting t s (xs @ ys) = as_resting t s xs + as_resting t s ys"
  by (simp_all add: as_aggressor_def as_resting_def)

definition book_trades :: "'f float_ops \<Rightarrow> Trade list \<Rightarrow> 'f TradeEngine \<Rightarrow> 'f TradeEngine" where
  "book_trades F trades te = foldl (\<lambda>te trade. fst (process_trade F trade te)) te trades"

lemma update_position_net:
  assumes "update_position F u v side q p te = (te', calls)" and "i64_ok (te_net te t s)"
  shows "te_net te' t s = wrap64 (te_net te t s + (if t = u \<and> s = v then signed_fill side q else 0))"
proof -
  have "te_net te' t s = (if t = u \<and> s = v then wrap64 (te_net te t s + signed_fill side q) else te_net te t s)"
    using assms(1)
    by (auto simp: update_position_def te_net_def te_get_position_def update_conv' Let_def signed_fill_def
        Position_default_def split: Side.splits option.splits)
  then show ?thesis using assms(2) by simp
qed

lemma process_trade_net:
  assumes "i64_ok (te_net te t s)"
  shows "te_net (fst (process_trade F x te)) t s =
    wrap64 (te_net te t s + as_aggressor t s [x] + as_resting t s [x])"
proof -
  let ?te = "te\<lparr>te_total_trades := te_total_trades te + 1,
                  te_total_volume := add64 (te_total_volume te) (t_qty x),
                  te_total_notional := fl_add F (te_total_notional te)
                    (fl_mul F (fl_of_int F (t_qty x)) (fl_of_int F (t_price x)))\<rparr>"
  let ?other = "if t_aggressor_side x = Buy then Sell else Buy"
  obtain te1 calls1 where u1: "update_position F (t_incoming_trader x) (t_symbol x)
      (t_aggressor_side x) (t_qty x) (t_price x) ?te = (te1, calls1)" by (metis surj_pair)
  obtain te2 calls2 where u2: "update_position F (t_resting_trader x) (t_symbol x)
      ?other (t_qty x) (t_price x) te1 = (te2, calls2)" by (metis surj_pair)
  have te': "fst (process_trade F x te) = te2" using u1 u2 by (simp add: process_trade_def Let_def)
  have opp: "signed_fill ?other (t_qty x) = - signed_fill (t_aggressor_side x) (t_qty x)"
    by (cases "t_aggressor_side x") (simp_all add: signed_fill_def)
  have start: "te_net ?te t s = te_net te t s" by (simp add: te_net_def te_get_position_def)
  have "te_net te1 t s = wrap64 (te_net te t s + as_aggressor t s [x])"
    using update_position_net [OF u1, of t s] assms start by (auto simp: as_aggressor_def)
  then show ?thesis
    using update_position_net [OF u2, of t s] te' opp by (auto simp: as_resting_def)
qed

lemma book_trades_net:
  "i64_ok (te_net te t s) \<Longrightarrow> te_net (book_trades F trades te) t s =
    wrap64 (te_net te t s + as_aggressor t s trades + as_resting t s trades)"
proof (induction trades arbitrary: te)
  case Nil
  then show ?case by (simp add: book_trades_def)
next
  case (Cons x trades)
  let ?te = "fst (process_trade F x te)"
  have x: "te_net ?te t s = wrap64 (te_net te t s + as_aggressor t s [x] + as_resting t s [x])"
    by (rule process_trade_net [OF Cons.prems])
  then have "te_net (book_trades F trades ?te) t s =
      wrap64 (te_net te t s + as_aggressor t s [x] + as_resting t s [x] + as_aggressor t s trades + as_resting t s trades)"
    using Cons.IH [of ?te] by (simp add: add.assoc)
  moreover have "book_trades F (x # trades) te = book_trades F trades ?te" by (simp add: book_trades_def)
  moreover have "as_aggressor t s (x # trades) = as_aggressor t s [x] + as_aggressor t s trades"
    "as_resting t s (x # trades) = as_resting t s [x] + as_resting t s trades"
    by (simp_all add: as_aggressor_def as_resting_def)
  ultimately show ?case by (simp add: algebra_simps)
qed

lemma book_trades_totals:
  "te_balanced te \<Longrightarrow> i64_ok (te_total_volume te) \<Longrightarrow> te_balanced (book_trades F trades te) \<and>
    te_total_trades (book_trades F trades te) = te_total_trades te + of_nat (length trades) \<and>
    te_total_volume (book_trades F trades te) = wrap64 (te_total_volume te + (\<Sum>x\<leftarrow>trades. t_qty x))"
proof (induction trades arbitrary: te)
  case (Cons x trades)
  note p = process_trade_balanced [OF Cons.prems(1) prod.collapse [symmetric], of F x]
  have "i64_ok (te_total_volume (fst (process_trade F x te)))" using p(3) by simp
  from Cons.IH [OF p(1) this] p show ?case by (simp add: book_trades_def add.assoc)
qed (simp add: book_trades_def)

section \<open>The trades of a submission\<close>

lemma trades_as_aggressor:
  "as_aggressor t s (trades_of b inc ts fs) =
     (if t = o_trader_id inc \<and> s = bk_symbol b then signed_fill (o_side inc) (\<Sum>(n, m)\<leftarrow>fs. m) else 0)"
  by (induction b inc ts fs rule: trades_of.induct)
    (auto simp: as_aggressor_def make_trade_def count_trade_def signed_fill_def split: Side.splits)

lemma filled_trades:
  assumes inv: "l3_inv b" and typed: "order_typed inc" and pos: "0 < o_quantity inc" and cb: "bk_trade_cb b"
    and add: "add_order b inc ts = (rpt, b', calls)"
  shows "r_filled_qty rpt = (\<Sum>x\<leftarrow>trade_events calls. t_qty x)" and "0 \<le> r_filled_qty rpt"
    and "as_aggressor t s (trade_events calls) =
      (if t = o_trader_id inc \<and> s = bk_symbol b then signed_fill (o_side inc) (r_filled_qty rpt) else 0)"
proof -
  have "r_filled_qty rpt = (\<Sum>x\<leftarrow>trade_events calls. t_qty x) \<and> 0 \<le> r_filled_qty rpt \<and>
    (\<exists>fs. trade_events calls = trades_of b inc ts fs)"
  proof (cases rule: add_order_effect [OF inv typed add])
    case 1
    then show ?thesis
      by (auto simp: base_report_def ExecutionReport_default_def intro: exI [of _ "[]"])
  next
    case 2
    then show ?thesis using settled_fields(1) [OF 2(4)] pos
      by (auto simp: killed_result_def intro!: exI [of _ "[]"])
  next
    case (3 r kept fs ls' result)
    note ok = eligible_ok [OF inv]
    note c = fill_conserves [OF 3(3) ok less_imp_le [OF pos]]
    have range: "wrap64 (o_quantity inc - r) = o_quantity inc - r"
      using c(2,3) typed by (intro wrap64_id) (simp add: order_typed_def i64_ok_def)
    have "r = 0" if "o_tif inc = FOK"
    proof -
      have "o_quantity inc \<le> fok_available inc (opposite inc b) 0" using 3(2) that by (simp add: fok_fails_def)
      also have "\<dots> \<le> total_open (nodes (eligible inc (opposite inc b)))"
        using fok_available_le [OF opposite_ok(2) [OF inv], of 0 inc inc] by simp
      finally show ?thesis using fill_enough [OF 3(3) ok less_imp_le [OF pos]] by blast
    qed
    then have "r_filled_qty rpt = o_quantity inc - r"
      using settled_fields(1) [OF 3(8)] 3(4) range by auto
    moreover have "trade_events calls = trades_of b inc ts fs" using 3(9) cb by simp
    ultimately show ?thesis using c by (simp add: trades_of_fields case_prod_unfold) blast
  qed
  then obtain fs where fs: "trade_events calls = trades_of b inc ts fs"
    and q: "r_filled_qty rpt = (\<Sum>x\<leftarrow>trade_events calls. t_qty x)" "0 \<le> r_filled_qty rpt" by blast
  show "r_filled_qty rpt = (\<Sum>x\<leftarrow>trade_events calls. t_qty x)" "0 \<le> r_filled_qty rpt" by (rule q)+
  have "(\<Sum>x\<leftarrow>trades_of b inc ts fs. t_qty x) = (\<Sum>(n, m)\<leftarrow>fs. m)"
    by (simp add: trades_of_fields case_prod_unfold)
  then show "as_aggressor t s (trade_events calls) =
      (if t = o_trader_id inc \<and> s = bk_symbol b then signed_fill (o_side inc) (r_filled_qty rpt) else 0)"
    using q(1) by (simp add: fs trades_as_aggressor)
qed

section \<open>What the risk engine learns\<close>

lemma risk_exec_positions:
  "(case op of Fill t symbol side qty price \<Rightarrow> False | _ \<Rightarrow> True) \<Longrightarrow>
   get_position (risk_exec op e) t s = get_position e t s"
  using check_order_verdict(6) [OF prod.collapse [symmetric] refl]
  by (cases op) (auto simp: get_position_state position_of_def kill_states set_limits_state)

lemma new_order_positions:
  assumes inv: "me_inv me" and typed: "order_typed order" and risk: "me_risk_engine me = Some e"
    and ok: "i64_ok (get_position e t s)" and cb: "me_trade_cb me"
    and p: "process_new_order order ts ts' me = (rpt, me', outs)"
  shows "\<exists>e'. me_risk_engine me' = Some e' \<and>
    get_position e' t s = wrap64 (get_position e t s + as_aggressor t s (trade_outs outs))"
proof (cases rule: process_new_order_cases [OF p])
  case 1
  then have "trade_outs outs = []" using p by (auto simp: process_new_order_def exec_out_def Let_def)
  then show ?thesis using 1 risk ok by simp
next
  case (2 st r reject r')
  then have "trade_outs outs = []" using p by (auto simp: process_new_order_def exec_out_def Let_def)
  moreover have "get_position r' t s = get_position e t s"
    using check_order_verdict(6) [OF 2(3) refl] 2(2) risk by (auto simp: get_position_state position_of_def)
  ultimately show ?thesis using 2 risk ok by simp
next
  case (3 st r)
  obtain e1 where c: "check_order order e = (NoReason, e1)" "r = Some e1" using 3(2) risk by auto
  have v: "verdict e order = NoReason" by (rule check_order_verdict(1) [OF c(1) refl, symmetric])
  then have pos: "0 < o_quantity order" by (auto simp: verdict_def Let_def split: if_splits)
  obtain b' calls where add: "add_order (ss_book st) order ts = (rpt, b', calls)"
    using submit_effect(1) [OF 3(3)] by (metis prod_cases3 fst_conv)
  note b = me_inv_find [OF inv 3(1)]
  note f = filled_trades [OF b(6) typed pos b(3) add]
  have outs: "trade_outs outs = trade_events calls" using submit_out(1) [OF 3(3)] cb add by simp
  have "get_book (o_symbol order) me \<noteq> None" using 3(1) by (simp add: get_book_def)
  from aggressor_position_only [OF p risk this] show ?thesis
    using v ok f(2) f(3) [of t s] b(2) outs by (auto simp: signed_fill_def split: Side.split)
qed

section \<open>The volume the books count\<close>

definition book_volume :: "MatchingEngine \<Rightarrow> int" where
  "book_volume me = (\<Sum>s | has_symbol s me. bk_total_volume (the (get_book s me)))"

lemma has_symbol_book: "has_symbol s me \<longleftrightarrow> get_book s me \<noteq> None"
  by (simp add: has_symbol_def get_book_def)

lemma finite_symbols [simp]: "finite {s. has_symbol s me}"
  using finite_dom_map_of [of "me_symbols me"] by (simp add: has_symbol_def dom_def)

lemma book_volume_change:
  assumes "get_book s me = Some b" and "\<And>u. get_book u me' = (if u = s then Some b' else get_book u me)"
  shows "book_volume me' = book_volume me + bk_total_volume b' - bk_total_volume b"
proof -
  let ?S = "{u. has_symbol u me}" and ?f = "\<lambda>me u. bk_total_volume (the (get_book u me))"
  have S: "{u. has_symbol u me'} = ?S" and s: "s \<in> ?S" using assms by (auto simp: has_symbol_book)
  have "(\<Sum>u \<in> ?S - {s}. ?f me' u) = (\<Sum>u \<in> ?S - {s}. ?f me u)"
    by (rule sum.cong) (use assms(2) in auto)
  then show ?thesis
    using sum.remove [OF finite_symbols s, of "?f me'"] sum.remove [OF finite_symbols s, of "?f me"] assms
    by (simp add: book_volume_def S)
qed

lemma book_volume_same:
  "(\<And>u. get_book u me' = get_book u me) \<Longrightarrow> book_volume me' = book_volume me"
  by (simp add: book_volume_def has_symbol_book)

lemma book_volume_new:
  assumes "get_book s me = None" and "\<And>u. get_book u me' = (if u = s then Some b else get_book u me)"
    and "bk_total_volume b = 0"
  shows "book_volume me' = book_volume me"
proof -
  have S: "{u. has_symbol u me'} = insert s {u. has_symbol u me}" "s \<notin> {u. has_symbol u me}"
    using assms(1,2) by (auto simp: has_symbol_book)
  have "(\<Sum>u | has_symbol u me. bk_total_volume (the (get_book u me'))) = book_volume me"
    unfolding book_volume_def by (rule sum.cong) (use assms(2) S(2) in auto)
  then show ?thesis using S assms by (simp add: book_volume_def)
qed

lemma add_order_volume:
  assumes "l3_inv b" and "order_typed inc" and "bk_trade_cb b" and "add_order b inc ts = (rpt, b', calls)"
  shows "bk_total_volume b' = wrap64 (bk_total_volume b + (\<Sum>x\<leftarrow>trade_events calls. t_qty x))"
proof -
  obtain fs where "trade_events calls = trades_of b inc ts fs"
    "bk_total_volume b' = wrap64 (bk_total_volume b + (\<Sum>(n, m)\<leftarrow>fs. m))"
    using add_order_trades [OF assms] by metis
  then show ?thesis by (simp add: trades_of_fields case_prod_unfold)
qed

lemma result_volume:
  assumes inv: "me_inv me" and typed: "op_typed op" and res: "book_result op me = Some (s, rpt, b', calls)"
  obtains b where "get_book s me = Some b"
    "bk_total_volume b' = wrap64 (bk_total_volume b + (\<Sum>x\<leftarrow>trade_events calls. t_qty x))"
    "(case op of CancelOrder _ _ _ \<Rightarrow> trade_events calls = [] | _ \<Rightarrow> True)"
proof (cases op)
  case (NewOrder order ts ts')
  obtain b where b: "get_book s me = Some b" "add_order b order ts = (rpt, b', calls)"
    using res NewOrder by (auto split: bind_splits if_splits)
  note k = me_inv_book [OF inv b(1)]
  then show thesis using that [OF b(1)] add_order_volume [OF _ _ _ b(2)] typed NewOrder by simp
next
  case (CancelOrder cancel ts ts')
  obtain b where b: "get_book s me = Some b" "cancel_order b (c_order_id cancel) ts = Some (rpt, b', calls)"
    using res CancelOrder by (auto split: bind_splits)
  have inv_b: "l3_inv b" using me_inv_book [OF inv b(1)] by blast
  then have "i64_ok (bk_total_volume b)" by (simp add: l3_inv_def)
  moreover have "bk_total_volume b' = bk_total_volume b"
    by (cases rule: cancel_order_cases [OF inv_b, of "c_order_id cancel" ts]) (use b(2) in auto)
  ultimately show thesis using that [OF b(1)] cancel_order_frame(4) [OF inv_b b(2)] CancelOrder by simp
next
  case (ReplaceOrder req ts ts')
  obtain b where b: "get_book s me = Some b" "replace_order b req ts = Some (rpt, b', calls)"
    using res ReplaceOrder by (auto split: bind_splits)
  note k = me_inv_book [OF inv b(1)]
  have typed': "replace_typed req" using typed ReplaceOrder by simp
  have vol: "i64_ok (bk_total_volume b)" using k by (simp add: l3_inv_def)
  have "bk_total_volume b' = wrap64 (bk_total_volume b + (\<Sum>x\<leftarrow>trade_events calls. t_qty x))"
  proof (cases rule: replace_order_cases [OF conjunct1 [OF k], of req ts])
    case 1
    then show ?thesis using b(2) vol by simp
  next
    case (2 n rpt2 b2 calls2)
    have "bk_trade_cb (cancelled n b)" "bk_total_volume (cancelled n b) = bk_total_volume b" using k by simp_all
    with add_order_volume [OF cancelled_preserves [OF conjunct1 [OF k] 2(1)] replacement_typed [OF typed'] _ 2(3)]
    show ?thesis using 2(4) b(2) by simp
  qed
  then show thesis using that [OF b(1)] ReplaceOrder by simp
qed (use res in simp_all)

section \<open>The system\<close>

text \<open>The two lists are ghosts: the trades made by new orders, and those made by replacements.\<close>

record 'f clearing =
  cl_engine :: MatchingEngine
  cl_accounts :: "'f TradeEngine"
  cl_taken :: "Trade list"
  cl_replaced :: "Trade list"

fun is_replace :: "me_op \<Rightarrow> bool" where
  "is_replace (ReplaceOrder _ _ _) = True"
| "is_replace _ = False"

fun may_trade :: "me_op \<Rightarrow> bool" where
  "may_trade (NewOrder _ _ _) = True"
| "may_trade (ReplaceOrder _ _ _) = True"
| "may_trade _ = False"

definition clear_exec :: "'f float_ops \<Rightarrow> me_op \<Rightarrow> 'f clearing \<Rightarrow> 'f clearing option" where
  "clear_exec F op c =
     (case me_exec op (cl_engine c) of
        None \<Rightarrow> None
      | Some me \<Rightarrow>
          (let trades = trade_outs (me_outputs op (cl_engine c))
           in Some (c\<lparr>cl_engine := me, cl_accounts := book_trades F trades (cl_accounts c),
                     cl_taken := cl_taken c @ (if is_replace op then [] else trades),
                     cl_replaced := cl_replaced c @ (if is_replace op then trades else [])\<rparr>)))"

text \<open>The risk engine stays bound, and only the engine reports fills to it.\<close>

fun op_cleared :: "me_op \<Rightarrow> bool" where
  "op_cleared (BindRisk r) \<longleftrightarrow> False"
| "op_cleared (RiskOp op) \<longleftrightarrow> (case op of Fill t symbol side qty price \<Rightarrow> False | _ \<Rightarrow> True)"
| "op_cleared op \<longleftrightarrow> op_typed op"

definition clear_init :: "'f float_ops \<Rightarrow> 'f clearing \<Rightarrow> bool" where
  "clear_init F c \<longleftrightarrow> (\<exists>e. re_trader_states e = Map.empty \<and>
     c = \<lparr>cl_engine = MatchingEngine_init\<lparr>me_risk_engine := Some e, me_trade_cb := True\<rparr>,
          cl_accounts = TradeEngine_init F, cl_taken = [], cl_replaced = []\<rparr>)"

definition clear_step :: "'f float_ops \<Rightarrow> 'f clearing \<Rightarrow> 'f clearing \<Rightarrow> bool" where
  "clear_step F c c' \<longleftrightarrow> (\<exists>op. op_cleared op \<and> clear_exec F op c = Some c')"

definition accounts_inv :: "'f clearing \<Rightarrow> bool" where
  "accounts_inv c \<longleftrightarrow> te_balanced (cl_accounts c) \<and>
     (\<forall>t s. te_net (cl_accounts c) t s = wrap64 (as_aggressor t s (cl_taken c @ cl_replaced c) +
        as_resting t s (cl_taken c @ cl_replaced c))) \<and>
     te_total_trades (cl_accounts c) = me_trades_generated (cl_engine c) \<and>
     te_total_volume (cl_accounts c) = wrap64 (book_volume (cl_engine c))"

definition risk_inv :: "'f clearing \<Rightarrow> bool" where
  "risk_inv c \<longleftrightarrow> (\<exists>e. me_risk_engine (cl_engine c) = Some e \<and>
     (\<forall>t s. get_position e t s = wrap64 (as_aggressor t s (cl_taken c))))"

definition clear_inv :: "'f clearing \<Rightarrow> bool" where
  "clear_inv c \<longleftrightarrow> me_inv (cl_engine c) \<and> me_trade_cb (cl_engine c) \<and> accounts_inv c \<and> risk_inv c"

lemma op_cleared_typed: "op_cleared op \<Longrightarrow> op_typed op"
  by (cases op) auto

lemma trade_outs_forward: "me_trade_cb me \<Longrightarrow> trade_outs (forward me calls @ exec_out rpt me @ depth_out s ts' b me) = trade_events calls"
proof -
  assume "me_trade_cb me"
  then have "trade_outs (forward me calls) = trade_events calls"
    by (induction calls) (auto simp: forward_def trade_events_def split: book_event.split)
  then show ?thesis by (simp add: exec_out_def depth_out_def)
qed

text \<open>The trades of one operation, as the books and the counters see them.\<close>

lemma operation_trades:
  assumes inv: "me_inv me" and typed: "op_typed op" and cb: "me_trade_cb me" and exec: "me_exec op me = Some me'"
  shows "me_trade_cb me'"
    and "me_trades_generated me' = me_trades_generated me + of_nat (length (trade_outs (me_outputs op me)))"
    and "wrap64 (book_volume me') = wrap64 (book_volume me + (\<Sum>x\<leftarrow>trade_outs (me_outputs op me). t_qty x))"
    and "\<not> may_trade op \<Longrightarrow> trade_outs (me_outputs op me) = []"
proof -
  have "me_trade_cb me' \<and>
    me_trades_generated me' = me_trades_generated me + of_nat (length (trade_outs (me_outputs op me))) \<and>
    wrap64 (book_volume me') = wrap64 (book_volume me + (\<Sum>x\<leftarrow>trade_outs (me_outputs op me). t_qty x)) \<and>
    (\<not> may_trade op \<longrightarrow> trade_outs (me_outputs op me) = [])"
  proof (cases "book_result op me")
    case None
    note u = unrouted_outputs [OF exec None]
    have "book_volume me' = book_volume me"
    proof (cases "\<exists>s. op = AddSymbol s \<and> get_book s me = None")
      case True
      then obtain s where s: "op = AddSymbol s" "get_book s me = None" by blast
      then show ?thesis
        using u(3) by (intro book_volume_new [OF s(2), of me' "on_top_of_book (on_trade (L3OrderBook_init s))"])
          (simp_all add: on_top_of_book_def on_trade_def L3OrderBook_init_def)
    next
      case False
      then show ?thesis using u(3) by (intro book_volume_same) (auto split: me_op.splits)
    qed
    then show ?thesis using u(2,4) cb u(1) by simp
  next
    case (Some x)
    obtain s rpt b' calls where x: "book_result op me = Some (s, rpt, b', calls)" using Some by (cases x) auto
    note r = routed_outputs [OF exec x]
    have trades: "trade_outs (me_outputs op me) = trade_events calls" using trade_outs_forward [OF cb] r(1) by simp
    obtain b where b: "get_book s me = Some b"
      "bk_total_volume b' = wrap64 (bk_total_volume b + (\<Sum>x\<leftarrow>trade_events calls. t_qty x))"
      "(case op of CancelOrder _ _ _ \<Rightarrow> trade_events calls = [] | _ \<Rightarrow> True)"
      by (rule result_volume [OF inv typed x])
    have "wrap64 (book_volume me') = wrap64 (book_volume me + (\<Sum>x\<leftarrow>trade_events calls. t_qty x))"
    proof -
      have "book_volume me' = (book_volume me - bk_total_volume b) + bk_total_volume b'"
        using book_volume_change [OF b(1) r(4)] by simp
      then show ?thesis unfolding b(2) by (simp only: wrap64_add_right) simp
    qed
    then show ?thesis using r(2,3) cb b(3) trades x
      by (cases op) (simp_all add: same_callbacks_def)
  qed
  then show "me_trade_cb me'"
    "me_trades_generated me' = me_trades_generated me + of_nat (length (trade_outs (me_outputs op me)))"
    "wrap64 (book_volume me') = wrap64 (book_volume me + (\<Sum>x\<leftarrow>trade_outs (me_outputs op me). t_qty x))"
    "\<not> may_trade op \<Longrightarrow> trade_outs (me_outputs op me) = []"
    by blast+
qed

lemma accounts_step:
  assumes inv: "me_inv (cl_engine c)" "me_trade_cb (cl_engine c)" and acc: "accounts_inv c"
    and typed: "op_typed op" and exec: "clear_exec F op c = Some c'"
  shows "accounts_inv c'"
proof -
  obtain me where me: "me_exec op (cl_engine c) = Some me" using exec by (auto simp: clear_exec_def split: option.splits)
  define trades where "trades = trade_outs (me_outputs op (cl_engine c))"
  have c': "cl_engine c' = me" "cl_accounts c' = book_trades F trades (cl_accounts c)"
    "\<And>t s. as_aggressor t s (cl_taken c' @ cl_replaced c') = as_aggressor t s (cl_taken c @ cl_replaced c) + as_aggressor t s trades"
    "\<And>t s. as_resting t s (cl_taken c' @ cl_replaced c') = as_resting t s (cl_taken c @ cl_replaced c) + as_resting t s trades"
    using exec me by (auto simp: clear_exec_def trades_def Let_def)
  have acc': "te_balanced (cl_accounts c)" "te_total_trades (cl_accounts c) = me_trades_generated (cl_engine c)"
    "te_total_volume (cl_accounts c) = wrap64 (book_volume (cl_engine c))"
    "\<And>t s. te_net (cl_accounts c) t s = wrap64 (as_aggressor t s (cl_taken c @ cl_replaced c) +
        as_resting t s (cl_taken c @ cl_replaced c))"
    using acc by (simp_all add: accounts_inv_def)
  note op = operation_trades [OF inv(1) typed inv(2) me, folded trades_def]
  have "i64_ok (te_total_volume (cl_accounts c))" using acc'(3) by simp
  note tot = book_trades_totals [OF acc'(1) this, of F trades]
  have "te_net (cl_accounts c') t s = wrap64 (as_aggressor t s (cl_taken c' @ cl_replaced c') +
        as_resting t s (cl_taken c' @ cl_replaced c'))" for t s
  proof -
    have "i64_ok (te_net (cl_accounts c) t s)" unfolding acc'(4) by simp
    from book_trades_net [OF this, of F trades]
    have "te_net (cl_accounts c') t s = wrap64 (as_aggressor t s (cl_taken c @ cl_replaced c) +
        as_resting t s (cl_taken c @ cl_replaced c) + (as_aggressor t s trades + as_resting t s trades))"
      unfolding c'(2) acc'(4) by (simp only: add.assoc wrap64_add_left)
    then show ?thesis unfolding c'(3,4) by (simp only: add.assoc add.commute add.left_commute)
  qed
  then show ?thesis
    using tot op(2,3) acc'(2,3) c'(1,2) by (simp add: accounts_inv_def)
qed

lemma risk_step:
  assumes inv: "me_inv (cl_engine c)" "me_trade_cb (cl_engine c)" and risk: "risk_inv c"
    and op: "op_cleared op" and exec: "clear_exec F op c = Some c'"
  shows "risk_inv c'"
proof -
  let ?me = "cl_engine c"
  obtain me where me: "me_exec op ?me = Some me" using exec by (auto simp: clear_exec_def split: option.splits)
  define trades where "trades = trade_outs (me_outputs op ?me)"
  have c': "cl_engine c' = me" "cl_taken c' = cl_taken c @ (if is_replace op then [] else trades)"
    using exec me by (auto simp: clear_exec_def trades_def Let_def)
  obtain e where e: "me_risk_engine ?me = Some e" "\<And>t s. get_position e t s = wrap64 (as_aggressor t s (cl_taken c))"
    using risk by (auto simp: risk_inv_def)
  have none: "\<not> may_trade op \<Longrightarrow> trades = []"
    using operation_trades(4) [OF inv(1) op_cleared_typed [OF op] inv(2) me] by (simp add: trades_def)
  have same: ?thesis if "me_risk_engine me = Some e'" "\<And>t s. get_position e' t s = get_position e t s"
    "is_replace op \<or> trades = []" for e'
    using that c' e by (auto simp: risk_inv_def)
  show ?thesis
  proof (cases op)
    case (NewOrder order ts ts')
    obtain rpt outs where p: "process_new_order order ts ts' ?me = (rpt, me, outs)"
      using me NewOrder by (metis fst_conv me_exec.simps(2) option.inject prod.collapse)
    have "order_typed order" using op NewOrder by simp
    note n = new_order_positions [OF inv(1) this e(1) _ inv(2) p]
    have "\<exists>e'. me_risk_engine me = Some e' \<and> (\<forall>t s. get_position e' t s = wrap64 (as_aggressor t s (cl_taken c')))"
    proof -
      obtain e' where e': "me_risk_engine me = Some e'" using n [of 0 "Symbol_default"] e(2) by auto
      have "get_position e' t s = wrap64 (as_aggressor t s (cl_taken c'))" for t s
        using n [of t s] e(2) [of t s] e' c'(2) NewOrder p by (simp add: trades_def)
      then show ?thesis using e' by blast
    qed
    then show ?thesis using c'(1) by (simp add: risk_inv_def)
  next
    case (CancelOrder cancel ts ts')
    then show ?thesis using me e(1) none by (intro same [of e]) (auto dest: cancel_keeps_risk)
  next
    case (ReplaceOrder req ts ts')
    then show ?thesis using me e(1) by (intro same [of e]) (auto dest: replace_keeps_risk)
  next
    case (RiskOp rop)
    then show ?thesis using me e(1) none op risk_exec_positions [of rop e] by (intro same [of "risk_exec rop e"]) auto
  next
    case (AddSymbol s)
    then show ?thesis using me e(1) none by (intro same [of e]) (auto simp: add_symbol_def)
  qed (use me e(1) none op in \<open>auto intro!: same [of e]\<close>)
qed

interpretation clearing: invariant_system "clear_init F" "clear_step F" clear_inv for F :: "'f float_ops"
proof
  show "clear_inv c" if init: "clear_init F c" for c :: "'f clearing"
  proof -
    obtain e where e: "re_trader_states e = Map.empty"
      and c: "c = \<lparr>cl_engine = MatchingEngine_init\<lparr>me_risk_engine := Some e, me_trade_cb := True\<rparr>,
          cl_accounts = TradeEngine_init F, cl_taken = [], cl_replaced = []\<rparr>"
      using init by (auto simp: clear_init_def)
    have "me_inv (cl_engine c)"
      by (simp add: c me_inv_def books_ok_def books_view_def trade_total_def MatchingEngine_init_def)
    moreover have "accounts_inv c"
      by (simp add: c accounts_inv_def te_balanced_def te_inv_def symbol_net_def TradeEngine_init_def
          te_net_def te_get_position_def MatchingEngine_init_def book_volume_def has_symbol_def)
    moreover have "risk_inv c" using e by (simp add: c risk_inv_def get_position_def)
    ultimately show ?thesis by (simp add: c clear_inv_def)
  qed
  show "clear_inv c'" if inv: "clear_inv c" and step: "clear_step F c c'" for c c' :: "'f clearing"
  proof -
    obtain op where op: "op_cleared op" "clear_exec F op c = Some c'" using step by (auto simp: clear_step_def)
    then obtain me where me: "me_exec op (cl_engine c) = Some me" "cl_engine c' = me"
      by (auto simp: clear_exec_def Let_def split: option.splits)
    have i: "me_inv (cl_engine c)" "me_trade_cb (cl_engine c)" "accounts_inv c" "risk_inv c"
      using inv by (simp_all add: clear_inv_def)
    note typed = op_cleared_typed [OF op(1)]
    show ?thesis
      using me_step_inv [OF i(1) typed me(1)] operation_trades(1) [OF i(1) typed i(2) me(1)] me(2)
        accounts_step [OF i(1,2,3) typed op(2)] risk_step [OF i(1,2,4) op]
      by (simp add: clear_inv_def)
  qed
qed

abbreviation clear_reachable :: "'f float_ops \<Rightarrow> 'f clearing \<Rightarrow> bool" where
  "clear_reachable F \<equiv> reachable (clear_init F) (clear_step F)"

section \<open>A small run\<close>

fun clear_run :: "'f float_ops \<Rightarrow> me_op list \<Rightarrow> 'f clearing \<Rightarrow> 'f clearing option" where
  "clear_run F [] c = Some c"
| "clear_run F (op # ops) c =
     (if op_cleared op then Option.bind (clear_exec F op c) (clear_run F ops) else None)"

lemma clear_run_reachable:
  "clear_run F ops c = Some c' \<Longrightarrow> clear_reachable F c \<Longrightarrow> clear_reachable F c'"
proof (induction ops arbitrary: c)
  case (Cons op ops)
  then obtain c1 where step: "op_cleared op" "clear_exec F op c = Some c1"
    and rest: "clear_run F ops c1 = Some c'" by (auto split: if_splits bind_splits)
  then have "clear_step F c c1" unfolding clear_step_def by blast
  then show ?case using Cons.IH [OF rest] Cons.prems(2) reachable_step [of _ "clear_step F"] by blast
qed simp

definition clear_start :: "rat clearing" where
  "clear_start = \<lparr>cl_engine = MatchingEngine_init\<lparr>me_risk_engine := Some RiskEngine_init, me_trade_cb := True\<rparr>,
     cl_accounts = TradeEngine_init exact_ops, cl_taken = [], cl_replaced = []\<rparr>"

text \<open>Trader 10 offers 5 and sells 3 of them to trader 11, then moves the rest of the offer onto the bid
  of trader 12.\<close>

definition clear_ops :: "me_op list" where
  "clear_ops = [AddSymbol sym_A, NewOrder (eng_order 1 10 sym_A Sell 100 5) 1 1,
     NewOrder (eng_order 2 11 sym_A Buy 100 3) 2 2, NewOrder (eng_order 3 12 sym_A Buy 90 4) 3 3,
     ReplaceOrder \<lparr>p_order_id = 1, p_trader_id = 10, p_symbol = sym_A, p_new_price = 90, p_new_qty = 2,
       p_submit_time = 4, p_cl_ord_id = empty_cl_ord_id, p_orig_cl_ord_id = empty_cl_ord_id\<rparr> 4 4]"

definition clear_demo :: "rat clearing" where
  "clear_demo = the (clear_run exact_ops clear_ops clear_start)"

lemma clear_demo_reachable: "clear_reachable exact_ops clear_demo"
proof -
  have "clear_run exact_ops clear_ops clear_start \<noteq> None" by code_simp
  then have "clear_run exact_ops clear_ops clear_start = Some clear_demo" by (simp add: clear_demo_def)
  moreover have "clear_reachable exact_ops clear_start"
    unfolding clear_start_def clear_init_def
    by (intro reachable_init exI [of _ RiskEngine_init]) (simp add: RiskEngine_init_def)
  ultimately show ?thesis by (rule clear_run_reachable)
qed

definition clear_view :: "rat clearing \<Rightarrow> int list \<times> (int \<times> int) option \<times> nat" where
  "clear_view c =
     ([te_net (cl_accounts c) 10 sym_A, te_net (cl_accounts c) 11 sym_A,
       as_resting 10 sym_A (cl_taken c), as_aggressor 10 sym_A (cl_replaced c)],
      map_option (\<lambda>e. (get_position e 10 sym_A, get_position e 11 sym_A)) (me_risk_engine (cl_engine c)),
      length (cl_taken c @ cl_replaced c))"

lemma clear_demo_view: "clear_view clear_demo = ([- 5, 3, - 3, - 2], Some (0, 3), 2)"
  by code_simp

lemma clear_demo_facts:
  "te_net (cl_accounts clear_demo) 10 sym_A = - 5" "te_net (cl_accounts clear_demo) 11 sym_A = 3"
  "map_option (\<lambda>e. (get_position e 10 sym_A, get_position e 11 sym_A)) (me_risk_engine (cl_engine clear_demo)) = Some (0, 3)"
  "as_resting 10 sym_A (cl_taken clear_demo) = - 3" "as_aggressor 10 sym_A (cl_replaced clear_demo) = - 2"
  using clear_demo_view by (auto simp: clear_view_def)

section \<open>Properties\<close>

text \<open>C20: the gap between what traders hold and what the risk engine believes.  After any sequence of
  orders, cancels, replacements and administration, the net position the trade engine keeps for a
  trader is the position the risk engine checks against, plus everything that hit the trader's
  resting orders, plus everything the trader traded by replacing an order.\<close>

theorem risk_gap_exact:
  assumes "clear_reachable F c"
  shows "\<exists>e. me_risk_engine (cl_engine c) = Some e \<and>
    (\<forall>t s. te_net (cl_accounts c) t s = wrap64 (get_position e t s + as_resting t s (cl_taken c) +
       as_aggressor t s (cl_replaced c) + as_resting t s (cl_replaced c)))"
proof -
  have inv: "accounts_inv c" "risk_inv c" using clearing.reachable_inv [OF assms] by (simp_all add: clear_inv_def)
  then obtain e where e: "me_risk_engine (cl_engine c) = Some e"
    "\<And>t s. get_position e t s = wrap64 (as_aggressor t s (cl_taken c))" by (auto simp: risk_inv_def)
  have "te_net (cl_accounts c) t s = wrap64 (get_position e t s + (as_resting t s (cl_taken c) +
       as_aggressor t s (cl_replaced c) + as_resting t s (cl_replaced c)))" for t s
  proof -
    have "te_net (cl_accounts c) t s = wrap64 (as_aggressor t s (cl_taken c) + (as_resting t s (cl_taken c) +
       as_aggressor t s (cl_replaced c) + as_resting t s (cl_replaced c)))"
      using inv(1) by (simp add: accounts_inv_def algebra_simps)
    then show ?thesis unfolding e(2) by (simp only: wrap64_add_left)
  qed
  then show ?thesis using e(1) by (simp add: add.assoc)
qed

theorem risk_gap_exact_witness:
  "\<exists>e. me_risk_engine (cl_engine clear_demo) = Some e \<and> get_position e 10 sym_A = 0 \<and>
    te_net (cl_accounts clear_demo) 10 sym_A = wrap64 (0 + (- 3) + (- 2) + as_resting 10 sym_A (cl_replaced clear_demo))"
proof -
  from risk_gap_exact [OF clear_demo_reachable] obtain e where e: "me_risk_engine (cl_engine clear_demo) = Some e"
    "te_net (cl_accounts clear_demo) 10 sym_A = wrap64 (get_position e 10 sym_A + as_resting 10 sym_A (cl_taken clear_demo) +
       as_aggressor 10 sym_A (cl_replaced clear_demo) + as_resting 10 sym_A (cl_replaced clear_demo))" by blast
  moreover have "get_position e 10 sym_A = 0" using clear_demo_facts(3) e(1) by simp
  ultimately show ?thesis using clear_demo_facts(4,5) by simp
qed

text \<open>C19: the accounts reconcile.  A trade engine that is fed by the trade callback counts the trades the
  matching engine counts, its volume is the volume of all books, and the net position of every
  trader is what the trader bought less what the trader sold, as either party, whatever the
  rounding of prices.\<close>

theorem accounts_reconcile:
  assumes "clear_reachable F c"
  shows "te_total_trades (cl_accounts c) = me_trades_generated (cl_engine c) \<and>
    te_total_volume (cl_accounts c) = wrap64 (book_volume (cl_engine c)) \<and>
    te_net (cl_accounts c) t s = wrap64 (as_aggressor t s (cl_taken c @ cl_replaced c) +
      as_resting t s (cl_taken c @ cl_replaced c)) \<and>
    symbol_net s (cl_accounts c) mod 2 ^ 64 = 0"
  using clearing.reachable_inv [OF assms]
  unfolding clear_inv_def accounts_inv_def te_balanced_def by (metis dvd_imp_mod_0)

theorem accounts_reconcile_witness:
  "te_total_trades (cl_accounts clear_demo) = me_trades_generated (cl_engine clear_demo) \<and>
   te_total_volume (cl_accounts clear_demo) = wrap64 (book_volume (cl_engine clear_demo)) \<and>
   symbol_net sym_A (cl_accounts clear_demo) mod 2 ^ 64 = 0 \<and> te_net (cl_accounts clear_demo) 11 sym_A = 3"
  using accounts_reconcile [OF clear_demo_reachable] clear_demo_facts(2) by blast

end
