(* ===== verification/Histogram.thy ===== *)
theory Histogram
  imports Floats
begin

text \<open>
  \<^verbatim>\<open>src/metrics/latency_histogram.hpp\<close>: the fixed-bucket histogram.  The template arguments are the
  length of the bucket list and a field.  Sums of type \<^verbatim>\<open>double\<close> and the rank computed from a
  percentile go through the operations \<open>F\<close>.
\<close>

section \<open>The histogram\<close>

record LatencyStats =
  st_min_ns :: int
  st_max_ns :: int
  st_mean_ns :: int
  st_median_ns :: int
  st_p50_ns :: int
  st_p90_ns :: int
  st_p95_ns :: int
  st_p99_ns :: int
  st_p999_ns :: int
  st_samples :: "64 word"

record 'f LatencyHistogram =
  lh_width :: int
  lh_buckets :: "64 word list"
  lh_total_samples :: "64 word"
  lh_sum_ns :: 'f
  lh_min_ns :: int
  lh_max_ns :: int

definition MAX_LATENCY_NS :: "'f LatencyHistogram \<Rightarrow> int" where
  "MAX_LATENCY_NS h = mul64 (int (length (lh_buckets h))) (lh_width h)"

definition hist_reset :: "'f float_ops \<Rightarrow> 'f LatencyHistogram \<Rightarrow> 'f LatencyHistogram" where
  "hist_reset F h = h\<lparr>lh_buckets := replicate (length (lh_buckets h)) 0, lh_total_samples := 0,
     lh_sum_ns := fl_lit F 0, lh_min_ns := I64_MAX, lh_max_ns := - (2 ^ 63)\<rparr>"

definition LatencyHistogram_init :: "'f float_ops \<Rightarrow> nat \<Rightarrow> int \<Rightarrow> 'f LatencyHistogram" where
  "LatencyHistogram_init F n w = hist_reset F \<lparr>lh_width = w, lh_buckets = replicate n 0,
     lh_total_samples = 0, lh_sum_ns = fl_lit F 0, lh_min_ns = I64_MAX, lh_max_ns = - (2 ^ 63)\<rparr>"

definition total_samples :: "'f LatencyHistogram \<Rightarrow> 64 word" where
  "total_samples h = lh_total_samples h"

text \<open>The clamping to the range of the histogram.\<close>

definition clamp_bucket :: "nat \<Rightarrow> int \<Rightarrow> int \<Rightarrow> nat" where
  "clamp_bucket n w latency_ns =
     (let latency_ns = (if latency_ns < 0 then 0 else latency_ns);
          bucket = nat (latency_ns sdiv w)
      in if bucket \<ge> n then n - 1 else bucket)"

definition hist_record :: "'f float_ops \<Rightarrow> int \<Rightarrow> 'f LatencyHistogram \<Rightarrow> 'f LatencyHistogram" where
  "hist_record F latency_ns h =
     (let h = h\<lparr>lh_total_samples := lh_total_samples h + 1,
                lh_sum_ns := fl_add F (lh_sum_ns h) (fl_of_int F latency_ns)\<rparr>;
          h = (if latency_ns < lh_min_ns h then h\<lparr>lh_min_ns := latency_ns\<rparr> else h);
          h = (if latency_ns > lh_max_ns h then h\<lparr>lh_max_ns := latency_ns\<rparr> else h);
          bucket = clamp_bucket (length (lh_buckets h)) (lh_width h) latency_ns
      in h\<lparr>lh_buckets := (lh_buckets h)[bucket := lh_buckets h ! bucket + 1]\<rparr>)"

text \<open>The loop over the buckets, from bucket \<open>i\<close> on.\<close>

fun bucket_loop :: "int \<Rightarrow> int \<Rightarrow> 64 word \<Rightarrow> nat \<Rightarrow> 64 word \<Rightarrow> 64 word list \<Rightarrow> int" where
  "bucket_loop w max_ns target i cumulative [] = max_ns"
| "bucket_loop w max_ns target i cumulative (c # cs) =
     (let cumulative = cumulative + c
      in if cumulative \<ge> target then add64 (mul64 (int i) w) (w sdiv 2)
         else bucket_loop w max_ns target (i + 1) cumulative cs)"

definition percentile :: "'f float_ops \<Rightarrow> 'f \<Rightarrow> 'f LatencyHistogram \<Rightarrow> int" where
  "percentile F p h =
     (if lh_total_samples h = 0 then 0
      else (let target = word_of_int (fl_ceil F (fl_mul F (fl_of_int F (uint (lh_total_samples h))) p));
                target = (if target = 0 then 1 else target)
            in bucket_loop (lh_width h) (MAX_LATENCY_NS h) target 0 0 (lh_buckets h)))"

definition hist_stats :: "'f float_ops \<Rightarrow> 'f LatencyHistogram \<Rightarrow> LatencyStats" where
  "hist_stats F h =
     (let p50 = percentile F (fl_lit F (1 / 2)) h
      in \<lparr>st_min_ns = lh_min_ns h, st_max_ns = lh_max_ns h,
          st_mean_ns = (if lh_total_samples h > 0
            then fl_trunc F (fl_div F (lh_sum_ns h) (fl_of_int F (uint (lh_total_samples h)))) else 0),
          st_median_ns = p50, st_p50_ns = p50,
          st_p90_ns = percentile F (fl_lit F (9 / 10)) h,
          st_p95_ns = percentile F (fl_lit F (19 / 20)) h,
          st_p99_ns = percentile F (fl_lit F (99 / 100)) h,
          st_p999_ns = percentile F (fl_lit F (999 / 1000)) h,
          st_samples = lh_total_samples h\<rparr>)"

section \<open>What the buckets count\<close>

definition bucket_of :: "nat \<Rightarrow> int \<Rightarrow> int \<Rightarrow> nat" where
  "bucket_of n w x = min (n - 1) (nat (max 0 x div w))"

definition hist_of :: "'f float_ops \<Rightarrow> nat \<Rightarrow> int \<Rightarrow> int list \<Rightarrow> 'f LatencyHistogram" where
  "hist_of F n w xs = foldl (\<lambda>h x. hist_record F x h) (LatencyHistogram_init F n w) xs"

lemma bucket_of_mono: "0 < w \<Longrightarrow> mono (bucket_of n w)"
proof (rule monoI)
  fix x y :: int
  assume "0 < w" "x \<le> y"
  then have "max 0 x div w \<le> max 0 y div w" by (intro zdiv_mono1) auto
  then show "bucket_of n w x \<le> bucket_of n w y" unfolding bucket_of_def by (intro min.mono nat_mono) auto
qed

lemma sdiv_nonneg: "0 \<le> a \<Longrightarrow> 0 < b \<Longrightarrow> a sdiv b = a div b" for a b :: int
  by (simp add: signed_divide_int_def sgn_if)

lemma clamp_bucket_of: "0 < w \<Longrightarrow> 0 < n \<Longrightarrow> clamp_bucket n w x = bucket_of n w x"
  by (auto simp: clamp_bucket_def bucket_of_def Let_def sdiv_nonneg min_def max_def)

lemma record_buckets:
  assumes "0 < lh_width h" and "0 < length (lh_buckets h)"
  shows "lh_buckets (hist_record F x h) =
      (let i = bucket_of (length (lh_buckets h)) (lh_width h) x in (lh_buckets h)[i := lh_buckets h ! i + 1])"
    and "lh_total_samples (hist_record F x h) = lh_total_samples h + 1"
    and "lh_width (hist_record F x h) = lh_width h"
    and "lh_min_ns (hist_record F x h) = min (lh_min_ns h) x"
    and "lh_max_ns (hist_record F x h) = max (lh_max_ns h) x"
  using assms by (simp_all add: hist_record_def Let_def clamp_bucket_of min_def max_def)

lemma hist_of_spec:
  assumes "0 < w" and "0 < n"
  shows "lh_width (hist_of F n w xs) = w \<and> lh_total_samples (hist_of F n w xs) = of_nat (length xs) \<and>
    lh_buckets (hist_of F n w xs) = map (\<lambda>i. of_nat (length (filter (\<lambda>x. bucket_of n w x = i) xs))) [0..<n] \<and>
    lh_min_ns (hist_of F n w xs) = fold min xs I64_MAX \<and> lh_max_ns (hist_of F n w xs) = fold max xs (- (2 ^ 63))"
proof (induction xs rule: rev_induct)
  case Nil
  then show ?case
    by (simp add: hist_of_def LatencyHistogram_init_def hist_reset_def map_replicate_const)
next
  case (snoc x xs)
  let ?h = "hist_of F n w xs"
  have step: "hist_of F n w (xs @ [x]) = hist_record F x ?h" by (simp add: hist_of_def)
  have len: "length (lh_buckets ?h) = n" and w: "lh_width ?h = w" using snoc.IH by simp_all
  note r = record_buckets [of ?h F x, unfolded len w, OF assms]
  have lt: "bucket_of n w x < n" using assms(2) by (simp add: bucket_of_def)
  have "lh_buckets (hist_record F x ?h) =
      map (\<lambda>i. of_nat (length (filter (\<lambda>x. bucket_of n w x = i) (xs @ [x])))) [0..<n]"
    using r(1) snoc.IH lt by (auto simp: Let_def intro!: nth_equalityI simp: nth_list_update)
  then show ?case using r(2-5) snoc.IH step by (simp add: min.commute max.commute)
qed

text \<open>The number of elements of a sorted list up to a bound of a monotone function.\<close>

lemma rank_iff:
  fixes f :: "int \<Rightarrow> nat"
  assumes "sorted ys" and "mono f" and "k < length ys"
  shows "k < length (filter (\<lambda>x. f x \<le> i) ys) \<longleftrightarrow> f (ys ! k) \<le> i"
  using assms(1,3)
proof (induction ys arbitrary: k)
  case (Cons y ys)
  show ?case
  proof (cases "f y \<le> i")
    case True
    then show ?thesis using Cons by (cases k) auto
  next
    case False
    have "\<not> f x \<le> i" if "x \<in> set ys" for x
      using False monoD [OF assms(2), of y x] Cons.prems(1) that by auto
    then have "filter (\<lambda>x. f x \<le> i) (y # ys) = []" using False by (auto simp: filter_empty_conv)
    moreover have "\<not> f ((y # ys) ! k) \<le> i"
      using False \<open>\<And>x. x \<in> set ys \<Longrightarrow> \<not> f x \<le> i\<close> Cons.prems(2) by (cases k) auto
    ultimately show ?thesis by simp
  qed
qed simp

lemma rank_sort:
  fixes f :: "int \<Rightarrow> nat"
  assumes "mono f" and "k < length xs"
  shows "k < length (filter (\<lambda>x. f x \<le> i) xs) \<longleftrightarrow> f (sort xs ! k) \<le> i"
proof -
  have "length (filter (\<lambda>x. f x \<le> i) xs) = length (filter (\<lambda>x. f x \<le> i) (sort xs))"
    by (metis mset_filter mset_sort size_mset)
  then show ?thesis using rank_iff [of "sort xs" f k i] assms by simp
qed

lemma count_upto_Suc:
  "length (filter (\<lambda>x. f x \<le> i) xs) = length (filter (\<lambda>x. f x < i) xs) + length (filter (\<lambda>x. f x = i) xs)" for i :: nat
  by (induction xs) auto

lemma bucket_loop_spec:
  fixes f :: "int \<Rightarrow> nat"
  assumes "length xs < 2 ^ 64" and "k < length xs" and "mono f"
    and "\<And>x. f x < n" and "i \<le> n" and "\<not> k < length (filter (\<lambda>x. f x < i) xs)"
  shows "bucket_loop w m (of_nat (Suc k)) i (of_nat (length (filter (\<lambda>x. f x < i) xs)))
      (map (\<lambda>i. of_nat (length (filter (\<lambda>x. f x = i) xs))) [i..<n]) =
    add64 (mul64 (int (f (sort xs ! k))) w) (w sdiv 2)"
  using assms(5,6)
proof (induction "n - i" arbitrary: i)
  case 0
  then have "i = n" by simp
  then have "filter (\<lambda>x. f x < i) xs = xs" using assms(4) by (simp add: filter_id_conv)
  then show ?case using 0 assms(2) by simp
next
  case (Suc d)
  then have less: "i < n" by simp
  let ?c = "\<lambda>P. length (filter P xs)"
  have sum: "(of_nat (?c (\<lambda>x. f x < i)) + of_nat (?c (\<lambda>x. f x = i)) :: 64 word) = of_nat (?c (\<lambda>x. f x \<le> i))"
    by (simp add: count_upto_Suc [of f i xs])
  have small: "?c (\<lambda>x. f x \<le> i) < 2 ^ 64" "Suc k < 2 ^ 64"
    using assms(1,2) le_less_trans [OF length_filter_le] by auto
  then have cmp: "(of_nat (Suc k) :: 64 word) \<le> of_nat (?c (\<lambda>x. f x \<le> i)) \<longleftrightarrow> k < ?c (\<lambda>x. f x \<le> i)"
    by (simp add: word_le_nat_alt unat_of_nat Suc_le_eq del: of_nat_Suc)
  have upt: "[i..<n] = i # [Suc i..<n]" using less by (rule upt_conv_Cons)
  show ?case
  proof (cases "k < ?c (\<lambda>x. f x \<le> i)")
    case True
    have "f (sort xs ! k) \<le> i" using rank_sort [OF assms(3,2), of i] True by simp
    moreover have "\<not> f (sort xs ! k) < i"
    proof
      assume a: "f (sort xs ! k) < i"
      then obtain j where j: "i = Suc j" by (cases i) auto
      then have "k < ?c (\<lambda>x. f x \<le> j)" using rank_sort [OF assms(3,2), of j] a by simp
      then show False using Suc.prems(2) j by (simp add: less_Suc_eq_le)
    qed
    ultimately show ?thesis using True cmp by (simp add: upt sum Let_def del: of_nat_Suc)
  next
    case False
    have "?c (\<lambda>x. f x < Suc i) = ?c (\<lambda>x. f x \<le> i)" by (simp add: less_Suc_eq_le)
    then have "bucket_loop w m (of_nat (Suc k)) (Suc i) (of_nat (?c (\<lambda>x. f x \<le> i)))
      (map (\<lambda>i. of_nat (?c (\<lambda>x. f x = i))) [Suc i..<n]) = add64 (mul64 (int (f (sort xs ! k))) w) (w sdiv 2)"
      using Suc.hyps(1) [of "Suc i"] Suc.hyps(2) less False by simp
    then show ?thesis using False cmp by (simp add: upt sum Let_def del: of_nat_Suc)
  qed
qed

lemma bucket_loop_beyond:
  fixes f :: "int \<Rightarrow> nat"
  assumes "length xs < 2 ^ 64" and "length xs < unat target" and "i \<le> n"
  shows "bucket_loop w m target i (of_nat (length (filter (\<lambda>x. f x < i) xs)))
      (map (\<lambda>i. of_nat (length (filter (\<lambda>x. f x = i) xs))) [i..<n]) = m"
  using assms(3)
proof (induction "n - i" arbitrary: i)
  case (Suc d)
  then have less: "i < n" by simp
  let ?c = "\<lambda>P. length (filter P xs)"
  have sum: "(of_nat (?c (\<lambda>x. f x < i)) + of_nat (?c (\<lambda>x. f x = i)) :: 64 word) = of_nat (?c (\<lambda>x. f x \<le> i))"
    by (simp add: count_upto_Suc [of f i xs])
  have few: "?c (\<lambda>x. f x \<le> i) \<le> length xs" by simp
  then have "?c (\<lambda>x. f x \<le> i) < 2 ^ 64" using assms(1) by (rule le_less_trans)
  then have "\<not> target \<le> of_nat (?c (\<lambda>x. f x \<le> i))"
    using le_less_trans [OF few assms(2)] by (simp add: word_le_nat_alt unat_of_nat)
  moreover have "?c (\<lambda>x. f x < Suc i) = ?c (\<lambda>x. f x \<le> i)" by (simp add: less_Suc_eq_le)
  ultimately show ?case
    using Suc.hyps(1) [of "Suc i"] Suc.hyps(2) less upt_conv_Cons [OF less] by (simp add: sum Let_def)
qed simp

section \<open>Properties\<close>

lemma midpoint_near: "0 < w \<Longrightarrow> \<bar>x div w * w + w div 2 - x\<bar> \<le> w div 2" for x w :: int
proof -
  assume w: "0 < w"
  have "x = x div w * w + x mod w" by simp
  moreover have "0 \<le> x mod w" "x mod w < w" using w by simp_all
  ultimately show ?thesis by linarith
qed

lemma bucket_value:
  assumes "0 < w" and "0 < n" and "int n * w \<le> I64_MAX" and "0 \<le> x" and "x < int n * w"
  shows "add64 (mul64 (int (bucket_of n w x)) w) (w sdiv 2) = x div w * w + w div 2"
proof -
  let ?q = "x div w"
  have "x = ?q * w + x mod w" "0 \<le> x mod w" using assms(1) by simp_all
  then have qw: "?q * w \<le> x" by linarith
  have q0: "0 \<le> ?q" using assms(1,4) by (simp add: pos_imp_zdiv_nonneg_iff)
  have qn: "?q < int n"
  proof (rule ccontr)
    assume "\<not> ?q < int n"
    then have "int n * w \<le> ?q * w" using assms(1) by (intro mult_right_mono) simp_all
    then show False using qw assms(5) by linarith
  qed
  have b: "int (bucket_of n w x) = ?q" using assms(2,4) qn q0 by (simp add: bucket_of_def)
  have "0 \<le> ?q * w" using q0 assms(1) by simp
  moreover have "?q * w + w \<le> int n * w"
    using mult_right_mono [of "?q + 1" "int n" w] qn assms(1) by (simp add: distrib_right)
  moreover have "0 \<le> w div 2" "w div 2 \<le> w" using assms(1) by auto
  ultimately have "i64_ok (?q * w)" "i64_ok (?q * w + w div 2)" using assms(3) by (auto simp: i64_ok_def)
  moreover have "w sdiv 2 = w div 2" using assms(1) by (intro sdiv_nonneg) simp_all
  ultimately show ?thesis using b by (simp add: wrap64_id)
qed

text \<open>The rank the code computes for a percentile, and what is reported for it.\<close>

definition rank_of :: "'f float_ops \<Rightarrow> 'f \<Rightarrow> nat \<Rightarrow> int" where
  "rank_of F p samples = max 1 (fl_ceil F (fl_mul F (fl_of_int F (int samples)) p))"

lemma percentile_rank:
  assumes "0 < w" and "0 < n" and "xs \<noteq> []" and "length xs < 2 ^ 64"
    and "0 \<le> fl_ceil F (fl_mul F (fl_of_int F (int (length xs))) p)" and "rank_of F p (length xs) < 2 ^ 64"
  shows "percentile F p (hist_of F n w xs) =
    bucket_loop w (mul64 (int n) w) (word_of_int (rank_of F p (length xs))) 0 0
      (map (\<lambda>i. of_nat (length (filter (\<lambda>x. bucket_of n w x = i) xs))) [0..<n])"
proof -
  let ?h = "hist_of F n w xs" and ?r = "fl_ceil F (fl_mul F (fl_of_int F (int (length xs))) p)"
  note spec = hist_of_spec [OF assms(1,2), of F xs]
  have total: "uint (lh_total_samples ?h) = int (length xs)" "lh_total_samples ?h \<noteq> 0"
    using spec assms(3,4) by (auto simp: uint_nat unat_of_nat unat_eq_0 [symmetric] simp del: unat_eq_0)
  have target: "(if (word_of_int ?r :: 64 word) = 0 then 1 else word_of_int ?r) =
      (word_of_int (rank_of F p (length xs)) :: 64 word)"
  proof (cases "?r = 0")
    case False
    then have "rank_of F p (length xs) = ?r" using assms(5) by (simp add: rank_of_def)
    moreover have "uint (word_of_int ?r :: 64 word) = ?r"
      using assms(5,6) calculation by (simp add: uint_word_of_int_eq take_bit_int_eq_self)
    then have "(word_of_int ?r :: 64 word) \<noteq> 0" using False by (metis unsigned_0)
    ultimately show ?thesis by simp
  qed (simp add: rank_of_def)
  have max: "MAX_LATENCY_NS ?h = mul64 (int n) w" using spec by (simp add: MAX_LATENCY_NS_def)
  show ?thesis
    unfolding percentile_def Let_def total(1) target max using total(2) spec by simp
qed

text \<open>C34: percentiles are accurate to half a bucket.  When there are samples, fewer than \<open>2\<^sup>64\<close>, all in
  the range of a histogram whose range fits into 64 bits, the value reported for a percentile is
  within half the bucket width of the sample of the rank the code computes, whatever the order of
  recording; the rank is the rounded-up product of the number of samples and the percentile, at least
  one, under whatever floating-point operations the code is compiled to, and is taken to fit an
  unsigned 64-bit number (the conversion is undefined otherwise).  A rank beyond the number of
  samples reports the upper end of the range.  Only where the product is exact is this the
  nearest-rank percentile.\<close>

theorem percentile_accurate:
  assumes "0 < w" and "0 < n" and "int n * w \<le> I64_MAX" and "xs \<noteq> []" and "length xs < 2 ^ 64"
    and "list_all (\<lambda>x. 0 \<le> x \<and> x < int n * w) xs"
    and "rank = max 1 (fl_ceil F (fl_mul F (fl_of_int F (int (length xs))) p))"
    and "0 \<le> fl_ceil F (fl_mul F (fl_of_int F (int (length xs))) p)" and "rank < 2 ^ 64"
  shows "(if rank \<le> int (length xs)
      then \<bar>percentile F p (hist_of F n w xs) - sort xs ! (nat rank - 1)\<bar> \<le> w div 2
      else percentile F p (hist_of F n w xs) = int n * w)"
proof -
  have rank: "rank = rank_of F p (length xs)" using assms(7) by (simp add: rank_of_def)
  have pos: "1 \<le> rank" using assms(7) by simp
  let ?bs = "map (\<lambda>i. of_nat (length (filter (\<lambda>x. bucket_of n w x = i) xs))) [0..<n]"
  have p: "percentile F p (hist_of F n w xs) = bucket_loop w (mul64 (int n) w) (word_of_int rank) 0 0 ?bs"
    using percentile_rank [OF assms(1,2,4,5,8)] assms(9) unfolding rank by blast
  show ?thesis
  proof (cases "rank \<le> int (length xs)")
    case True
    obtain k where k: "rank = int (Suc k)" "k < length xs"
    proof -
      obtain k where "nat rank = Suc k" using pos by (cases "nat rank") auto
      then have "rank = int (Suc k)" using pos by simp
      then show thesis using that True by simp
    qed
    let ?x = "sort xs ! k"
    have "?x \<in> set xs" using k(2) by (metis length_sort nth_mem set_sort)
    then have x: "0 \<le> ?x" "?x < int n * w" using assms(6) by (auto simp: list_all_iff)
    have "percentile F p (hist_of F n w xs) = add64 (mul64 (int (bucket_of n w ?x)) w) (w sdiv 2)"
      using bucket_loop_spec [OF assms(5) k(2), of "bucket_of n w" n 0 w "mul64 (int n) w"]
        bucket_of_mono [OF assms(1), of n] assms(2) unfolding p k(1) by (simp add: bucket_of_def)
    moreover have "nat rank - 1 = k" using k(1) by simp
    ultimately show ?thesis
      using midpoint_near [OF assms(1), of ?x] bucket_value [OF assms(1-3) x] True by simp
  next
    case False
    have "unat (word_of_int rank :: 64 word) = nat rank"
      using pos assms(9) by (simp add: unat_eq_nat_uint uint_word_of_int_eq take_bit_int_eq_self)
    then have "length xs < unat (word_of_int rank :: 64 word)" using False by simp
    from bucket_loop_beyond [OF assms(5) this, of 0 n w "mul64 (int n) w" "bucket_of n w"]
    have "percentile F p (hist_of F n w xs) = mul64 (int n) w" unfolding p by simp
    moreover have "0 \<le> int n * w" using assms(1) by simp
    then have "i64_ok (int n * w)" using assms(3) by (simp add: i64_ok_def)
    then have "mul64 (int n) w = int n * w" by (simp add: wrap64_id)
    ultimately show ?thesis using False by simp
  qed
qed

theorem percentile_accurate_witness:
  "\<bar>percentile exact_ops (9 / 10) (hist_of exact_ops 10 100 [250, 10, 130, 980, 420]) - 980\<bar> \<le> 50"
proof -
  have s: "sort [250, 10, 130, 980, 420] = [10, 130, 250, 420, 980 :: int]" by simp
  have "ceiling (9 / 2 :: rat) = 5" by (rule ceiling_unique) simp_all
  then have r: "fl_ceil exact_ops (fl_mul exact_ops (fl_of_int exact_ops (int (length [250, 10, 130, 980, 420 :: int])))
      (9 / 10)) = 5" by simp
  show ?thesis
    using percentile_accurate [of 100 10 "[250, 10, 130, 980, 420]" 5 exact_ops "9 / 10", unfolded r] s by simp
qed

end
