(* ===== verification/Telemetry.thy ===== *)
theory Telemetry
  imports Histogram Types
begin

text \<open>
  \<^verbatim>\<open>src/metrics/telemetry.hpp\<close> and \<^verbatim>\<open>.cpp\<close>: histograms, counters and fixed-point sums.

  An atomic counter is its value; the recording operations are single atomic additions.  A reading
  of \<^verbatim>\<open>steady_clock\<close> is an argument, in nanoseconds.  The dashboard is the list of the numbers it
  prints with their captions; padding and box characters are left out.  The member \<^verbatim>\<open>clock_\<close> is never
  used.
\<close>

section \<open>State\<close>

record 'f Telemetry =
  tl_e2e_latency :: "'f LatencyHistogram"
  tl_matching_latency :: "'f LatencyHistogram"
  tl_md_latency :: "'f LatencyHistogram"
  tl_fix_in_latency :: "'f LatencyHistogram"
  tl_fix_out_latency :: "'f LatencyHistogram"
  tl_orders :: "64 word"
  tl_trades :: "64 word"
  tl_cancels :: "64 word"
  tl_rejects :: "64 word"
  tl_total_fill_qty :: "64 word"
  tl_total_fill_notional :: "64 word"
  tl_queue_pos_hist :: "'f LatencyHistogram"
  tl_fill_prob_sum :: int
  tl_fill_prob_count :: "64 word"
  tl_slippage_sum :: int
  tl_slippage_count :: "64 word"
  tl_active_timers :: "string \<rightharpoonup> int"
  tl_export_interval_ms :: "32 word"

definition kFixedPointScale :: int where
  "kFixedPointScale = 1000000000"

definition Telemetry_init :: "'f float_ops \<Rightarrow> 'f Telemetry" where
  "Telemetry_init F = \<lparr>tl_e2e_latency = LatencyHistogram_init F 10000 100,
     tl_matching_latency = LatencyHistogram_init F 10000 100,
     tl_md_latency = LatencyHistogram_init F 10000 100,
     tl_fix_in_latency = LatencyHistogram_init F 10000 100,
     tl_fix_out_latency = LatencyHistogram_init F 10000 100,
     tl_orders = 0, tl_trades = 0, tl_cancels = 0, tl_rejects = 0, tl_total_fill_qty = 0,
     tl_total_fill_notional = 0, tl_queue_pos_hist = LatencyHistogram_init F 1000 1,
     tl_fill_prob_sum = 0, tl_fill_prob_count = 0, tl_slippage_sum = 0, tl_slippage_count = 0,
     tl_active_timers = Map.empty, tl_export_interval_ms = 1000\<rparr>"

section \<open>Recording\<close>

definition record_e2e_latency :: "'f float_ops \<Rightarrow> int \<Rightarrow> 'f Telemetry \<Rightarrow> 'f Telemetry" where
  "record_e2e_latency F ns t = t\<lparr>tl_e2e_latency := hist_record F ns (tl_e2e_latency t)\<rparr>"

definition record_matching_latency :: "'f float_ops \<Rightarrow> int \<Rightarrow> 'f Telemetry \<Rightarrow> 'f Telemetry" where
  "record_matching_latency F ns t = t\<lparr>tl_matching_latency := hist_record F ns (tl_matching_latency t)\<rparr>"

definition record_md_latency :: "'f float_ops \<Rightarrow> int \<Rightarrow> 'f Telemetry \<Rightarrow> 'f Telemetry" where
  "record_md_latency F ns t = t\<lparr>tl_md_latency := hist_record F ns (tl_md_latency t)\<rparr>"

definition record_fix_inbound_latency :: "'f float_ops \<Rightarrow> int \<Rightarrow> 'f Telemetry \<Rightarrow> 'f Telemetry" where
  "record_fix_inbound_latency F ns t = t\<lparr>tl_fix_in_latency := hist_record F ns (tl_fix_in_latency t)\<rparr>"

definition record_fix_outbound_latency :: "'f float_ops \<Rightarrow> int \<Rightarrow> 'f Telemetry \<Rightarrow> 'f Telemetry" where
  "record_fix_outbound_latency F ns t = t\<lparr>tl_fix_out_latency := hist_record F ns (tl_fix_out_latency t)\<rparr>"

definition record_order :: "'f Telemetry \<Rightarrow> 'f Telemetry" where
  "record_order t = t\<lparr>tl_orders := tl_orders t + 1\<rparr>"

definition tl_record_trade :: "'f Telemetry \<Rightarrow> 'f Telemetry" where
  "tl_record_trade t = t\<lparr>tl_trades := tl_trades t + 1\<rparr>"

definition record_cancel :: "'f Telemetry \<Rightarrow> 'f Telemetry" where
  "record_cancel t = t\<lparr>tl_cancels := tl_cancels t + 1\<rparr>"

definition record_reject :: "'f Telemetry \<Rightarrow> 'f Telemetry" where
  "record_reject t = t\<lparr>tl_rejects := tl_rejects t + 1\<rparr>"

definition record_fill :: "Quantity \<Rightarrow> Price \<Rightarrow> 'f Telemetry \<Rightarrow> 'f Telemetry" where
  "record_fill qty price t =
     t\<lparr>tl_total_fill_qty := tl_total_fill_qty t + word_of_int qty,
       tl_total_fill_notional := tl_total_fill_notional t + word_of_int (mul64 qty price)\<rparr>"

definition record_queue_position :: "'f float_ops \<Rightarrow> 32 word \<Rightarrow> 'f Telemetry \<Rightarrow> 'f Telemetry" where
  "record_queue_position F pos t =
     t\<lparr>tl_queue_pos_hist := hist_record F (uint pos) (tl_queue_pos_hist t)\<rparr>"

definition record_fill_probability :: "'f float_ops \<Rightarrow> 'f \<Rightarrow> 'f Telemetry \<Rightarrow> 'f Telemetry" where
  "record_fill_probability F prob t =
     t\<lparr>tl_fill_prob_sum := add64 (tl_fill_prob_sum t)
         (fl_trunc F (fl_mul F prob (fl_of_int F kFixedPointScale))),
       tl_fill_prob_count := tl_fill_prob_count t + 1\<rparr>"

definition record_slippage :: "'f float_ops \<Rightarrow> 'f \<Rightarrow> 'f Telemetry \<Rightarrow> 'f Telemetry" where
  "record_slippage F ticks t =
     t\<lparr>tl_slippage_sum := add64 (tl_slippage_sum t)
         (fl_trunc F (fl_mul F ticks (fl_of_int F kFixedPointScale))),
       tl_slippage_count := tl_slippage_count t + 1\<rparr>"

definition set_export_interval_ms :: "32 word \<Rightarrow> 'f Telemetry \<Rightarrow> 'f Telemetry" where
  "set_export_interval_ms ms t = t\<lparr>tl_export_interval_ms := ms\<rparr>"

section \<open>Timers\<close>

text \<open>\<^verbatim>\<open>name.find(part) != npos\<close>.\<close>

fun contains :: "string \<Rightarrow> string \<Rightarrow> bool" where
  "contains part [] \<longleftrightarrow> part = []"
| "contains part (c # cs) \<longleftrightarrow> take (length part) (c # cs) = part \<or> contains part cs"

definition start_timer :: "string \<Rightarrow> int \<Rightarrow> 'f Telemetry \<Rightarrow> 'f Telemetry" where
  "start_timer name now t = t\<lparr>tl_active_timers := (tl_active_timers t)(name \<mapsto> now)\<rparr>"

definition end_timer :: "'f float_ops \<Rightarrow> string \<Rightarrow> int \<Rightarrow> 'f Telemetry \<Rightarrow> 'f Telemetry" where
  "end_timer F name now t =
     (case tl_active_timers t name of
        None \<Rightarrow> t
      | Some start \<Rightarrow>
          (let ns = sub64 now start;
               t = (if contains ''e2e'' name then record_e2e_latency F ns t
                    else if contains ''match'' name then record_matching_latency F ns t
                    else if contains ''md'' name then record_md_latency F ns t
                    else t)
           in t\<lparr>tl_active_timers := (tl_active_timers t)(name := None)\<rparr>))"

section \<open>Export and control\<close>

datatype 'f shown = Count "64 word" | Nanos int | Real 'f

definition average :: "'f float_ops \<Rightarrow> int \<Rightarrow> 64 word \<Rightarrow> 'f" where
  "average F fp_sum n = fl_div F (fl_of_int F fp_sum)
     (fl_mul F (fl_of_int F (uint n)) (fl_of_int F kFixedPointScale))"

definition percentiles :: "string \<Rightarrow> LatencyStats \<Rightarrow> (string \<times> 'f shown) list" where
  "percentiles name s = [(name, Nanos (st_p50_ns s)), (name, Nanos (st_p99_ns s)), (name, Nanos (st_p999_ns s))]"

definition print_dashboard :: "'f float_ops \<Rightarrow> 'f Telemetry \<Rightarrow> (string \<times> 'f shown) list" where
  "print_dashboard F t =
     (let e2e = hist_stats F (tl_e2e_latency t);
          me = hist_stats F (tl_matching_latency t);
          md = hist_stats F (tl_md_latency t)
      in [(''Orders'', Count (tl_orders t)), (''Trades'', Count (tl_trades t)),
          (''Cancels'', Count (tl_cancels t)), (''Rejects'', Count (tl_rejects t))]
         @ percentiles ''End-to-end'' e2e @ percentiles ''Matching'' me @ percentiles ''Market Data'' md
         @ [(''Volume'', Count (tl_total_fill_qty t))]
         @ (if tl_fill_prob_count t > 0
            then [(''Avg Fill P'', Real (average F (tl_fill_prob_sum t) (tl_fill_prob_count t)))] else [])
         @ (if tl_slippage_count t > 0
            then [(''Avg Slip'', Real (average F (tl_slippage_sum t) (tl_slippage_count t)))] else []))"

definition print_latency_summary :: "'f float_ops \<Rightarrow> 'f Telemetry \<Rightarrow> (string \<times> 'f shown) list" where
  "print_latency_summary F t =
     (let e2e = hist_stats F (tl_e2e_latency t); me = hist_stats F (tl_matching_latency t)
      in percentiles ''E2E'' e2e @ [(''E2E'', Count (st_samples e2e))]
         @ percentiles ''Match'' me @ [(''Match'', Count (st_samples me))])"

definition tl_reset :: "'f float_ops \<Rightarrow> 'f Telemetry \<Rightarrow> 'f Telemetry" where
  "tl_reset F t =
     t\<lparr>tl_e2e_latency := hist_reset F (tl_e2e_latency t),
       tl_matching_latency := hist_reset F (tl_matching_latency t),
       tl_md_latency := hist_reset F (tl_md_latency t),
       tl_fix_in_latency := hist_reset F (tl_fix_in_latency t),
       tl_fix_out_latency := hist_reset F (tl_fix_out_latency t),
       tl_queue_pos_hist := hist_reset F (tl_queue_pos_hist t),
       tl_orders := 0, tl_trades := 0, tl_cancels := 0, tl_rejects := 0,
       tl_total_fill_qty := 0, tl_total_fill_notional := 0,
       tl_fill_prob_sum := 0, tl_fill_prob_count := 0, tl_slippage_sum := 0, tl_slippage_count := 0\<rparr>"

section \<open>Sequences of operations\<close>

datatype 'f tl_op =
  E2eLatency int | MatchingLatency int | MdLatency int | FixInLatency int | FixOutLatency int
| CountOrder | CountTrade | CountCancel | CountReject | CountFill Quantity Price
| QueuePosition "32 word" | FillProbability 'f | Slippage 'f
| StartTimer string int | EndTimer string int | ExportInterval "32 word" | ResetAll

fun tl_exec :: "'f float_ops \<Rightarrow> 'f tl_op \<Rightarrow> 'f Telemetry \<Rightarrow> 'f Telemetry" where
  "tl_exec F (E2eLatency ns) t = record_e2e_latency F ns t"
| "tl_exec F (MatchingLatency ns) t = record_matching_latency F ns t"
| "tl_exec F (MdLatency ns) t = record_md_latency F ns t"
| "tl_exec F (FixInLatency ns) t = record_fix_inbound_latency F ns t"
| "tl_exec F (FixOutLatency ns) t = record_fix_outbound_latency F ns t"
| "tl_exec F CountOrder t = record_order t"
| "tl_exec F CountTrade t = tl_record_trade t"
| "tl_exec F CountCancel t = record_cancel t"
| "tl_exec F CountReject t = record_reject t"
| "tl_exec F (CountFill qty price) t = record_fill qty price t"
| "tl_exec F (QueuePosition pos) t = record_queue_position F pos t"
| "tl_exec F (FillProbability prob) t = record_fill_probability F prob t"
| "tl_exec F (Slippage ticks) t = record_slippage F ticks t"
| "tl_exec F (StartTimer name now) t = start_timer name now t"
| "tl_exec F (EndTimer name now) t = end_timer F name now t"
| "tl_exec F (ExportInterval ms) t = set_export_interval_ms ms t"
| "tl_exec F ResetAll t = tl_reset F t"

definition tl_run :: "'f float_ops \<Rightarrow> 'f tl_op list \<Rightarrow> 'f Telemetry \<Rightarrow> 'f Telemetry" where
  "tl_run F ops t = foldl (\<lambda>t op. tl_exec F op t) t ops"

text \<open>The operations after the last reset, and what they recorded.\<close>

definition since_reset :: "'f tl_op list \<Rightarrow> 'f tl_op list" where
  "since_reset ops = rev (takeWhile (\<lambda>op. op \<noteq> ResetAll) (rev ops))"

definition slippages :: "'f tl_op list \<Rightarrow> 'f list" where
  "slippages ops = concat (map (\<lambda>op. case op of Slippage x \<Rightarrow> [x] | _ \<Rightarrow> []) ops)"

definition fill_probabilities :: "'f tl_op list \<Rightarrow> 'f list" where
  "fill_probabilities ops = concat (map (\<lambda>op. case op of FillProbability x \<Rightarrow> [x] | _ \<Rightarrow> []) ops)"

definition recorded_fills :: "'f tl_op list \<Rightarrow> (Quantity \<times> Price) list" where
  "recorded_fills ops = concat (map (\<lambda>op. case op of CountFill q p \<Rightarrow> [(q, p)] | _ \<Rightarrow> []) ops)"

definition fix_inbounds :: "'f tl_op list \<Rightarrow> int list" where
  "fix_inbounds ops = concat (map (\<lambda>op. case op of FixInLatency ns \<Rightarrow> [ns] | _ \<Rightarrow> []) ops)"

lemmas tl_op_defs = record_e2e_latency_def record_matching_latency_def record_md_latency_def
  record_fix_inbound_latency_def record_fix_outbound_latency_def record_order_def tl_record_trade_def
  record_cancel_def record_reject_def record_fill_def record_queue_position_def
  record_fill_probability_def record_slippage_def start_timer_def end_timer_def
  set_export_interval_ms_def tl_reset_def Let_def

lemma since_reset_snoc: "since_reset (ops @ [op]) = (if op = ResetAll then [] else since_reset ops @ [op])"
  by (simp add: since_reset_def)

lemma recorded_simps [simp]:
  "slippages [] = []" "slippages (ops @ ops') = slippages ops @ slippages ops'"
  "fill_probabilities [] = []" "fill_probabilities (ops @ ops') = fill_probabilities ops @ fill_probabilities ops'"
  "recorded_fills [] = []" "recorded_fills (ops @ ops') = recorded_fills ops @ recorded_fills ops'"
  "fix_inbounds [] = []" "fix_inbounds (ops @ ops') = fix_inbounds ops @ fix_inbounds ops'"
  by (simp_all add: slippages_def fill_probabilities_def recorded_fills_def fix_inbounds_def)

lemma hist_reset_shape:
  "lh_width h = w \<Longrightarrow> length (lh_buckets h) = n \<Longrightarrow> hist_reset F h = LatencyHistogram_init F n w"
  by (cases h) (simp add: hist_reset_def LatencyHistogram_init_def)

lemma hist_of_reset: "0 < w \<Longrightarrow> 0 < n \<Longrightarrow> hist_reset F (hist_of F n w xs) = hist_of F n w []"
  using hist_of_spec [of w n F xs] hist_reset_shape [of "hist_of F n w xs" w n F] by (simp add: hist_of_def)

lemma hist_of_snoc: "hist_of F n w (xs @ [x]) = hist_record F x (hist_of F n w xs)"
  by (simp add: hist_of_def)

text \<open>What a telemetry object holds after any sequence of operations.\<close>

definition tl_holds :: "'f float_ops \<Rightarrow> 'f Telemetry \<Rightarrow> 'f tl_op list \<Rightarrow> bool" where
  "tl_holds F t l \<longleftrightarrow>
     tl_orders t = of_nat (length (filter (\<lambda>op. op = CountOrder) l)) \<and>
     tl_trades t = of_nat (length (filter (\<lambda>op. op = CountTrade) l)) \<and>
     tl_cancels t = of_nat (length (filter (\<lambda>op. op = CountCancel) l)) \<and>
     tl_rejects t = of_nat (length (filter (\<lambda>op. op = CountReject) l)) \<and>
     tl_total_fill_qty t = word_of_int (\<Sum>(q, p)\<leftarrow>recorded_fills l. q) \<and>
     tl_total_fill_notional t = word_of_int (\<Sum>(q, p)\<leftarrow>recorded_fills l. q * p) \<and>
     tl_fix_in_latency t = hist_of F 10000 100 (fix_inbounds l) \<and>
     tl_fill_prob_count t = of_nat (length (fill_probabilities l)) \<and>
     tl_fill_prob_sum t = wrap64 (\<Sum>x\<leftarrow>fill_probabilities l. fl_trunc F (fl_mul F x (fl_of_int F kFixedPointScale))) \<and>
     tl_slippage_count t = of_nat (length (slippages l)) \<and>
     tl_slippage_sum t = wrap64 (\<Sum>x\<leftarrow>slippages l. fl_trunc F (fl_mul F x (fl_of_int F kFixedPointScale)))"

lemma word_of_wrap64: "(word_of_int (wrap64 x) :: 64 word) = word_of_int x"
  using wrap64_mod [of x] by (simp add: word_of_int_eq_iff take_bit_eq_mod)

lemma tl_exec_holds:
  assumes "tl_holds F t l"
  shows "tl_holds F (tl_exec F op t) (if op = ResetAll then [] else l @ [op])"
  using assms
  by (cases op; simp add: tl_holds_def tl_op_defs slippages_def fill_probabilities_def recorded_fills_def fix_inbounds_def
      hist_of_snoc hist_of_reset word_of_wrap64 split: option.splits)

lemma tl_run_holds: "tl_holds F (tl_run F ops (Telemetry_init F)) (since_reset ops)"
proof (induction ops rule: rev_induct)
  case Nil
  then show ?case by (simp add: tl_holds_def tl_run_def since_reset_def Telemetry_init_def hist_of_def wrap64_def)
next
  case (snoc op ops)
  then show ?case using tl_exec_holds [OF snoc] by (simp add: tl_run_def since_reset_snoc)
qed

text \<open>The latencies on the dashboard come from direct recordings and from timers.  The reference runs
  beside the object: when each running timer was last started, and the latencies recorded since the last
  reset, each with the histogram it belongs to; a reset does not stop timers.\<close>

datatype lat_kind = E2eLat | MatchLat | MdLat

definition timer_kind :: "string \<Rightarrow> lat_kind option" where
  "timer_kind name = (if contains ''e2e'' name then Some E2eLat else if contains ''match'' name then Some MatchLat
     else if contains ''md'' name then Some MdLat else None)"

type_synonym lat_state = "(string \<rightharpoonup> int) \<times> (lat_kind \<times> int) list"

fun lat_step :: "lat_state \<Rightarrow> 'f tl_op \<Rightarrow> lat_state" where
  "lat_step (started, lats) (E2eLatency ns) = (started, lats @ [(E2eLat, ns)])"
| "lat_step (started, lats) (MatchingLatency ns) = (started, lats @ [(MatchLat, ns)])"
| "lat_step (started, lats) (MdLatency ns) = (started, lats @ [(MdLat, ns)])"
| "lat_step (started, lats) (StartTimer name now) = (started(name \<mapsto> now), lats)"
| "lat_step (started, lats) (EndTimer name now) =
     (started(name := None),
      lats @ (case (started name, timer_kind name) of
               (Some start, Some k) \<Rightarrow> [(k, sub64 now start)] | _ \<Rightarrow> []))"
| "lat_step (started, lats) ResetAll = (started, [])"
| "lat_step (started, lats) op = (started, lats)"

definition lat_log :: "'f tl_op list \<Rightarrow> (lat_kind \<times> int) list" where
  "lat_log ops = snd (foldl lat_step (Map.empty, []) ops)"

definition latencies :: "lat_kind \<Rightarrow> (lat_kind \<times> int) list \<Rightarrow> int list" where
  "latencies k lats = map snd (filter (\<lambda>e. fst e = k) lats)"

lemma latencies_simps [simp]:
  "latencies k [] = []" "latencies k (xs @ ys) = latencies k xs @ latencies k ys"
  "latencies k [(k', ns)] = (if k' = k then [ns] else [])"
  by (simp_all add: latencies_def)

definition lat_holds :: "'f float_ops \<Rightarrow> 'f Telemetry \<Rightarrow> lat_state \<Rightarrow> bool" where
  "lat_holds F t st \<longleftrightarrow> tl_active_timers t = fst st \<and>
     tl_e2e_latency t = hist_of F 10000 100 (latencies E2eLat (snd st)) \<and>
     tl_matching_latency t = hist_of F 10000 100 (latencies MatchLat (snd st)) \<and>
     tl_md_latency t = hist_of F 10000 100 (latencies MdLat (snd st))"

lemma tl_exec_lats: "lat_holds F t st \<Longrightarrow> lat_holds F (tl_exec F op t) (lat_step st op)"
  by (cases st; cases op)
    (auto simp: lat_holds_def tl_op_defs hist_of_snoc hist_of_reset timer_kind_def fun_upd_idem
      split: option.splits)

lemma tl_run_lats: "lat_holds F (tl_run F ops (Telemetry_init F)) (foldl lat_step (Map.empty, []) ops)"
proof (induction ops rule: rev_induct)
  case Nil
  then show ?case by (simp add: lat_holds_def tl_run_def Telemetry_init_def hist_of_def)
next
  case (snoc op ops)
  then show ?case using tl_exec_lats [OF snoc] by (simp add: tl_run_def)
qed

section \<open>Fixed-point sums\<close>

abbreviation fixed :: "rat \<Rightarrow> int" where
  "fixed x \<equiv> fl_trunc exact_ops (x * of_int kFixedPointScale)"

lemma trunc_near: "\<bar>of_int (fl_trunc exact_ops x) - x\<bar> < 1"
  unfolding exact_ops_def by (simp add: abs_less_iff) linarith

lemma fixed_sum_near:
  "xs \<noteq> [] \<Longrightarrow> \<bar>of_int (\<Sum>x\<leftarrow>xs. fixed x) - (\<Sum>x\<leftarrow>xs. x) * of_int kFixedPointScale\<bar> < of_nat (length xs)"
proof (induction xs)
  case (Cons x xs)
  have one: "\<bar>of_int (fixed x) - x * of_int kFixedPointScale\<bar> < 1" by (rule trunc_near)
  show ?case
  proof (cases "xs = []")
    case False
    then show ?thesis using Cons.IH one by (simp add: distrib_right)
  qed (use one in simp)
qed simp

lemma average_near:
  assumes "xs \<noteq> []" and "length xs < 2 ^ 64" and "i64_ok (\<Sum>x\<leftarrow>xs. fixed x)"
  shows "\<bar>average exact_ops (wrap64 (\<Sum>x\<leftarrow>xs. fixed x)) (of_nat (length xs)) - (\<Sum>x\<leftarrow>xs. x) / of_nat (length xs)\<bar>
    < 1 / of_int kFixedPointScale"
proof -
  let ?S = "of_int (\<Sum>x\<leftarrow>xs. fixed x) :: rat" and ?K = "of_int kFixedPointScale :: rat"
    and ?n = "of_nat (length xs) :: rat"
  have n: "0 < ?n" and K: "0 < ?K" using assms(1) by (simp_all add: kFixedPointScale_def)
  have "uint (of_nat (length xs) :: 64 word) = int (length xs)"
    using assms(2) by (simp add: uint_nat unat_of_nat)
  then have "average exact_ops (wrap64 (\<Sum>x\<leftarrow>xs. fixed x)) (of_nat (length xs)) = ?S / (?n * ?K)"
    using assms(3) by (simp add: average_def)
  moreover have "?S / (?n * ?K) - (\<Sum>x\<leftarrow>xs. x) / ?n = (?S - (\<Sum>x\<leftarrow>xs. x) * ?K) / (?n * ?K)"
    using n K by (simp add: field_simps)
  moreover have "\<bar>(?S - (\<Sum>x\<leftarrow>xs. x) * ?K) / (?n * ?K)\<bar> < 1 / ?K"
  proof -
    have "0 < ?n * ?K" using n K by simp
    then have "\<bar>(?S - (\<Sum>x\<leftarrow>xs. x) * ?K) / (?n * ?K)\<bar> = \<bar>?S - (\<Sum>x\<leftarrow>xs. x) * ?K\<bar> / (?n * ?K)"
      by (simp only: abs_divide abs_of_pos)
    also have "\<dots> < ?n / (?n * ?K)"
      by (intro divide_strict_right_mono fixed_sum_near assms(1) \<open>0 < ?n * ?K\<close>)
    finally show ?thesis using n by simp
  qed
  ultimately show ?thesis by (simp only:)
qed

section \<open>Timers in a sequence\<close>

fun timer_of :: "'f tl_op \<Rightarrow> string option" where
  "timer_of (StartTimer name now) = Some name"
| "timer_of (EndTimer name now) = Some name"
| "timer_of _ = None"

lemma timer_untouched:
  "timer_of op \<noteq> Some name \<Longrightarrow> tl_active_timers (tl_exec F op t) name = tl_active_timers t name"
  by (cases op) (simp_all add: tl_op_defs split: option.splits)

lemma timers_untouched:
  "list_all (\<lambda>op. timer_of op \<noteq> Some name) ops \<Longrightarrow> tl_active_timers (tl_run F ops t) name = tl_active_timers t name"
  by (induction ops arbitrary: t) (simp_all add: tl_run_def timer_untouched)

definition demo_telemetry_ops :: "rat tl_op list" where
  "demo_telemetry_ops = [CountOrder, Slippage 5, ResetAll, CountOrder, CountFill 10 100, FixInLatency 250,
     Slippage (3 / 2), Slippage (- 1 / 3), FillProbability (1 / 3), FillProbability 1]"

definition demo_telemetry :: "rat Telemetry" where
  "demo_telemetry = tl_run exact_ops demo_telemetry_ops (Telemetry_init exact_ops)"

section \<open>Properties\<close>

text \<open>C36: the dashboard shows what was recorded since the last reset, and nothing else.  Orders, trades,
  cancels and rejects are, modulo \<^verbatim>\<open>2^64\<close>, the numbers of their events; the latency rows are the
  percentiles of the histograms of the end-to-end, matching and market data latencies recorded directly
  or by timers; the volume is the sum of the filled quantities; an average is shown when there is
  something to average.  Without rounding, and as long as fewer than \<^verbatim>\<open>2^64\<close> operations were made and
  the fixed-point sums fit into 64 bits, the averages shown are within one billionth of the true
  means.  The inbound histogram and the notional, which the dashboard does not show, are those of the
  recorded latencies and fills.\<close>

theorem dashboard_accurate:
  assumes "t = tl_run exact_ops ops (Telemetry_init exact_ops)" and "l = since_reset ops"
    and "length l < 2 ^ 64"
    and "i64_ok (\<Sum>x\<leftarrow>slippages l. fixed x)" and "i64_ok (\<Sum>x\<leftarrow>fill_probabilities l. fixed x)"
  shows "(\<exists>slip prob. print_dashboard exact_ops t =
      [(''Orders'', Count (of_nat (length (filter (\<lambda>op. op = CountOrder) l)))),
       (''Trades'', Count (of_nat (length (filter (\<lambda>op. op = CountTrade) l)))),
       (''Cancels'', Count (of_nat (length (filter (\<lambda>op. op = CountCancel) l)))),
       (''Rejects'', Count (of_nat (length (filter (\<lambda>op. op = CountReject) l))))] @
      percentiles ''End-to-end'' (hist_stats exact_ops (hist_of exact_ops 10000 100 (latencies E2eLat (lat_log ops)))) @
      percentiles ''Matching'' (hist_stats exact_ops (hist_of exact_ops 10000 100 (latencies MatchLat (lat_log ops)))) @
      percentiles ''Market Data'' (hist_stats exact_ops (hist_of exact_ops 10000 100 (latencies MdLat (lat_log ops)))) @
      [(''Volume'', Count (word_of_int (\<Sum>(q, p)\<leftarrow>recorded_fills l. q)))] @
      (if fill_probabilities l = [] then [] else [(''Avg Fill P'', Real prob)]) @
      (if slippages l = [] then [] else [(''Avg Slip'', Real slip)]) \<and>
      (slippages l \<noteq> [] \<longrightarrow>
        \<bar>slip - (\<Sum>x\<leftarrow>slippages l. x) / of_nat (length (slippages l))\<bar> < 1 / 10 ^ 9) \<and>
      (fill_probabilities l \<noteq> [] \<longrightarrow>
        \<bar>prob - (\<Sum>x\<leftarrow>fill_probabilities l. x) / of_nat (length (fill_probabilities l))\<bar> < 1 / 10 ^ 9)) \<and>
    tl_fix_in_latency t = hist_of exact_ops 10000 100 (fix_inbounds l) \<and>
    tl_total_fill_notional t = word_of_int (\<Sum>(q, p)\<leftarrow>recorded_fills l. q * p)"
proof -
  have holds: "tl_holds exact_ops t l" using tl_run_holds [of exact_ops ops] assms(1,2) by simp
  have lats: "lat_holds exact_ops t (foldl lat_step (Map.empty, []) ops)"
    using tl_run_lats [of exact_ops ops] assms(1) by simp
  have short: "length (slippages l) \<le> length l" "length (fill_probabilities l) \<le> length l"
    unfolding slippages_def fill_probabilities_def
    by (induction l) (auto split: tl_op.splits)
  have pos: "tl_slippage_count t > 0 \<longleftrightarrow> slippages l \<noteq> []"
    "tl_fill_prob_count t > 0 \<longleftrightarrow> fill_probabilities l \<noteq> []"
    using holds assms(3) short
    by (auto simp: tl_holds_def word_gt_0 unat_eq_0 [symmetric] unat_of_nat simp del: unat_eq_0)
  let ?slip = "average exact_ops (tl_slippage_sum t) (tl_slippage_count t)"
  let ?prob = "average exact_ops (tl_fill_prob_sum t) (tl_fill_prob_count t)"
  have "slippages l \<noteq> [] \<Longrightarrow> \<bar>?slip - (\<Sum>x\<leftarrow>slippages l. x) / of_nat (length (slippages l))\<bar> < 1 / 10 ^ 9"
    "fill_probabilities l \<noteq> [] \<Longrightarrow>
      \<bar>?prob - (\<Sum>x\<leftarrow>fill_probabilities l. x) / of_nat (length (fill_probabilities l))\<bar> < 1 / 10 ^ 9"
    using average_near [OF _ _ assms(4)] average_near [OF _ _ assms(5)] holds short assms(3)
    by (simp_all add: tl_holds_def kFixedPointScale_def)
  then show ?thesis
    using holds lats pos
    by (intro conjI exI [of _ ?slip] exI [of _ ?prob])
      (simp_all add: print_dashboard_def Let_def tl_holds_def lat_holds_def lat_log_def)
qed

theorem dashboard_accurate_witness:
  "\<exists>slip prob. set (print_dashboard exact_ops demo_telemetry) \<supseteq>
     {(''Orders'', Count 1), (''Trades'', Count 0), (''Volume'', Count 10), (''Avg Slip'', Real slip),
      (''Avg Fill P'', Real prob)} \<and> \<bar>slip - 7 / 12\<bar> < 1 / 10 ^ 9 \<and> \<bar>prob - 2 / 3\<bar> < 1 / 10 ^ 9"
proof -
  have l: "since_reset demo_telemetry_ops =
    [CountOrder, CountFill 10 100, FixInLatency 250, Slippage (3 / 2), Slippage (- 1 / 3), FillProbability (1 / 3),
     FillProbability 1]"
    by (simp add: since_reset_def demo_telemetry_ops_def)
  have sl: "slippages (since_reset demo_telemetry_ops) = [3 / 2, - 1 / 3]"
    and fp: "fill_probabilities (since_reset demo_telemetry_ops) = [1 / 3, 1]"
    and fi: "recorded_fills (since_reset demo_telemetry_ops) = [(10, 100)]"
    by (simp_all add: l slippages_def fill_probabilities_def recorded_fills_def)
  have ok: "i64_ok (\<Sum>x\<leftarrow>[3 / 2, - 1 / 3]. fixed x)" "i64_ok (\<Sum>x\<leftarrow>[1 / 3, 1]. fixed x)" by code_simp+
  have "length (since_reset demo_telemetry_ops) < 2 ^ 64" by (simp add: l)
  from dashboard_accurate [OF demo_telemetry_def refl, unfolded sl fp fi, OF this ok] show ?thesis
    apply (elim conjE exE)
    subgoal for slip prob by (intro exI [of _ slip] exI [of _ prob]) (simp add: l)
    done
qed

text \<open>A timer measures from its last start to its end and is recorded once.  Whatever else happens in
  between (other timers, recordings, even a reset), ending a timer adds the elapsed time to the one
  histogram its name selects (end-to-end before matching before market data), leaves the others
  alone and forgets the timer, so that ending it again changes nothing.\<close>

lemma timer_routed:
  assumes "list_all (\<lambda>op. timer_of op \<noteq> Some name) ops"
    and "t = tl_run F ops (start_timer name start t0)" and "t' = end_timer F name now t"
  shows "tl_e2e_latency t' = (if contains ''e2e'' name
      then hist_record F (sub64 now start) (tl_e2e_latency t) else tl_e2e_latency t) \<and>
    tl_matching_latency t' = (if \<not> contains ''e2e'' name \<and> contains ''match'' name
      then hist_record F (sub64 now start) (tl_matching_latency t) else tl_matching_latency t) \<and>
    tl_md_latency t' = (if \<not> contains ''e2e'' name \<and> \<not> contains ''match'' name \<and> contains ''md'' name
      then hist_record F (sub64 now start) (tl_md_latency t) else tl_md_latency t) \<and>
    tl_active_timers t' = (tl_active_timers t)(name := None) \<and> end_timer F name later t' = t'"
proof -
  have "tl_active_timers t name = Some start"
    using timers_untouched [OF assms(1)] assms(2) by (simp add: start_timer_def)
  then show ?thesis by (simp add: assms(3) tl_op_defs)
qed

lemma timer_routed_witness:
  "\<exists>t. tl_matching_latency (end_timer exact_ops ''match_order'' 350 t) =
      hist_record exact_ops 250 (tl_matching_latency t) \<and> t =
     tl_run exact_ops [StartTimer ''md'' 7, ResetAll, EndTimer ''md'' 9]
       (start_timer ''match_order'' 100 (Telemetry_init exact_ops))"
proof -
  let ?ops = "[StartTimer ''md'' 7, ResetAll, EndTimer ''md'' 9]"
  have "\<not> contains ''e2e'' ''match_order''" "contains ''match'' ''match_order''" by code_simp+
  then show ?thesis
    using timer_routed [of "''match_order''" ?ops, OF _ refl refl,
      where F = exact_ops and start = 100 and now = 350 and ?t0.0 = "Telemetry_init exact_ops"] by (simp add: wrap64_def)
qed

end
