(* ===== verification/Monitoring.thy ===== *)
theory Monitoring
  imports Clearing Telemetry
begin

text \<open>
  The matching engine with telemetry attached as \<^verbatim>\<open>market/README.md\<close> shows it: the trade callback
  records a trade and a fill, the execution callback records an order and, when the report is a
  rejection, a reject.  The theory says what the four counters of the engine count, and compares them
  with what the dashboard shows.
\<close>

section \<open>The counters of the engine\<close>

definition counters :: "MatchingEngine \<Rightarrow> 64 word \<times> 64 word \<times> 64 word" where
  "counters me = (total_orders_processed me, total_cancels me, total_rejects me)"

lemma counters_eq:
  "counters me = (me_orders_processed me, me_cancels_processed me, me_rejects me)"
  by (simp add: counters_def total_orders_processed_def total_cancels_def total_rejects_def)

lemma same_books_counters: "same_books me me' \<Longrightarrow> counters me' = counters me"
  by (simp add: same_books_def counters_eq)

lemma callbacks_counters: "book_callbacks calls me = (me', outs) \<Longrightarrow> counters me' = counters me"
  using book_callbacks_same same_books_counters by blast

lemma publish_counters: "publish_market_data s ts me = (me', outs) \<Longrightarrow> counters me' = counters me"
  using publish_same same_books_counters by blast

lemma set_symbol_counters [simp]: "counters (set_symbol s st me) = counters me"
  by (simp add: counters_eq)

lemma after_submit_counters [simp]: "counters (after_submit order rpt me) = counters me"
  by (simp add: counters_eq after_submit_def Let_def split: option.split)

lemma submit_counters:
  assumes "submit_to_book order ts ts' st me = (rpt, me', outs)"
  shows "counters me' = counters me"
proof -
  obtain r b' calls where add: "add_order (ss_book st) order ts = (r, b', calls)" by (metis prod_cases3)
  obtain me1 outs1 where cb: "book_callbacks calls (set_symbol (o_symbol order)
      (st\<lparr>ss_book := b'\<rparr>) me) = (me1, outs1)" by (metis surj_pair)
  obtain me2 outs2 where pub: "publish_market_data (o_symbol order) ts' (after_submit order r me1) = (me2, outs2)"
    by (metis surj_pair)
  have "me' = me2" using assms add cb pub by (simp add: submit_to_book_def after_submit_def Let_def)
  then show ?thesis using callbacks_counters [OF cb] publish_counters [OF pub] by simp
qed

text \<open>What a client is told of an operation that reaches a book, and of one that does not.\<close>

fun is_new :: "me_op \<Rightarrow> bool" where
  "is_new (NewOrder _ _ _) = True"
| "is_new _ = False"

fun is_cancel :: "me_op \<Rightarrow> bool" where
  "is_cancel (CancelOrder _ _ _) = True"
| "is_cancel _ = False"

lemma routed_counters:
  assumes exec: "me_exec op me = Some me'" and res: "book_result op me = Some (s, rpt, b', calls)"
  shows "counters me' = (total_orders_processed me + (if is_new op then 1 else 0),
    total_cancels me + (if is_cancel op \<and> r_status rpt = Canceled then 1 else 0), total_rejects me)"
proof (cases op)
  case (NewOrder order ts ts')
  obtain rpt' outs where p: "process_new_order order ts ts' me = (rpt', me', outs)"
    using exec NewOrder by (metis fst_conv me_exec.simps(2) option.inject prod.collapse)
  have ok: "find_symbol me (o_symbol order) \<noteq> None"
    "case me_risk_engine me of None \<Rightarrow> True | Some risk \<Rightarrow> verdict risk order = NoReason"
    using res NewOrder by (auto simp: get_book_def split: bind_splits if_splits)
  show ?thesis
  proof (cases rule: process_new_order_cases [OF p])
    case (2 st risk reject risk')
    then show ?thesis using ok check_order_verdict(1) [OF 2(3) refl] by simp
  next
    case (3 st risk)
    then show ?thesis using submit_counters [OF 3(3)] NewOrder
      by (simp add: counters_eq total_orders_processed_def total_cancels_def total_rejects_def)
  qed (use ok in simp)
next
  case (CancelOrder cancel ts ts')
  obtain rpt' outs where p: "process_cancel cancel ts ts' me = Some (rpt', me', outs)"
    using exec CancelOrder by auto
  show ?thesis
  proof (cases rule: process_cancel_cases [OF p])
    case 1
    then show ?thesis using res CancelOrder by (auto simp: get_book_def split: bind_splits)
  next
    case (2 s' st book calls' me1 outs1 outs2)
    have "rpt' = rpt" using res 2(1-3) CancelOrder by (simp add: get_book_def)
    then show ?thesis using callbacks_counters [OF 2(4)] publish_counters [OF 2(5)] CancelOrder
      by (auto simp: counters_eq total_orders_processed_def total_cancels_def total_rejects_def split: if_splits)
  qed
next
  case (ReplaceOrder req ts ts')
  obtain rpt' outs where p: "process_replace req ts ts' me = Some (rpt', me', outs)"
    using exec ReplaceOrder by auto
  show ?thesis
  proof (cases rule: process_replace_cases [OF p])
    case 1
    then show ?thesis using res ReplaceOrder by (auto simp: get_book_def split: bind_splits)
  next
    case (2 st book calls' me1 outs1 outs2)
    then show ?thesis using callbacks_counters [OF 2(3)] publish_counters [OF 2(4)] ReplaceOrder
      by (simp add: counters_eq total_orders_processed_def total_cancels_def total_rejects_def)
  qed
qed (use res in simp_all)

lemma unrouted_counters:
  assumes exec: "me_exec op me = Some me'" and res: "book_result op me = None"
  shows "counters me' = (total_orders_processed me + (if is_new op then 1 else 0),
    total_cancels me, total_rejects me + (if is_new op then 1 else 0))"
    and "\<exists>order reason ts. me_outputs op me =
      (if is_new op \<and> me_exec_cb me then [ExecOut (early_reject order reason ts)] else [])"
    and "me_exec_cb me \<Longrightarrow> me_exec_cb me'"
proof -
  have "(me_exec_cb me \<longrightarrow> me_exec_cb me') \<and> counters me' = (total_orders_processed me + (if is_new op then 1 else 0),
      total_cancels me, total_rejects me + (if is_new op then 1 else 0)) \<and>
    (\<exists>order reason ts. me_outputs op me =
      (if is_new op \<and> me_exec_cb me then [ExecOut (early_reject order reason ts)] else []))"
      proof (cases op)
    case (NewOrder order ts ts')
    obtain rpt outs where p: "process_new_order order ts ts' me = (rpt, me', outs)"
      using exec NewOrder by (metis fst_conv me_exec.simps(2) option.inject prod.collapse)
    show ?thesis
    proof (cases rule: process_new_order_cases [OF p])
      case 1
      then show ?thesis using p NewOrder
        by (auto simp: process_new_order_def exec_out_def counters_def total_orders_processed_def
            total_cancels_def total_rejects_def Let_def) blast
    next
      case (2 st risk reject risk')
      then show ?thesis using p NewOrder
        by (auto simp: process_new_order_def exec_out_def counters_def total_orders_processed_def
            total_cancels_def total_rejects_def Let_def) blast
    next
      case (3 st risk)
      have "case me_risk_engine me of None \<Rightarrow> True | Some risk \<Rightarrow> verdict risk order = NoReason"
        using 3(2) check_order_verdict(1) by (fastforce split: option.splits)
      then show ?thesis using res NewOrder 3(1) by (simp add: get_book_def)
    qed
  next
    case (CancelOrder cancel ts ts')
    obtain rpt outs where p: "process_cancel cancel ts ts' me = Some (rpt, me', outs)"
      using exec CancelOrder by auto
    show ?thesis
    proof (cases rule: process_cancel_cases [OF p])
      case 1
      then have "outs = []" using p by (auto simp: process_cancel_def cancel_target_def Let_def split: if_splits)
      then show ?thesis using 1 p CancelOrder by (simp add: counters_def)
    next
      case (2 s st book calls me1 outs1 outs2)
      then show ?thesis using res CancelOrder by (simp add: get_book_def)
    qed
  next
    case (ReplaceOrder req ts ts')
    obtain rpt outs where p: "process_replace req ts ts' me = Some (rpt, me', outs)"
      using exec ReplaceOrder by auto
    show ?thesis
    proof (cases rule: process_replace_cases [OF p])
      case 1
      then have "outs = []" using p by (auto simp: process_replace_def)
      then show ?thesis using 1 p ReplaceOrder by (simp add: counters_def)
    next
      case (2 st book calls me1 outs1 outs2)
      then show ?thesis using res ReplaceOrder by (simp add: get_book_def)
    qed
  qed (use exec in \<open>auto simp: counters_def total_orders_processed_def total_cancels_def
      total_rejects_def add_symbol_def Let_def\<close>)
  then show "counters me' = (total_orders_processed me + (if is_new op then 1 else 0),
      total_cancels me, total_rejects me + (if is_new op then 1 else 0))"
    "\<exists>order reason ts. me_outputs op me =
      (if is_new op \<and> me_exec_cb me then [ExecOut (early_reject order reason ts)] else [])"
    "me_exec_cb me \<Longrightarrow> me_exec_cb me'" by blast+
qed


section \<open>The telemetry callbacks\<close>

fun observe :: "'f Telemetry \<Rightarrow> engine_event \<Rightarrow> 'f Telemetry" where
  "observe tel (TradeOut t) = record_fill (t_qty t) (t_price t) (tl_record_trade tel)"
| "observe tel (ExecOut rpt) =
     (let tel = record_order tel in if r_status rpt = Rejected then record_reject tel else tel)"
| "observe tel _ = tel"

definition rejected :: "ExecutionReport list \<Rightarrow> nat" where
  "rejected rpts = length (filter (\<lambda>r. r_status r = Rejected) rpts)"

definition figures :: "'f Telemetry \<Rightarrow> 64 word \<times> 64 word \<times> 64 word \<times> 64 word \<times> 64 word" where
  "figures tel = (tl_orders tel, tl_trades tel, tl_cancels tel, tl_rejects tel, tl_total_fill_qty tel)"

lemma observed:
  "figures (foldl observe tel outs) = (tl_orders tel + of_nat (length (exec_outs outs)),
     tl_trades tel + of_nat (length (trade_outs outs)), tl_cancels tel,
     tl_rejects tel + of_nat (rejected (exec_outs outs)),
     tl_total_fill_qty tel + word_of_int (\<Sum>x\<leftarrow>trade_outs outs. t_qty x))"
proof (induction outs arbitrary: tel)
  case (Cons ev outs)
  then show ?case
    by (cases ev) (auto simp: figures_def rejected_def record_fill_def tl_record_trade_def record_order_def
      record_reject_def Let_def)
qed (simp add: figures_def rejected_def)

section \<open>The system\<close>

text \<open>The ghost list holds the requests that reached a book, with the reports they got.\<close>

record 'f monitor =
  mo_engine :: MatchingEngine
  mo_telemetry :: "'f Telemetry"
  mo_served :: "(me_op \<times> ExecutionReport) list"

definition served :: "me_op \<Rightarrow> MatchingEngine \<Rightarrow> (me_op \<times> ExecutionReport) list" where
  "served op me = (case book_result op me of None \<Rightarrow> [] | Some (s, rpt, b', calls) \<Rightarrow> [(op, rpt)])"

definition monitor_exec :: "me_op \<Rightarrow> 'f monitor \<Rightarrow> 'f monitor option" where
  "monitor_exec op m = map_option (\<lambda>me. m\<lparr>mo_engine := me,
       mo_telemetry := foldl observe (mo_telemetry m) (me_outputs op (mo_engine m)),
       mo_served := mo_served m @ served op (mo_engine m)\<rparr>) (me_exec op (mo_engine m))"

definition monitor_start :: "'f float_ops \<Rightarrow> 'f monitor" where
  "monitor_start F = \<lparr>mo_engine = MatchingEngine_init\<lparr>me_exec_cb := True, me_trade_cb := True\<rparr>,
     mo_telemetry = Telemetry_init F, mo_served = []\<rparr>"

definition monitor_step :: "'f monitor \<Rightarrow> 'f monitor \<Rightarrow> bool" where
  "monitor_step m m' \<longleftrightarrow> (\<exists>op. op_typed op \<and> monitor_exec op m = Some m')"

text \<open>Requests that are no new orders, refusals by a book, and successful cancels.\<close>

definition amendments :: "(me_op \<times> ExecutionReport) list \<Rightarrow> nat" where
  "amendments l = length (filter (\<lambda>(op, r). \<not> is_new op) l)"

definition book_refusals :: "(me_op \<times> ExecutionReport) list \<Rightarrow> nat" where
  "book_refusals l = length (filter (\<lambda>(op, r). r_status r = Rejected) l)"

definition cancellations :: "(me_op \<times> ExecutionReport) list \<Rightarrow> nat" where
  "cancellations l = length (filter (\<lambda>(op, r). is_cancel op \<and> r_status r = Canceled) l)"

definition monitor_inv :: "'f monitor \<Rightarrow> bool" where
  "monitor_inv m \<longleftrightarrow> me_inv (mo_engine m) \<and> me_trade_cb (mo_engine m) \<and> me_exec_cb (mo_engine m) \<and>
     figures (mo_telemetry m) =
       (total_orders_processed (mo_engine m) + of_nat (amendments (mo_served m)),
        engine_total_trades (mo_engine m), 0,
        total_rejects (mo_engine m) + of_nat (book_refusals (mo_served m)),
        word_of_int (book_volume (mo_engine m))) \<and>
     total_cancels (mo_engine m) = of_nat (cancellations (mo_served m))"

lemma served_counts:
  "amendments (l @ l') = amendments l + amendments l'"
  "book_refusals (l @ l') = book_refusals l + book_refusals l'"
  "cancellations (l @ l') = cancellations l + cancellations l'"
  by (simp_all add: amendments_def book_refusals_def cancellations_def)

lemma exec_outs_forward: "exec_outs (forward me calls) = []"
  by (induction calls) (auto simp: forward_def exec_outs_def split: book_event.split)

lemma word_of_wrap: "wrap64 x = wrap64 y \<Longrightarrow> (word_of_int x :: 64 word) = word_of_int y"
  by (metis word_of_wrap64)

text \<open>The reports of one operation, and what the counters make of it.\<close>

lemma operation_reports:
  assumes exec: "me_exec op me = Some me'" and cb: "me_exec_cb me"
  shows "me_exec_cb me'"
    and "total_orders_processed me' + of_nat (amendments (served op me)) =
      total_orders_processed me + of_nat (length (exec_outs (me_outputs op me)))"
    and "total_rejects me' + of_nat (book_refusals (served op me)) =
      total_rejects me + of_nat (rejected (exec_outs (me_outputs op me)))"
    and "total_cancels me' = total_cancels me + of_nat (cancellations (served op me))"
proof -
  have "me_exec_cb me' \<and> total_orders_processed me' + of_nat (amendments (served op me)) =
      total_orders_processed me + of_nat (length (exec_outs (me_outputs op me))) \<and>
    total_rejects me' + of_nat (book_refusals (served op me)) =
      total_rejects me + of_nat (rejected (exec_outs (me_outputs op me))) \<and>
    total_cancels me' = total_cancels me + of_nat (cancellations (served op me))"
  proof (cases "book_result op me")
    case None
    note u = unrouted_counters [OF exec None]
    obtain order reason ts where outs: "me_outputs op me =
      (if is_new op then [ExecOut (early_reject order reason ts)] else [])" using u(2) cb by auto
    have "r_status (early_reject order reason ts) = Rejected" by (simp add: early_reject_def)
    then show ?thesis using u(1,3) cb outs None
      by (simp add: counters_def served_def amendments_def book_refusals_def cancellations_def rejected_def)
  next
    case (Some x)
    obtain s rpt b' calls where x: "book_result op me = Some (s, rpt, b', calls)" using Some by (cases x) auto
    note r = routed_outputs(1,2) [OF exec x]
    have "exec_outs (me_outputs op me) = [rpt]" using r(1) cb
      by (simp add: exec_outs_forward exec_out_def depth_out_def)
    then show ?thesis using routed_counters [OF exec x] r(2) cb x
      by (auto simp: counters_def served_def amendments_def book_refusals_def cancellations_def rejected_def
          same_callbacks_def)
  qed
  then show "me_exec_cb me'"
    "total_orders_processed me' + of_nat (amendments (served op me)) =
      total_orders_processed me + of_nat (length (exec_outs (me_outputs op me)))"
    "total_rejects me' + of_nat (book_refusals (served op me)) =
      total_rejects me + of_nat (rejected (exec_outs (me_outputs op me)))"
    "total_cancels me' = total_cancels me + of_nat (cancellations (served op me))" by blast+
qed

lemma monitor_step_inv:
  assumes inv: "monitor_inv m" and typed: "op_typed op" and exec: "monitor_exec op m = Some m'"
  shows "monitor_inv m'"
proof -
  let ?me = "mo_engine m" and ?tel = "mo_telemetry m"
  obtain me where me: "me_exec op ?me = Some me" and m': "mo_engine m' = me"
    "mo_telemetry m' = foldl observe ?tel (me_outputs op ?me)" "mo_served m' = mo_served m @ served op ?me"
    using exec by (auto simp: monitor_exec_def)
  have i: "me_inv ?me" "me_trade_cb ?me" "me_exec_cb ?me"
    and shown: "tl_orders ?tel = total_orders_processed ?me + of_nat (amendments (mo_served m))"
      "tl_trades ?tel = engine_total_trades ?me" "tl_cancels ?tel = 0"
      "tl_rejects ?tel = total_rejects ?me + of_nat (book_refusals (mo_served m))"
      "tl_total_fill_qty ?tel = word_of_int (book_volume ?me)"
    and cancels: "total_cancels ?me = of_nat (cancellations (mo_served m))"
    using inv by (simp_all add: monitor_inv_def figures_def)
  note t = operation_trades [OF i(1) typed i(2) me]
  note r = operation_reports [OF me i(3)]
  have vol: "word_of_int (book_volume me) = (word_of_int (book_volume ?me) :: 64 word) +
      word_of_int (\<Sum>x\<leftarrow>trade_outs (me_outputs op ?me). t_qty x)"
    using word_of_wrap [OF t(3)] by simp
  have orders: "total_orders_processed me + of_nat (amendments (mo_served m')) =
      tl_orders ?tel + of_nat (length (exec_outs (me_outputs op ?me)))"
    using r(2) by (simp add: shown m'(3) served_counts algebra_simps)
  have rejects: "total_rejects me + of_nat (book_refusals (mo_served m')) =
      tl_rejects ?tel + of_nat (rejected (exec_outs (me_outputs op ?me)))"
    using r(3) by (simp add: shown m'(3) served_counts algebra_simps)
  have trades: "engine_total_trades me = tl_trades ?tel + of_nat (length (trade_outs (me_outputs op ?me)))"
    using t(2) by (simp add: shown engine_total_trades_def)
  have "total_cancels me = of_nat (cancellations (mo_served m'))"
    using r(4) by (simp add: cancels m'(3) served_counts)
  then show ?thesis
    using me_step_inv [OF i(1) typed me] t(1) r(1)
    by (simp add: monitor_inv_def m'(1,2) observed orders rejects trades vol shown(3,5))
qed

interpretation monitor: invariant_system "\<lambda>m. m = monitor_start F" monitor_step monitor_inv
  for F :: "'f float_ops"
proof
  show "monitor_inv m" if "m = monitor_start F" for m
    by (simp add: that monitor_start_def monitor_inv_def me_inv_def books_ok_def books_view_def trade_total_def
        MatchingEngine_init_def Telemetry_init_def figures_def amendments_def book_refusals_def cancellations_def
        total_orders_processed_def engine_total_trades_def total_rejects_def total_cancels_def
        book_volume_def has_symbol_def)
  show "monitor_inv m'" if "monitor_inv m" "monitor_step m m'" for m m' :: "'f monitor"
    using that monitor_step_inv unfolding monitor_step_def by blast
qed

abbreviation monitor_reachable :: "'f float_ops \<Rightarrow> 'f monitor \<Rightarrow> bool" where
  "monitor_reachable F \<equiv> reachable (\<lambda>m. m = monitor_start F) monitor_step"


section \<open>A small run\<close>

fun serve_run :: "me_op list \<Rightarrow> MatchingEngine \<times> (me_op \<times> ExecutionReport) list
    \<Rightarrow> (MatchingEngine \<times> (me_op \<times> ExecutionReport) list) option" where
  "serve_run [] s = Some s"
| "serve_run (op # ops) (me, l) = (if op_typed op
     then Option.bind (me_exec op me) (\<lambda>me'. serve_run ops (me', l @ served op me)) else None)"

lemma serve_run_reachable:
  "serve_run ops (mo_engine m, mo_served m) = Some (e, l) \<Longrightarrow> monitor_reachable F m \<Longrightarrow>
    \<exists>m'. monitor_reachable F m' \<and> mo_engine m' = e \<and> mo_served m' = l"
proof (induction ops arbitrary: m)
  case (Cons op ops)
  then obtain me where op: "op_typed op" "me_exec op (mo_engine m) = Some me"
    and rest: "serve_run ops (me, mo_served m @ served op (mo_engine m)) = Some (e, l)"
    by (auto split: if_splits bind_splits)
  obtain m1 where m1: "monitor_exec op m = Some m1" "mo_engine m1 = me"
    "mo_served m1 = mo_served m @ served op (mo_engine m)" using op(2) by (simp add: monitor_exec_def)
  then have "monitor_step m m1" using op(1) by (auto simp: monitor_step_def)
  then have "monitor_reachable F m1" by (rule reachable_step [OF Cons.prems(2)])
  then show ?case using Cons.IH [of m1] rest m1(2,3) by simp
qed auto

text \<open>An offer of 5, a purchase of 3 of them, an order that repeats the identifier of the offer, the cancel of
  the offer, and an order for a symbol that is not listed.\<close>

definition monitor_ops :: "me_op list" where
  "monitor_ops = [AddSymbol sym_A, NewOrder (eng_order 1 10 sym_A Sell 100 5) 1 1,
     NewOrder (eng_order 2 11 sym_A Buy 100 3) 2 2, NewOrder (eng_order 1 12 sym_A Buy 90 4) 3 3,
     CancelOrder \<lparr>c_order_id = 1, c_trader_id = 10, c_symbol = sym_A, c_submit_time = 4,
       c_cl_ord_id = empty_cl_ord_id\<rparr> 4 4, NewOrder (eng_order 5 10 Symbol_default Sell 100 5) 5 5]"

definition monitor_demo :: "MatchingEngine \<times> (me_op \<times> ExecutionReport) list" where
  "monitor_demo = the (serve_run monitor_ops (MatchingEngine_init\<lparr>me_exec_cb := True, me_trade_cb := True\<rparr>, []))"

definition monitor_view :: "MatchingEngine \<times> (me_op \<times> ExecutionReport) list \<Rightarrow> 64 word list \<times> nat list" where
  "monitor_view s = ([total_orders_processed (fst s), engine_total_trades (fst s), total_rejects (fst s),
     total_cancels (fst s)], [amendments (snd s), book_refusals (snd s), cancellations (snd s)])"

lemma monitor_demo_view: "monitor_view monitor_demo = ([4, 1, 1, 1], [1, 1, 1])"
  by code_simp

lemma monitor_demo_reachable:
  "\<exists>m. monitor_reachable F m \<and> mo_engine m = fst monitor_demo \<and> mo_served m = snd monitor_demo"
proof -
  let ?s = "(MatchingEngine_init\<lparr>me_exec_cb := True, me_trade_cb := True\<rparr>, [])"
  have "serve_run monitor_ops ?s \<noteq> None" by code_simp
  then have "serve_run monitor_ops (mo_engine (monitor_start F), mo_served (monitor_start F)) =
      Some (fst monitor_demo, snd monitor_demo)"
    by (simp add: monitor_start_def monitor_demo_def)
  then show ?thesis by (rule serve_run_reachable) (auto intro: reachable_init)
qed

section \<open>Property\<close>

text \<open>C21: the dashboard against the engine.  With the callbacks of the documentation in place, after any
  sequence of operations the trades on the dashboard are the trades the engine counts and the volume
  is that of all books; the orders are the orders the engine counts plus every cancel and replace
  that reached a book, the rejects are those the engine counts plus those a book returned, and the
  cancels stay 0, while the engine counts every successful cancel.\<close>

theorem dashboard_reconciles:
  assumes "monitor_reachable F m"
  shows "take 4 (print_dashboard F (mo_telemetry m)) =
      [(''Orders'', Count (total_orders_processed (mo_engine m) + of_nat (amendments (mo_served m)))),
       (''Trades'', Count (engine_total_trades (mo_engine m))), (''Cancels'', Count 0),
       (''Rejects'', Count (total_rejects (mo_engine m) + of_nat (book_refusals (mo_served m))))] \<and>
    tl_total_fill_qty (mo_telemetry m) = word_of_int (book_volume (mo_engine m)) \<and>
    total_cancels (mo_engine m) = of_nat (cancellations (mo_served m))"
  using monitor.reachable_inv [OF assms]
  by (simp add: monitor_inv_def figures_def print_dashboard_def Let_def)

theorem dashboard_reconciles_witness:
  "\<exists>m. monitor_reachable exact_ops m \<and> take 4 (print_dashboard exact_ops (mo_telemetry m)) =
      [(''Orders'', Count 5), (''Trades'', Count 1), (''Cancels'', Count 0), (''Rejects'', Count 2)] \<and>
    total_orders_processed (mo_engine m) = 4 \<and> total_cancels (mo_engine m) = 1 \<and> total_rejects (mo_engine m) = 1"
proof -
  obtain m where m: "monitor_reachable exact_ops m" "mo_engine m = fst monitor_demo" "mo_served m = snd monitor_demo"
    using monitor_demo_reachable by blast
  then have "total_orders_processed (mo_engine m) = 4" "engine_total_trades (mo_engine m) = 1"
    "total_rejects (mo_engine m) = 1" "total_cancels (mo_engine m) = 1" "amendments (mo_served m) = 1"
    "book_refusals (mo_served m) = 1"
    using monitor_demo_view by (simp_all add: monitor_view_def)
  then show ?thesis using m(1) dashboard_reconciles [OF m(1)] by (intro exI [of _ m]) simp
qed

end
