(* ===== verification/MarketData.thy ===== *)
theory MarketData
  imports Types RingBuffer
begin

text \<open>
  \<^verbatim>\<open>src/market/market_data_engine.hpp\<close> and \<^verbatim>\<open>.cpp\<close>: throttled publication of market data through the
  ring buffer.

  The anonymous union of a message is a datatype with the member that was assigned last; reading
  another member is undefined (\<^const>\<open>None\<close>).  A handler is a number, and \<open>process_pending\<close> returns the
  calls it makes.  Handlers that call back into the engine are outside the model.  The result of
  \<^verbatim>\<open>clock_.now()\<close> is an argument.
\<close>

section \<open>State\<close>

datatype MDUpdateType = SnapshotFull | IncrementalRefresh | TradeReport

datatype md_payload = MDTob TopOfBook | MDDepth DepthSnapshot | MDTrade Trade

record MarketDataMessage =
  msg_type :: MDUpdateType
  msg_symbol :: Symbol
  msg_timestamp :: Timestamp
  msg_payload :: md_payload

definition MarketDataMessage_default :: MarketDataMessage where
  "MarketDataMessage_default = \<lparr>msg_type = SnapshotFull, msg_symbol = Symbol_default,
     msg_timestamp = 0, msg_payload = MDTob TopOfBook_default\<rparr>"

record MarketDataEngine =
  md_throttle_ns :: "64 word"
  md_l2_depth :: "64 word"
  md_last_publish_time :: "Symbol \<rightharpoonup> Timestamp"
  md_queue :: "MarketDataMessage HPRingBuffer"
  md_l1_handlers :: "nat list"
  md_l2_handlers :: "nat list"
  md_trade_handlers :: "nat list"
  md_messages_published :: "64 word"
  md_messages_throttled :: "64 word"

datatype md_call = L1Call nat TopOfBook | L2Call nat DepthSnapshot | TradeCall nat Trade

definition MarketDataEngine_init :: MarketDataEngine where
  "MarketDataEngine_init = \<lparr>md_throttle_ns = 0, md_l2_depth = 10, md_last_publish_time = Map.empty,
     md_queue = HPRingBuffer_init 16384 MarketDataMessage_default,
     md_l1_handlers = [], md_l2_handlers = [], md_trade_handlers = [],
     md_messages_published = 0, md_messages_throttled = 0\<rparr>"

definition messages_published :: "MarketDataEngine \<Rightarrow> 64 word" where
  "messages_published e = md_messages_published e"

definition messages_throttled :: "MarketDataEngine \<Rightarrow> 64 word" where
  "messages_throttled e = md_messages_throttled e"

definition set_throttle_interval_ns :: "64 word \<Rightarrow> MarketDataEngine \<Rightarrow> MarketDataEngine" where
  "set_throttle_interval_ns ns e = e\<lparr>md_throttle_ns := ns\<rparr>"

definition set_l2_depth :: "64 word \<Rightarrow> MarketDataEngine \<Rightarrow> MarketDataEngine" where
  "set_l2_depth depth e = e\<lparr>md_l2_depth := depth\<rparr>"

definition subscribe_l1 :: "nat \<Rightarrow> MarketDataEngine \<Rightarrow> MarketDataEngine" where
  "subscribe_l1 h e = e\<lparr>md_l1_handlers := md_l1_handlers e @ [h]\<rparr>"

definition subscribe_l2 :: "nat \<Rightarrow> MarketDataEngine \<Rightarrow> MarketDataEngine" where
  "subscribe_l2 h e = e\<lparr>md_l2_handlers := md_l2_handlers e @ [h]\<rparr>"

definition subscribe_trades :: "nat \<Rightarrow> MarketDataEngine \<Rightarrow> MarketDataEngine" where
  "subscribe_trades h e = e\<lparr>md_trade_handlers := md_trade_handlers e @ [h]\<rparr>"

section \<open>Feeding\<close>

definition should_throttle :: "Symbol \<Rightarrow> Timestamp \<Rightarrow> MarketDataEngine \<Rightarrow> bool \<times> MarketDataEngine" where
  "should_throttle symbol now e =
     (if md_throttle_ns e = 0 then (False, e)
      else (case md_last_publish_time e symbol of
              None \<Rightarrow> (False, e\<lparr>md_last_publish_time := (md_last_publish_time e)(symbol \<mapsto> now)\<rparr>)
            | Some t \<Rightarrow>
                if now - t < md_throttle_ns e then (True, e)
                else (False, e\<lparr>md_last_publish_time := (md_last_publish_time e)(symbol \<mapsto> now)\<rparr>)))"

text \<open>\<^verbatim>\<open>(void)md_queue_->try_push(msg)\<close>: a full queue drops the message silently.\<close>

definition enqueue :: "MarketDataMessage \<Rightarrow> MarketDataEngine \<Rightarrow> MarketDataEngine" where
  "enqueue msg e = e\<lparr>md_queue := snd (try_push msg (md_queue e))\<rparr>"

definition on_tob_update :: "TopOfBook \<Rightarrow> Timestamp \<Rightarrow> MarketDataEngine \<Rightarrow> MarketDataEngine" where
  "on_tob_update tob now e =
     (let (throttled, e) = should_throttle (tob_symbol tob) now e
      in if throttled then e\<lparr>md_messages_throttled := md_messages_throttled e + 1\<rparr>
         else enqueue (MarketDataMessage_default\<lparr>msg_type := IncrementalRefresh,
                msg_symbol := tob_symbol tob, msg_timestamp := now, msg_payload := MDTob tob\<rparr>) e)"

definition on_depth_update :: "DepthSnapshot \<Rightarrow> Timestamp \<Rightarrow> MarketDataEngine \<Rightarrow> MarketDataEngine" where
  "on_depth_update depth now e =
     (let (throttled, e) = should_throttle (ds_symbol depth) now e
      in if throttled then e\<lparr>md_messages_throttled := md_messages_throttled e + 1\<rparr>
         else enqueue (MarketDataMessage_default\<lparr>msg_type := SnapshotFull,
                msg_symbol := ds_symbol depth, msg_timestamp := now, msg_payload := MDDepth depth\<rparr>) e)"

definition on_trade_report :: "Trade \<Rightarrow> Timestamp \<Rightarrow> MarketDataEngine \<Rightarrow> MarketDataEngine" where
  "on_trade_report trade now e =
     enqueue (MarketDataMessage_default\<lparr>msg_type := TradeReport, msg_symbol := t_symbol trade,
       msg_timestamp := now, msg_payload := MDTrade trade\<rparr>) e"

section \<open>Publishing\<close>

text \<open>The \<^verbatim>\<open>switch\<close> over the tag; the tag selects the union member that is read.\<close>

definition dispatch :: "MarketDataMessage \<Rightarrow> MarketDataEngine \<Rightarrow> md_call list option" where
  "dispatch msg e =
     (case msg_type msg of
        IncrementalRefresh \<Rightarrow>
          (case msg_payload msg of MDTob tob \<Rightarrow> Some (map (\<lambda>h. L1Call h tob) (md_l1_handlers e)) | _ \<Rightarrow> None)
      | SnapshotFull \<Rightarrow>
          (case msg_payload msg of MDDepth d \<Rightarrow> Some (map (\<lambda>h. L2Call h d) (md_l2_handlers e)) | _ \<Rightarrow> None)
      | TradeReport \<Rightarrow>
          (case msg_payload msg of MDTrade t \<Rightarrow> Some (map (\<lambda>h. TradeCall h t) (md_trade_handlers e)) | _ \<Rightarrow> None))"

partial_function (option) process_pending :: "MarketDataEngine \<Rightarrow> (MarketDataEngine \<times> md_call list) option" where
  "process_pending e =
     (case try_pop (md_queue e) of
        (None, q) \<Rightarrow> Some (e\<lparr>md_queue := q\<rparr>, [])
      | (Some msg, q) \<Rightarrow>
          (let e = e\<lparr>md_queue := q, md_messages_published := md_messages_published e + 1\<rparr>
           in case dispatch msg e of
                None \<Rightarrow> None
              | Some calls \<Rightarrow>
                  Option.bind (process_pending e) (\<lambda>r. Some (fst r, calls @ snd r))))"

section \<open>The invariant\<close>

definition msg_ok :: "MarketDataMessage \<Rightarrow> bool" where
  "msg_ok msg \<longleftrightarrow>
     (case msg_payload msg of
        MDTob tob \<Rightarrow> msg_type msg = IncrementalRefresh \<and> msg_symbol msg = tob_symbol tob
      | MDDepth d \<Rightarrow> msg_type msg = SnapshotFull \<and> msg_symbol msg = ds_symbol d
      | MDTrade t \<Rightarrow> msg_type msg = TradeReport \<and> msg_symbol msg = t_symbol t)"

definition md_pending :: "MarketDataEngine \<Rightarrow> MarketDataMessage list" where
  "md_pending e = rb_contents (md_queue e)"

definition md_inv :: "MarketDataEngine \<Rightarrow> bool" where
  "md_inv e \<longleftrightarrow> rb_ok (md_queue e) \<and> rb_capacity (md_queue e) = 16383 \<and> (\<forall>msg \<in> set (md_pending e). msg_ok msg)"

lemma md_inv_update [simp]:
  "md_inv (e\<lparr>md_throttle_ns := ns\<rparr>) = md_inv e" "md_inv (e\<lparr>md_l2_depth := d\<rparr>) = md_inv e"
  "md_inv (e\<lparr>md_last_publish_time := m\<rparr>) = md_inv e" "md_inv (e\<lparr>md_l1_handlers := hs\<rparr>) = md_inv e"
  "md_inv (e\<lparr>md_l2_handlers := hs\<rparr>) = md_inv e" "md_inv (e\<lparr>md_trade_handlers := hs\<rparr>) = md_inv e"
  "md_inv (e\<lparr>md_messages_published := n\<rparr>) = md_inv e" "md_inv (e\<lparr>md_messages_throttled := n\<rparr>) = md_inv e"
  by (simp_all add: md_inv_def md_pending_def)

lemma size_16384: "size_ok 16384"
  unfolding size_ok_def by (intro exI [of _ 14]) simp

lemma md_init_inv: "md_inv MarketDataEngine_init" "md_pending MarketDataEngine_init = []"
proof -
  have "rb_ok (HPRingBuffer_init 16384 MarketDataMessage_default) \<and>
    rb_contents (HPRingBuffer_init 16384 MarketDataMessage_default) = []"
    by (rule init_ok) (rule size_16384)
  then show "md_inv MarketDataEngine_init" "md_pending MarketDataEngine_init = []"
    unfolding md_inv_def md_pending_def MarketDataEngine_init_def rb_capacity_def
    by (simp_all add: HPRingBuffer_init_def)
qed

lemma enqueue_effect:
  assumes "md_inv e" and "msg_ok msg"
  shows "md_inv (enqueue msg e)"
    and "md_pending (enqueue msg e) = (if length (md_pending e) < 16383 then md_pending e @ [msg] else md_pending e)"
proof -
  obtain ok q where push: "try_push msg (md_queue e) = (ok, q)" by (metis surj_pair)
  have inv: "rb_ok (md_queue e)" using assms(1) by (simp add: md_inv_def)
  note law = ring.push_law [OF inv push]
  show "md_pending (enqueue msg e) = (if length (md_pending e) < 16383 then md_pending e @ [msg] else md_pending e)"
    using law push assms(1) by (simp add: enqueue_def md_pending_def md_inv_def)
  then show "md_inv (enqueue msg e)"
    using law push assms by (auto simp: enqueue_def md_inv_def md_pending_def)
qed

lemma should_throttle_frame:
  assumes "should_throttle s now e = (throttled, e')"
  shows "md_inv e' = md_inv e" "md_pending e' = md_pending e" "md_throttle_ns e' = md_throttle_ns e"
    "md_messages_throttled e' = md_messages_throttled e"
    "md_messages_published e' = md_messages_published e" "md_l1_handlers e' = md_l1_handlers e"
    "md_l2_handlers e' = md_l2_handlers e" "md_trade_handlers e' = md_trade_handlers e"
  using assms by (auto simp: should_throttle_def md_pending_def split: if_splits option.splits)

text \<open>What a message does when it is published.\<close>

fun deliver :: "MarketDataEngine \<Rightarrow> md_payload \<Rightarrow> md_call list" where
  "deliver e (MDTob tob) = map (\<lambda>h. L1Call h tob) (md_l1_handlers e)"
| "deliver e (MDDepth d) = map (\<lambda>h. L2Call h d) (md_l2_handlers e)"
| "deliver e (MDTrade t) = map (\<lambda>h. TradeCall h t) (md_trade_handlers e)"

lemma dispatch_ok: "msg_ok msg \<Longrightarrow> dispatch msg e = Some (deliver e (msg_payload msg))"
  by (auto simp: msg_ok_def dispatch_def split: md_payload.splits)

lemma deliver_update [simp]:
  "deliver (e\<lparr>md_queue := q\<rparr>) p = deliver e p" "deliver (e\<lparr>md_messages_published := n\<rparr>) p = deliver e p"
  by (cases p; simp)+

lemma process_pending_spec:
  assumes "rb_ok (md_queue e)" and "\<forall>msg \<in> set (md_pending e). msg_ok msg"
  shows "\<exists>q. process_pending e = Some (e\<lparr>md_queue := q, md_messages_published :=
      md_messages_published e + of_nat (length (md_pending e))\<rparr>,
      concat (map (\<lambda>msg. deliver e (msg_payload msg)) (md_pending e))) \<and>
    rb_ok q \<and> rb_contents q = [] \<and> rb_capacity q = rb_capacity (md_queue e)"
  using assms
proof (induction "md_pending e" arbitrary: e)
  case Nil
  obtain v q where pop: "try_pop (md_queue e) = (v, q)" by (metis surj_pair)
  note law = ring.pop_law [OF Nil(2) pop]
  have "v = None" "rb_contents q = []" using law Nil(1) by (simp_all add: md_pending_def)
  moreover have "e\<lparr>md_queue := q\<rparr> = e\<lparr>md_queue := q, md_messages_published := md_messages_published e\<rparr>" by simp
  ultimately show ?case using law Nil(1) pop
    by (intro exI [of _ q]) (simp add: process_pending.simps [of e])
next
  case (Cons msg msgs)
  obtain v q where pop: "try_pop (md_queue e) = (v, q)" by (metis surj_pair)
  note law = ring.pop_law [OF Cons(3) pop]
  let ?e = "e\<lparr>md_queue := q, md_messages_published := md_messages_published e + 1\<rparr>"
  have contents: "rb_contents (md_queue e) = msg # msgs" using Cons(2) by (simp add: md_pending_def)
  then have v: "v = Some msg" and msgs: "md_pending ?e = msgs"
    using law by (simp_all add: md_pending_def)
  have ok: "msg_ok msg" "\<forall>m \<in> set msgs. msg_ok m" using Cons(4) Cons(2) [symmetric] by auto
  obtain q' where ih: "process_pending ?e = Some (?e\<lparr>md_queue := q', md_messages_published :=
      md_messages_published ?e + of_nat (length msgs)\<rparr>, concat (map (\<lambda>msg. deliver ?e (msg_payload msg)) msgs))"
    and q': "rb_ok q'" "rb_contents q' = []" "rb_capacity q' = rb_capacity q"
    using Cons(1) [of ?e] msgs law ok(2) by auto
  have "process_pending e = Some (e\<lparr>md_queue := q', md_messages_published :=
      md_messages_published e + of_nat (length (md_pending e))\<rparr>,
      concat (map (\<lambda>msg. deliver e (msg_payload msg)) (md_pending e)))"
    using process_pending.simps [of e] pop v ih dispatch_ok [OF ok(1), of ?e] Cons(2) [symmetric]
    by (simp add: Let_def add.assoc)
  then show ?case using q' law by auto
qed

section \<open>Runs\<close>

datatype md_op =
  TobUpdate TopOfBook Timestamp | DepthUpdate DepthSnapshot Timestamp | TradeUpdate Trade Timestamp
| ProcessPending | SetThrottle "64 word" | SetL2Depth "64 word"
| SubscribeL1 nat | SubscribeL2 nat | SubscribeTrades nat

fun md_exec :: "md_op \<Rightarrow> MarketDataEngine \<Rightarrow> MarketDataEngine option" where
  "md_exec (TobUpdate tob now) e = Some (on_tob_update tob now e)"
| "md_exec (DepthUpdate d now) e = Some (on_depth_update d now e)"
| "md_exec (TradeUpdate t now) e = Some (on_trade_report t now e)"
| "md_exec ProcessPending e = map_option fst (process_pending e)"
| "md_exec (SetThrottle ns) e = Some (set_throttle_interval_ns ns e)"
| "md_exec (SetL2Depth d) e = Some (set_l2_depth d e)"
| "md_exec (SubscribeL1 h) e = Some (subscribe_l1 h e)"
| "md_exec (SubscribeL2 h) e = Some (subscribe_l2 h e)"
| "md_exec (SubscribeTrades h) e = Some (subscribe_trades h e)"

definition md_step :: "MarketDataEngine \<Rightarrow> MarketDataEngine \<Rightarrow> bool" where
  "md_step e e' \<longleftrightarrow> (\<exists>op. md_exec op e = Some e')"

lemma md_pending_spec:
  assumes "md_inv e"
  obtains q where "process_pending e = Some (e\<lparr>md_queue := q, md_messages_published :=
      md_messages_published e + of_nat (length (md_pending e))\<rparr>,
      concat (map (\<lambda>msg. deliver e (msg_payload msg)) (md_pending e)))"
    "rb_ok q" "rb_contents q = []" "rb_capacity q = 16383"
  using process_pending_spec [of e] assms unfolding md_inv_def by auto

lemma msg_ok_built:
  "msg_ok (MarketDataMessage_default\<lparr>msg_type := IncrementalRefresh, msg_symbol := tob_symbol tob,
     msg_timestamp := now, msg_payload := MDTob tob\<rparr>)"
  "msg_ok (MarketDataMessage_default\<lparr>msg_type := SnapshotFull, msg_symbol := ds_symbol d,
     msg_timestamp := now, msg_payload := MDDepth d\<rparr>)"
  "msg_ok (MarketDataMessage_default\<lparr>msg_type := TradeReport, msg_symbol := t_symbol t,
     msg_timestamp := now, msg_payload := MDTrade t\<rparr>)"
  by (simp_all add: msg_ok_def)

lemma update_inv:
  assumes "md_inv e"
  shows "md_inv (on_tob_update tob now e)" "md_inv (on_depth_update d now e)"
    "md_inv (on_trade_report t now e)"
  using assms enqueue_effect(1) msg_ok_built should_throttle_frame(1)
  by (auto simp: on_tob_update_def on_depth_update_def on_trade_report_def split: prod.split)

lemma md_exec_inv:
  assumes "md_inv e" and "md_exec op e = Some e'"
  shows "md_inv e'"
proof (cases op)
  case ProcessPending
  from md_pending_spec [OF assms(1)] obtain q where
    "process_pending e = Some (e\<lparr>md_queue := q, md_messages_published :=
      md_messages_published e + of_nat (length (md_pending e))\<rparr>,
      concat (map (\<lambda>msg. deliver e (msg_payload msg)) (md_pending e)))"
    "rb_ok q" "rb_contents q = []" "rb_capacity q = 16383" .
  then show ?thesis using assms(2) ProcessPending by (auto simp: md_inv_def md_pending_def)
qed (use assms update_inv in \<open>auto simp: set_throttle_interval_ns_def set_l2_depth_def subscribe_l1_def
    subscribe_l2_def subscribe_trades_def\<close>)

interpretation md: invariant_system "\<lambda>e. e = MarketDataEngine_init" md_step md_inv
  by unfold_locales (auto simp: md_init_inv md_step_def intro: md_exec_inv)

abbreviation md_reachable :: "MarketDataEngine \<Rightarrow> bool" where
  "md_reachable \<equiv> reachable (\<lambda>e. e = MarketDataEngine_init) md_step"

section \<open>Throttling\<close>

text \<open>
  The message an update makes, and the two things that may happen to it.  Either it is taken in: it is
  appended to the queue once, unless the queue is full, and not counted; or it is turned away: the
  queue stays as it is and the update counts as throttled.
\<close>

fun update_msg :: "md_op \<Rightarrow> MarketDataMessage option" where
  "update_msg (TobUpdate tob now) = Some (MarketDataMessage_default\<lparr>msg_type := IncrementalRefresh,
     msg_symbol := tob_symbol tob, msg_timestamp := now, msg_payload := MDTob tob\<rparr>)"
| "update_msg (DepthUpdate d now) = Some (MarketDataMessage_default\<lparr>msg_type := SnapshotFull,
     msg_symbol := ds_symbol d, msg_timestamp := now, msg_payload := MDDepth d\<rparr>)"
| "update_msg (TradeUpdate t now) = Some (MarketDataMessage_default\<lparr>msg_type := TradeReport,
     msg_symbol := t_symbol t, msg_timestamp := now, msg_payload := MDTrade t\<rparr>)"
| "update_msg _ = None"

definition takes_in :: "MarketDataMessage \<Rightarrow> MarketDataEngine \<Rightarrow> MarketDataEngine \<Rightarrow> bool" where
  "takes_in msg e e' \<longleftrightarrow> md_messages_throttled e' = md_messages_throttled e \<and>
     md_pending e' = take 16383 (md_pending e @ [msg])"

definition turns_away :: "MarketDataEngine \<Rightarrow> MarketDataEngine \<Rightarrow> bool" where
  "turns_away e e' \<longleftrightarrow> md_messages_throttled e' = md_messages_throttled e + 1 \<and>
     md_pending e' = md_pending e"

text \<open>Over a run: every trade is taken in and every other update is taken in or turned away; the times
  at which updates of a symbol are offered and those at which they are taken in; and the
  reference, which keeps a time when it is the first, or at least the interval after the last kept
  one.\<close>

fun update_key :: "md_op \<Rightarrow> (Symbol \<times> Timestamp) option" where
  "update_key (TobUpdate tob now) = Some (tob_symbol tob, now)"
| "update_key (DepthUpdate d now) = Some (ds_symbol d, now)"
| "update_key _ = None"

fun offered :: "Symbol \<Rightarrow> md_op list \<Rightarrow> Timestamp list" where
  "offered s [] = []"
| "offered s (op # ops) =
     (case update_key op of
        Some (u, now) \<Rightarrow> if u = s then now # offered s ops else offered s ops
      | None \<Rightarrow> offered s ops)"

fun clear_cut :: "md_op list \<Rightarrow> MarketDataEngine \<Rightarrow> bool" where
  "clear_cut [] e \<longleftrightarrow> True"
| "clear_cut (op # ops) e \<longleftrightarrow>
     (case md_exec op e of
        None \<Rightarrow> False
      | Some e' \<Rightarrow>
          (case update_msg op of
             None \<Rightarrow> True
           | Some msg \<Rightarrow> takes_in msg e e' \<or> update_key op \<noteq> None \<and> turns_away e e') \<and>
          clear_cut ops e')"

fun passed :: "Symbol \<Rightarrow> md_op list \<Rightarrow> MarketDataEngine \<Rightarrow> Timestamp list" where
  "passed s [] e = []"
| "passed s (op # ops) e =
     (case md_exec op e of
        None \<Rightarrow> []
      | Some e' \<Rightarrow>
          (case (update_key op, update_msg op) of
             (Some (u, now), Some msg) \<Rightarrow>
               if u = s \<and> takes_in msg e e' then now # passed s ops e' else passed s ops e'
           | _ \<Rightarrow> passed s ops e'))"

fun spaced :: "64 word \<Rightarrow> Timestamp option \<Rightarrow> Timestamp list \<Rightarrow> Timestamp list" where
  "spaced ns last_time [] = []"
| "spaced ns last_time (t # ts) =
     (if (case last_time of None \<Rightarrow> True | Some u \<Rightarrow> ns \<le> t - u)
      then t # spaced ns (Some t) ts else spaced ns last_time ts)"

lemma spaced_zero: "spaced 0 l ts = ts"
  by (induction ts arbitrary: l) (auto split: option.split)

lemma spaced_apart:
  assumes "sorted ts" and "\<And>u t. l = Some u \<Longrightarrow> t \<in> set ts \<Longrightarrow> u \<le> t"
  shows "successively (\<lambda>a b. unat a + unat ns \<le> unat b) (case l of None \<Rightarrow> spaced ns l ts | Some u \<Rightarrow> u # spaced ns l ts)"
  using assms
proof (induction ts arbitrary: l)
  case Nil
  then show ?case by (simp split: option.split)
next
  case (Cons t ts)
  have ih: "successively (\<lambda>a b. unat a + unat ns \<le> unat b) (t # spaced ns (Some t) ts)"
    using Cons.IH [of "Some t"] Cons.prems(1) by auto
  show ?case
  proof (cases l)
    case None
    then show ?thesis using ih by simp
  next
    case (Some u)
    have le: "u \<le> t" using Cons.prems(2) [OF Some] by simp
    show ?thesis
    proof (cases "ns \<le> t - u")
      case True
      then have "unat ns \<le> unat t - unat u" using le by (simp add: word_le_nat_alt unat_sub)
      then have "unat u + unat ns \<le> unat t" using le by (simp add: word_le_nat_alt)
      then show ?thesis using Some True ih by simp
    next
      case False
      then show ?thesis using Some Cons.IH [of l] Cons.prems by simp
    qed
  qed
qed

lemma should_throttle_spec:
  assumes "should_throttle s now e = (throttled, e')"
  shows "throttled \<longleftrightarrow> md_throttle_ns e \<noteq> 0 \<and>
      (case md_last_publish_time e s of None \<Rightarrow> False | Some t \<Rightarrow> now - t < md_throttle_ns e)"
    and "md_throttle_ns e \<noteq> 0 \<Longrightarrow> md_last_publish_time e' =
      (if throttled then md_last_publish_time e else (md_last_publish_time e)(s \<mapsto> now))"
  using assms by (auto simp: should_throttle_def split: if_splits option.splits)

lemma enqueue_frame [simp]:
  "md_messages_throttled (enqueue msg e) = md_messages_throttled e"
  "md_throttle_ns (enqueue msg e) = md_throttle_ns e"
  "md_last_publish_time (enqueue msg e) = md_last_publish_time e"
  "md_messages_published (enqueue msg e) = md_messages_published e"
  by (simp_all add: enqueue_def)

lemma md_room: "md_inv e \<Longrightarrow> length (md_pending e) \<le> 16383"
  using ring.cap_law [of "md_queue e"] by (simp add: md_inv_def md_pending_def)

lemma enqueue_takes_in:
  assumes "md_inv e" and "msg_ok msg"
  shows "takes_in msg e (enqueue msg e)"
  using enqueue_effect(2) [OF assms] md_room [OF assms(1)] by (simp add: takes_in_def)

lemma takes_in_cong:
  "md_messages_throttled e1 = md_messages_throttled e \<Longrightarrow> md_pending e1 = md_pending e \<Longrightarrow>
    takes_in msg e1 e' = takes_in msg e e'"
  by (simp add: takes_in_def)

lemma update_throttled:
  assumes inv: "md_inv e" and "update_key op = Some (u, now)" and "md_exec op e = Some e'"
    and th: "should_throttle u now e = (b, e1)"
  obtains msg where "update_msg op = Some msg" "takes_in msg e e' \<longleftrightarrow> \<not> b" "b \<longrightarrow> turns_away e e'"
    "md_throttle_ns e' = md_throttle_ns e" "md_last_publish_time e' = md_last_publish_time e1"
proof -
  note frame = should_throttle_frame [OF th]
  have inv1: "md_inv e1" using frame(1) inv by simp
  have e': "e' = (if b then e1\<lparr>md_messages_throttled := md_messages_throttled e1 + 1\<rparr>
      else enqueue msg e1)" and ok: "msg_ok msg" if "update_msg op = Some msg" for msg
    using assms(2,3) th that msg_ok_built
    by (cases op; auto simp: on_tob_update_def on_depth_update_def)+
  obtain msg where msg: "update_msg op = Some msg" using assms(2) by (cases op) auto
  have "takes_in msg e (enqueue msg e1)"
    using enqueue_takes_in [OF inv1 ok [OF msg]] takes_in_cong [OF frame(4,2)] by simp
  moreover have "turns_away e (e1\<lparr>md_messages_throttled := md_messages_throttled e1 + 1\<rparr>)"
    using frame by (simp add: turns_away_def md_pending_def)
  ultimately show thesis
    using that [OF msg] e' [OF msg] frame(3) by (cases b) (auto simp: takes_in_def turns_away_def)
qed

lemma other_op_throttle:
  assumes "md_inv e" and "update_key op = None" and "\<And>ns. op \<noteq> SetThrottle ns" and "md_exec op e = Some e'"
  shows "md_throttle_ns e' = md_throttle_ns e \<and> md_last_publish_time e' = md_last_publish_time e"
proof (cases op)
  case ProcessPending
  then show ?thesis using assms(4) md_pending_spec [OF assms(1)] by fastforce
qed (use assms in \<open>auto simp: on_trade_report_def set_l2_depth_def subscribe_l1_def subscribe_l2_def
      subscribe_trades_def\<close>)

lemma md_exec_total: "md_inv e \<Longrightarrow> \<exists>e'. md_exec op e = Some e'"
  using md_pending_spec [of e "\<exists>e'. md_exec op e = Some e'"] by (cases op) auto

lemma run_clear_cut: "md_inv e \<Longrightarrow> clear_cut ops e"
proof (induction ops arbitrary: e)
  case (Cons op ops)
  obtain e' where exec: "md_exec op e = Some e'" using md_exec_total [OF Cons.prems] by blast
  have rest: "clear_cut ops e'" using Cons.IH md_exec_inv [OF Cons.prems exec] by blast
  show ?case
  proof (cases "update_key op")
    case None
    then show ?thesis using exec rest enqueue_takes_in [OF Cons.prems msg_ok_built(3)]
      by (cases op) (auto simp: on_trade_report_def)
  next
    case (Some un)
    obtain u now where key: "update_key op = Some (u, now)" using Some by (cases un) simp
    obtain b e1 where th: "should_throttle u now e = (b, e1)" by (metis surj_pair)
    obtain msg where "update_msg op = Some msg" "takes_in msg e e' \<longleftrightarrow> \<not> b" "b \<longrightarrow> turns_away e e'"
      by (rule update_throttled [OF Cons.prems key exec th])
    then show ?thesis using exec rest key by (cases b) simp_all
  qed
qed simp

lemma passed_spaced:
  assumes "md_inv e" and "\<And>ns. SetThrottle ns \<notin> set ops"
    and "md_throttle_ns e \<noteq> 0 \<Longrightarrow> l = md_last_publish_time e s"
  shows "passed s ops e = spaced (md_throttle_ns e) l (offered s ops)"
  using assms
proof (induction ops arbitrary: e l)
  case (Cons op ops)
  obtain e' where exec: "md_exec op e = Some e'" using md_exec_total [OF Cons.prems(1)] by blast
  note inv = md_exec_inv [OF Cons.prems(1) exec]
  note ih = Cons.IH [OF inv]
  have other: "\<And>ns. SetThrottle ns \<notin> set ops" "\<And>ns. op \<noteq> SetThrottle ns" using Cons.prems(2) by force+
  show ?case
  proof (cases "update_key op")
    case None
    then show ?thesis
      using other_op_throttle [OF Cons.prems(1) None other(2) exec] ih [of l] other(1) Cons.prems(3) exec by simp
  next
    case (Some un)
    obtain u now where key: "update_key op = Some (u, now)" using Some by (cases un) simp
    obtain b e1 where th: "should_throttle u now e = (b, e1)" by (metis surj_pair)
    obtain msg where msg: "update_msg op = Some msg" and taken: "takes_in msg e e' \<longleftrightarrow> \<not> b"
      and ns: "md_throttle_ns e' = md_throttle_ns e"
      and lt: "md_last_publish_time e' = md_last_publish_time e1"
      by (rule update_throttled [OF Cons.prems(1) key exec th])
    note sp = should_throttle_spec [OF th]
    show ?thesis
    proof (cases "md_throttle_ns e = 0")
      case True
      then show ?thesis using ih [of l] other(1) exec key msg taken ns sp(1) by (simp add: spaced_zero)
    next
      case False
      then have l: "l = md_last_publish_time e s" by (rule Cons.prems(3))
      have l': "md_last_publish_time e' s = (if b \<or> u \<noteq> s then l else Some now)"
        using lt sp(2) [OF False] l by auto
      have b: "b \<longleftrightarrow> \<not> (case l of None \<Rightarrow> True | Some t \<Rightarrow> md_throttle_ns e \<le> now - t)" if "u = s"
        using sp(1) False l that by (auto simp: not_le split: option.split)
      show ?thesis
        using ih [of "md_last_publish_time e' s"] other(1) exec key msg taken ns l' b by auto
    qed
  qed
qed simp

section \<open>Properties\<close>

lemma md_run_reachable: "md_reachable e \<Longrightarrow> md_exec op e = Some e' \<Longrightarrow> md_reachable e'"
  by (rule reachable_step) (auto simp: md_step_def)

lemma init_reachable: "md_reachable MarketDataEngine_init"
  by (rule reachable_init) simp

text \<open>C28: publishing terminates: on every reachable engine the drain loop returns, never reads a union
  member that was not written, leaves the queue empty, and hands every pending message, in order,
  to exactly the handlers subscribed for its kind; the counter counts the messages.\<close>

theorem pending_drained:
  assumes "md_reachable e"
  shows "\<exists>e' calls. process_pending e = Some (e', calls) \<and> md_pending e' = [] \<and>
    calls = concat (map (\<lambda>msg. deliver e (msg_payload msg)) (md_pending e)) \<and>
    md_messages_published e' = md_messages_published e + of_nat (length (md_pending e)) \<and>
    md_messages_throttled e' = md_messages_throttled e \<and> md_last_publish_time e' = md_last_publish_time e"
proof -
  from md_pending_spec [OF md.reachable_inv [OF assms]] obtain q where
    "process_pending e = Some (e\<lparr>md_queue := q, md_messages_published :=
      md_messages_published e + of_nat (length (md_pending e))\<rparr>,
      concat (map (\<lambda>msg. deliver e (msg_payload msg)) (md_pending e)))" "rb_contents q = []" by metis
  then show ?thesis by (auto simp: md_pending_def)
qed

definition demo_trade :: Trade where
  "demo_trade = \<lparr>t_trade_id = 1, t_resting_id = 2, t_incoming_id = 3, t_resting_trader = 4,
     t_incoming_trader = 5, t_symbol = Symbol_default, t_aggressor_side = Buy, t_price = 100, t_qty = 7,
     t_match_timestamp_ns = 9\<rparr>"

definition demo_feed :: MarketDataEngine where
  "demo_feed = on_trade_report demo_trade 9 (subscribe_trades 8 MarketDataEngine_init)"

lemma demo_feed_reachable: "md_reachable demo_feed"
  unfolding demo_feed_def
  by (rule md_run_reachable [of _ "TradeUpdate demo_trade 9"],
      rule md_run_reachable [of _ "SubscribeTrades 8", OF init_reachable]) simp_all

lemma demo_feed_pending: "map msg_payload (md_pending demo_feed) = [MDTrade demo_trade]"
  "md_trade_handlers demo_feed = [8]"
proof -
  have "md_inv (subscribe_trades 8 MarketDataEngine_init)"
    by (simp add: subscribe_trades_def md_init_inv)
  from enqueue_effect(2) [OF this msg_ok_built(3)]
  show "map msg_payload (md_pending demo_feed) = [MDTrade demo_trade]"
    using md_init_inv(2) by (simp add: demo_feed_def on_trade_report_def subscribe_trades_def md_pending_def)
  show "md_trade_handlers demo_feed = [8]"
    by (simp add: demo_feed_def on_trade_report_def enqueue_def subscribe_trades_def MarketDataEngine_init_def)
qed

theorem pending_drained_witness:
  "\<exists>e' calls. process_pending demo_feed = Some (e', calls) \<and> md_pending e' = [] \<and>
     calls = [TradeCall 8 demo_trade]"
proof -
  have "concat (map (\<lambda>msg. deliver demo_feed (msg_payload msg)) (md_pending demo_feed)) =
      concat (map (deliver demo_feed) (map msg_payload (md_pending demo_feed)))" by (simp add: comp_def)
  also have "\<dots> = [TradeCall 8 demo_trade]" by (simp add: demo_feed_pending)
  finally show ?thesis using pending_drained [OF demo_feed_reachable] by auto
qed

text \<open>C29: throttling is per symbol and exact.  In every run of a reachable engine each top of book or depth
  update is either taken in, that is appended to the queue once (when there is room among the 16383
  places) and not counted, or turned away, that is counted as throttled with the queue left as it
  is; a trade is always taken in.  When the engine has not published the symbol yet and the interval
  is not changed, the updates of the symbol taken in are those the reference keeps: the first, then
  each one at least the interval after the last kept one, book and depth updates counted together.
  When moreover the times of the updates do not decrease, two of them are never closer than the
  interval.\<close>

theorem throttle_exact:
  assumes "md_reachable e" and "md_last_publish_time e s = None" and "list_all (\<lambda>op. \<forall>ns. op \<noteq> SetThrottle ns) ops"
  shows "clear_cut ops e \<and>
    passed s ops e = spaced (md_throttle_ns e) None (offered s ops) \<and>
    (sorted (offered s ops) \<longrightarrow>
      successively (\<lambda>a b. unat a + unat (md_throttle_ns e) \<le> unat b) (passed s ops e))"
proof -
  have "SetThrottle ns \<notin> set ops" for ns using assms(3) by (auto simp: list_all_iff)
  then have "passed s ops e = spaced (md_throttle_ns e) None (offered s ops)"
    using passed_spaced [OF md.reachable_inv [OF assms(1)], of ops None s] assms(2) by simp
  then show ?thesis
    using spaced_apart [of "offered s ops" None "md_throttle_ns e"] run_clear_cut [OF md.reachable_inv [OF assms(1)]]
    by simp
qed

definition demo_updates :: "md_op list" where
  "demo_updates = [TobUpdate TopOfBook_default 10, DepthUpdate DepthSnapshot_default 12,
     TradeUpdate demo_trade 13, ProcessPending, TobUpdate TopOfBook_default 20]"

theorem throttle_exact_witness:
  "passed Symbol_default demo_updates (set_throttle_interval_ns 10 MarketDataEngine_init) = [10, 20]"
proof -
  have "md_reachable (set_throttle_interval_ns 10 MarketDataEngine_init)"
    by (rule md_run_reachable [of _ "SetThrottle 10", OF init_reachable]) simp
  moreover have "list_all (\<lambda>op. \<forall>ns. op \<noteq> SetThrottle ns) demo_updates" by (simp add: demo_updates_def)
  moreover have "offered Symbol_default demo_updates = [10, 12, 20]"
    by (simp add: demo_updates_def TopOfBook_default_def DepthSnapshot_default_def)
  moreover have "spaced 10 None [10, 12, 20] = [10, 20]" by simp
  ultimately show ?thesis
    using throttle_exact [of "set_throttle_interval_ns 10 MarketDataEngine_init" Symbol_default demo_updates]
    by (simp add: set_throttle_interval_ns_def MarketDataEngine_init_def)
qed

text \<open>At most 16383 messages are pending in a reachable engine; a trade is never throttled, it is
  appended while there is room, and dropped without a trace in the counters otherwise.\<close>

lemma trade_reports_bounded:
  assumes "md_reachable e"
  shows "length (md_pending e) \<le> 16383 \<and>
    map msg_payload (md_pending (on_trade_report t now e)) =
      map msg_payload (md_pending e) @ (if length (md_pending e) < 16383 then [MDTrade t] else []) \<and>
    md_messages_throttled (on_trade_report t now e) = md_messages_throttled e \<and>
    md_messages_published (on_trade_report t now e) = md_messages_published e"
proof -
  note inv = md.reachable_inv [OF assms]
  have "length (md_pending e) \<le> 16383"
    using ring.cap_law [of "md_queue e"] inv by (simp add: md_inv_def md_pending_def)
  then show ?thesis
    using enqueue_effect(2) [OF inv msg_ok_built(3)] by (simp add: on_trade_report_def)
qed

lemma trade_reports_bounded_witness:
  "map msg_payload (md_pending (on_trade_report demo_trade 10 demo_feed)) = [MDTrade demo_trade, MDTrade demo_trade]"
proof -
  have "length (md_pending demo_feed) = 1" using arg_cong [OF demo_feed_pending(1), of length] by simp
  then show ?thesis using trade_reports_bounded [OF demo_feed_reachable] demo_feed_pending(1) by simp
qed

end
