(* ===== verification/SimpleBook.thy ===== *)
theory SimpleBook
  imports MatchInterface
begin

text \<open>
  \<^verbatim>\<open>src/market/order_book.hpp\<close> and \<^verbatim>\<open>.cpp\<close>: the simple order book, \<^verbatim>\<open>BookOrder\<close> and \<^verbatim>\<open>NewOrder\<close> of
  \<^verbatim>\<open>common/types.hpp\<close>.

  Iterators are handles, as in \<open>L3Book\<close>: erasing a node that the queue does not hold is undefined
  behaviour, and the operation returns \<^const>\<open>None\<close>.  The specification is the abstract matching
  \<^const>\<open>a_take\<close> of \<open>L3Spec\<close>, which the order-level book implements as well.
\<close>

section \<open>State\<close>

record NewOrder =
  n_id :: OrderId
  n_trader :: TraderId
  n_symbol :: string
  n_side :: Side
  n_type :: OrderType
  n_tif :: TimeInForce
  n_price :: Price
  n_qty :: Quantity

record BookOrder =
  bo_id :: OrderId
  bo_trader :: TraderId
  bo_qty :: Quantity
  bo_price :: Price
  bo_side :: Side
  bo_type :: OrderType
  bo_ts_ns :: Timestamp

definition BookOrder_of :: "NewOrder \<Rightarrow> Timestamp \<Rightarrow> BookOrder" where
  "BookOrder_of ord ts_ns = \<lparr>bo_id = n_id ord, bo_trader = n_trader ord, bo_qty = n_qty ord,
     bo_price = n_price ord, bo_side = n_side ord, bo_type = n_type ord, bo_ts_ns = ts_ns\<rparr>"

type_synonym ob_node = "nat \<times> BookOrder"

record BookLocation =
  bloc_side :: Side
  bloc_price :: Price
  bloc_it :: nat

record OrderBook =
  ob_symbol :: Symbol
  ob_bids :: "ob_node plevels"
  ob_asks :: "ob_node plevels"
  ob_order_index :: "OrderId \<rightharpoonup> BookLocation"
  ob_next_node :: nat

definition OrderBook_init :: "Symbol \<Rightarrow> OrderBook" where
  "OrderBook_init symbol = \<lparr>ob_symbol = symbol, ob_bids = [], ob_asks = [],
     ob_order_index = Map.empty, ob_next_node = 0\<rparr>"

definition symbol_of_book :: "OrderBook \<Rightarrow> Symbol" where
  "symbol_of_book b = ob_symbol b"

section \<open>Operations\<close>

definition addOrder :: "BookOrder \<Rightarrow> OrderBook \<Rightarrow> OrderBook" where
  "addOrder ord b =
     (let h = ob_next_node b;
          loc = \<lparr>bloc_side = bo_side ord, bloc_price = bo_price ord, bloc_it = h\<rparr>;
          b = b\<lparr>ob_next_node := h + 1\<rparr>
      in case bo_side ord of
           Buy \<Rightarrow> b\<lparr>ob_bids := lv_at (>) (bo_price ord) (\<lambda>q. q @ [(h, ord)]) (ob_bids b),
                    ob_order_index := (ob_order_index b)(bo_id ord \<mapsto> loc)\<rparr>
         | Sell \<Rightarrow> b\<lparr>ob_asks := lv_at (<) (bo_price ord) (\<lambda>q. q @ [(h, ord)]) (ob_asks b),
                     ob_order_index := (ob_order_index b)(bo_id ord \<mapsto> loc)\<rparr>)"

text \<open>
  \<^verbatim>\<open>auto& queue = levels[price]; queue.erase(it)\<close>, dropping an emptied level.  A missing price
  inserts an empty queue, which holds no node.
\<close>

definition erase_from :: "nat \<Rightarrow> Price \<Rightarrow> ob_node plevels \<Rightarrow> ob_node plevels option" where
  "erase_from h price ls =
     (case lv_find price ls of
        None \<Rightarrow> None
      | Some queue \<Rightarrow>
          if h \<in> fst ` set queue
          then (let queue = filter (\<lambda>n. fst n \<noteq> h) queue
                in Some (if queue = [] then lv_erase price ls else lv_set price queue ls))
          else None)"

definition cancelOrder :: "OrderId \<Rightarrow> OrderBook \<Rightarrow> (bool \<times> OrderBook) option" where
  "cancelOrder id1 b =
     (case ob_order_index b id1 of
        None \<Rightarrow> Some (False, b)
      | Some loc \<Rightarrow>
          map_option (\<lambda>b. (True, b\<lparr>ob_order_index := (ob_order_index b)(id1 := None)\<rparr>))
            (case bloc_side loc of
               Buy \<Rightarrow> map_option (\<lambda>ls. b\<lparr>ob_bids := ls\<rparr>) (erase_from (bloc_it loc) (bloc_price loc) (ob_bids b))
             | Sell \<Rightarrow> map_option (\<lambda>ls. b\<lparr>ob_asks := ls\<rparr>) (erase_from (bloc_it loc) (bloc_price loc) (ob_asks b))))"

text \<open>The \<^verbatim>\<open>break\<close> of the two outer loops, and the trade record: the fields it leaves alone keep
  their defaults.\<close>

definition no_more_matches :: "BookOrder \<Rightarrow> Price \<Rightarrow> bool" where
  "no_more_matches inc price \<longleftrightarrow>
     (case bo_side inc of Buy \<Rightarrow> price > bo_price inc | Sell \<Rightarrow> price < bo_price inc) \<and> bo_type inc = Limit"

definition book_trade :: "Symbol \<Rightarrow> BookOrder \<Rightarrow> BookOrder \<Rightarrow> Price \<Rightarrow> Quantity \<Rightarrow> Timestamp \<Rightarrow> Trade" where
  "book_trade symbol inc resting price matched_qty ts_ns =
     \<lparr>t_trade_id = 0, t_resting_id = bo_id resting, t_incoming_id = bo_id inc, t_resting_trader = 0,
      t_incoming_trader = 0, t_symbol = symbol, t_aggressor_side = bo_side inc, t_price = price,
      t_qty = matched_qty, t_match_timestamp_ns = ts_ns\<rparr>"

text \<open>
  The inner loop: a front order that is not used up has taken all that remained, so the loop ends
  with it in front.
\<close>

fun match_level :: "Symbol \<Rightarrow> BookOrder \<Rightarrow> Price \<Rightarrow> Timestamp \<Rightarrow> Quantity \<Rightarrow> ob_node list
    \<Rightarrow> (OrderId \<rightharpoonup> BookLocation)
    \<Rightarrow> Quantity \<times> ob_node list \<times> Trade list \<times> (OrderId \<rightharpoonup> BookLocation)" where
  "match_level symbol inc price ts_ns remaining [] idx = (remaining, [], [], idx)"
| "match_level symbol inc price ts_ns remaining ((h, resting) # queue) idx =
     (if remaining > 0
      then (let matched_qty = min remaining (bo_qty resting);
                trade = book_trade symbol inc resting price matched_qty ts_ns;
                remaining = sub64 remaining matched_qty;
                resting = resting\<lparr>bo_qty := sub64 (bo_qty resting) matched_qty\<rparr>
            in if bo_qty resting = 0
               then (case match_level symbol inc price ts_ns remaining queue (idx(bo_id resting := None)) of
                       (remaining, queue, trades, idx) \<Rightarrow> (remaining, queue, trade # trades, idx))
               else (remaining, (h, resting) # queue, [trade], idx))
      else (remaining, (h, resting) # queue, [], idx))"

fun match_levels :: "Symbol \<Rightarrow> BookOrder \<Rightarrow> Timestamp \<Rightarrow> Quantity \<Rightarrow> ob_node plevels
    \<Rightarrow> (OrderId \<rightharpoonup> BookLocation)
    \<Rightarrow> Quantity \<times> ob_node plevels \<times> Trade list \<times> (OrderId \<rightharpoonup> BookLocation)" where
  "match_levels symbol inc ts_ns remaining [] idx = (remaining, [], [], idx)"
| "match_levels symbol inc ts_ns remaining ((price, queue) # ls) idx =
     (if remaining > 0 \<and> \<not> no_more_matches inc price
      then (case match_level symbol inc price ts_ns remaining queue idx of
              (remaining, queue, trades, idx) \<Rightarrow>
                if queue = []
                then (case match_levels symbol inc ts_ns remaining ls idx of
                        (remaining, ls, trades', idx) \<Rightarrow> (remaining, ls, trades @ trades', idx))
                else (remaining, (price, queue) # ls, trades, idx))
      else (remaining, (price, queue) # ls, [], idx))"

definition matchIncoming :: "BookOrder \<Rightarrow> Timestamp \<Rightarrow> OrderBook \<Rightarrow> Trade list \<times> Quantity \<times> OrderBook" where
  "matchIncoming inc ts_ns b =
     (case bo_side inc of
        Buy \<Rightarrow> (case match_levels (ob_symbol b) inc ts_ns (bo_qty inc) (ob_asks b) (ob_order_index b) of
                  (remaining, asks, trades, idx) \<Rightarrow>
                    (trades, remaining, b\<lparr>ob_asks := asks, ob_order_index := idx\<rparr>))
      | Sell \<Rightarrow> (case match_levels (ob_symbol b) inc ts_ns (bo_qty inc) (ob_bids b) (ob_order_index b) of
                  (remaining, bids, trades, idx) \<Rightarrow>
                    (trades, remaining, b\<lparr>ob_bids := bids, ob_order_index := idx\<rparr>)))"

definition level_total :: "Price \<Rightarrow> ob_node list \<Rightarrow> BookLevel" where
  "level_total price queue = \<lparr>bl_price = price,
     bl_qty = foldl (\<lambda>total_qty n. add64 total_qty (bo_qty (snd n))) 0 queue, bl_order_count = 0\<rparr>"

definition bestBid :: "OrderBook \<Rightarrow> BookLevel option" where
  "bestBid b = (case ob_bids b of [] \<Rightarrow> None | (price, queue) # _ \<Rightarrow> Some (level_total price queue))"

definition bestAsk :: "OrderBook \<Rightarrow> BookLevel option" where
  "bestAsk b = (case ob_asks b of [] \<Rightarrow> None | (price, queue) # _ \<Rightarrow> Some (level_total price queue))"

fun levels_upto :: "nat \<Rightarrow> nat \<Rightarrow> ob_node plevels \<Rightarrow> BookLevel list" where
  "levels_upto depth n [] = []"
| "levels_upto depth n ((price, queue) # ls) =
     (if n \<ge> depth then [] else level_total price queue # levels_upto depth (n + 1) ls)"

definition bids :: "OrderBook \<Rightarrow> nat \<Rightarrow> BookLevel list" where
  "bids b depth = levels_upto depth 0 (ob_bids b)"

definition asks :: "OrderBook \<Rightarrow> nat \<Rightarrow> BookLevel list" where
  "asks b depth = levels_upto depth 0 (ob_asks b)"

section \<open>The invariant\<close>

abbreviation ob_price :: "ob_node \<Rightarrow> Price" where "ob_price n \<equiv> bo_price (snd n)"

definition ob_nodes :: "OrderBook \<Rightarrow> ob_node list" where
  "ob_nodes b = nodes (ob_bids b) @ nodes (ob_asks b)"

definition bookorder_ok :: "BookOrder \<Rightarrow> bool" where
  "bookorder_ok r \<longleftrightarrow> 0 < bo_qty r \<and> i64_ok (bo_qty r)"

definition book_side_ok :: "(Price \<Rightarrow> Price \<Rightarrow> bool) \<Rightarrow> Side \<Rightarrow> ob_node plevels \<Rightarrow> bool" where
  "book_side_ok before s ls \<longleftrightarrow> levels_ok before ob_price ls \<and>
     (\<forall>n \<in> set (nodes ls). bo_side (snd n) = s \<and> bookorder_ok (snd n))"

text \<open>Every index entry points to a live node with that identifier; the converse fails when an
  identifier is used twice.\<close>

definition ob_key :: "ob_node \<Rightarrow> nat \<times> OrderId \<times> Side \<times> Price" where
  "ob_key n = (fst n, bo_id (snd n), bo_side (snd n), ob_price n)"

definition points_live :: "(OrderId \<rightharpoonup> BookLocation) \<Rightarrow> ob_node list \<Rightarrow> bool" where
  "points_live idx ns \<longleftrightarrow>
     (\<forall>i loc. idx i = Some loc \<longrightarrow> (bloc_it loc, i, bloc_side loc, bloc_price loc) \<in> ob_key ` set ns)"

definition ob_inv :: "OrderBook \<Rightarrow> bool" where
  "ob_inv b \<longleftrightarrow> book_side_ok (>) Buy (ob_bids b) \<and> book_side_ok (<) Sell (ob_asks b) \<and>
     distinct (map fst (ob_nodes b)) \<and> (\<forall>n \<in> set (ob_nodes b). fst n < ob_next_node b) \<and>
     points_live (ob_order_index b) (ob_nodes b)"

lemma points_live_clear:
  assumes "points_live idx ns" and "\<And>i. idx' i = (if i \<in> X then None else idx i)"
    and "\<And>n. n \<in> set ns \<Longrightarrow> bo_id (snd n) \<notin> X \<Longrightarrow> ob_key n \<in> ob_key ` set ns'"
  shows "points_live idx' ns'"
  unfolding points_live_def
proof (intro allI impI)
  fix i loc assume i: "idx' i = Some loc"
  then have "idx i = Some loc" "i \<notin> X" using assms(2) by (auto split: if_splits)
  then have "(bloc_it loc, i, bloc_side loc, bloc_price loc) \<in> ob_key ` set ns"
    using assms(1) by (auto simp: points_live_def)
  then obtain n where n: "n \<in> set ns" "(bloc_it loc, i, bloc_side loc, bloc_price loc) = ob_key n"
    by (rule imageE)
  then have "bo_id (snd n) \<notin> X" using \<open>i \<notin> X\<close> by (simp add: ob_key_def)
  then show "(bloc_it loc, i, bloc_side loc, bloc_price loc) \<in> ob_key ` set ns'"
    using assms(3) n by simp
qed

section \<open>Matching\<close>

definition ob_abs :: "ob_node \<Rightarrow> aorder" where
  "ob_abs n = \<lparr>a_id = bo_id (snd n), a_trader = bo_trader (snd n), a_price = ob_price n,
     a_open = bo_qty (snd n)\<rparr>"

lemma ob_abs_simps [simp]:
  "a_id (ob_abs n) = bo_id (snd n)" "a_price (ob_abs n) = ob_price n" "a_open (ob_abs n) = bo_qty (snd n)"
  "a_trader (ob_abs n) = bo_trader (snd n)"
  by (simp_all add: ob_abs_def)

text \<open>
  What both loops establish between the nodes they were given and those they leave: the first ones
  are gone, and so are their index entries.
\<close>

definition consumed :: "ob_node list \<Rightarrow> ob_node list \<Rightarrow> (OrderId \<rightharpoonup> BookLocation) \<Rightarrow> (OrderId \<rightharpoonup> BookLocation) \<Rightarrow> bool" where
  "consumed ns ns' idx idx' \<longleftrightarrow>
     (\<exists>k. map ob_key ns' = map ob_key (drop k ns) \<and> (\<forall>n \<in> set ns'. bookorder_ok (snd n)) \<and>
       (\<forall>i. idx' i = (if i \<in> (bo_id \<circ> snd) ` set (take k ns) then None else idx i)))"

lemma consumed_refl [simp]: "\<forall>n \<in> set ns. bookorder_ok (snd n) \<Longrightarrow> consumed ns ns idx idx"
  unfolding consumed_def by (intro exI [of _ 0]) simp

lemma consumed_Cons:
  assumes "consumed ns ns' (idx(bo_id r := None)) idx'"
  shows "consumed ((h, r) # ns) ns' idx idx'"
proof -
  obtain k where "map ob_key ns' = map ob_key (drop k ns)" "\<forall>n \<in> set ns'. bookorder_ok (snd n)"
    "\<forall>i. idx' i = (if i \<in> (bo_id \<circ> snd) ` set (take k ns) then None else (idx(bo_id r := None)) i)"
    using assms unfolding consumed_def by blast
  then show ?thesis unfolding consumed_def by (intro exI [of _ "Suc k"]) auto
qed

lemma consumed_append:
  assumes "consumed xs [] idx idx1" and "consumed ys ys' idx1 idx2"
  shows "consumed (xs @ ys) ys' idx idx2"
proof -
  obtain j where j: "[] = map ob_key (drop j xs)"
    "\<forall>i. idx1 i = (if i \<in> (bo_id \<circ> snd) ` set (take j xs) then None else idx i)"
    using assms(1) unfolding consumed_def by (simp only: list.map) blast
  obtain k where k: "map ob_key ys' = map ob_key (drop k ys)" "\<forall>n \<in> set ys'. bookorder_ok (snd n)"
    "\<forall>i. idx2 i = (if i \<in> (bo_id \<circ> snd) ` set (take k ys) then None else idx1 i)"
    using assms(2) unfolding consumed_def by blast
  have "take j xs = xs" using j(1) by simp
  then show ?thesis unfolding consumed_def
    using j(2) k by (intro exI [of _ "length xs + k"]) (auto simp: image_Un)
qed

lemma consumed_more:
  assumes "consumed xs xs' idx idx'" and "\<forall>n \<in> set ys. bookorder_ok (snd n)" and "xs' \<noteq> []"
  shows "consumed (xs @ ys) (xs' @ ys) idx idx'"
proof -
  obtain k where k: "map ob_key xs' = map ob_key (drop k xs)" "\<forall>n \<in> set xs'. bookorder_ok (snd n)"
    "\<forall>i. idx' i = (if i \<in> (bo_id \<circ> snd) ` set (take k xs) then None else idx i)"
    using assms(1) unfolding consumed_def by blast
  have "k < length xs"
  proof (rule ccontr)
    assume "\<not> k < length xs"
    then have "map ob_key xs' = []" using k(1) by simp
    then show False using assms(3) by simp
  qed
  then show ?thesis unfolding consumed_def using k assms(2) by (intro exI [of _ k]) auto
qed

lemma match_level_spec:
  assumes "\<forall>n \<in> set queue. bookorder_ok (snd n) \<and> ob_price n = price" and "i64_ok remaining"
    and "match_level symbol inc price ts_ns remaining queue idx = (r, queue', trades, idx')"
  shows "(\<exists>fs. a_take remaining (map ob_abs queue) = (r, map ob_abs queue', fs) \<and>
      map trade_triple trades = map fill_triple fs) \<and> i64_ok r \<and> (0 < r \<longrightarrow> queue' = []) \<and>
    consumed queue queue' idx idx'"
  using assms
proof (induction queue arbitrary: remaining idx r queue' trades idx')
  case Nil
  then show ?case by auto
next
  case (Cons n queue)
  obtain h resting where n: "n = (h, resting)" by (cases n)
  have ok: "0 < bo_qty resting" "i64_ok (bo_qty resting)" and price: "bo_price resting = price"
    using Cons.prems(1) n by (auto simp: bookorder_ok_def)
  have oks: "\<forall>n \<in> set queue. bookorder_ok (snd n)" using Cons.prems(1) by simp
  show ?case
  proof (cases "0 < remaining")
    case False
    then show ?thesis using Cons.prems n by auto
  next
    case pos: True
    show ?thesis
    proof (cases "remaining < bo_qty resting")
      case True
      have range: "wrap64 (bo_qty resting - remaining) = bo_qty resting - remaining"
        "i64_ok (bo_qty resting - remaining)"
        using ok pos True Cons.prems(2) by (auto simp: i64_ok_def intro!: wrap64_id)
      have "r = 0" "queue' = (h, resting\<lparr>bo_qty := bo_qty resting - remaining\<rparr>) # queue" "idx' = idx"
        "trades = [book_trade symbol inc resting price remaining ts_ns]"
        using Cons.prems(3) n pos True range by (auto simp: Let_def)
      moreover have "consumed (n # queue) ((h, resting\<lparr>bo_qty := bo_qty resting - remaining\<rparr>) # queue) idx idx"
        using True range(2) oks n
        by (auto simp: consumed_def ob_key_def bookorder_ok_def intro!: exI [of _ 0])
      ultimately show ?thesis
        using pos True n price
        by (auto simp: ob_abs_def trade_triple_def fill_triple_def book_trade_def i64_ok_def)
    next
      case False
      have range: "wrap64 (remaining - bo_qty resting) = remaining - bo_qty resting"
        "i64_ok (remaining - bo_qty resting)"
        using ok pos False Cons.prems(2) by (auto simp: i64_ok_def intro!: wrap64_id)
      obtain trades1 where rec: "match_level symbol inc price ts_ns (remaining - bo_qty resting) queue
          (idx(bo_id resting := None)) = (r, queue', trades1, idx')"
        and tr: "trades = book_trade symbol inc resting price (bo_qty resting) ts_ns # trades1"
        using Cons.prems(3) n pos False range by (auto simp: Let_def min_absorb2 split: prod.splits)
      have "\<forall>n \<in> set queue. bookorder_ok (snd n) \<and> ob_price n = price" using Cons.prems(1) by simp
      from Cons.IH [OF this range(2) rec] obtain fs where
        fs: "a_take (remaining - bo_qty resting) (map ob_abs queue) = (r, map ob_abs queue', fs)"
          "map trade_triple trades1 = map fill_triple fs" and rest: "i64_ok r" "0 < r \<longrightarrow> queue' = []"
        and con: "consumed queue queue' (idx(bo_id resting := None)) idx'" by blast
      have "a_take remaining (map ob_abs (n # queue)) = (r, map ob_abs queue', (ob_abs n, bo_qty resting) # fs)"
        using pos False fs(1) n by simp
      moreover have "map trade_triple trades = map fill_triple ((ob_abs n, bo_qty resting) # fs)"
        using tr fs(2) n price by (simp add: trade_triple_def fill_triple_def book_trade_def)
      ultimately show ?thesis using rest consumed_Cons [OF con] n by blast
    qed
  qed
qed

lemma a_take_append:
  assumes "a_take q xs = (r, kept, fs)" and "0 < r \<longrightarrow> kept = []"
  shows "a_take q (xs @ ys) =
    (if kept = [] then (case a_take r ys of (r', kept', fs') \<Rightarrow> (r', kept', fs @ fs')) else (r, kept @ ys, fs))"
  using assms
proof (induction q xs arbitrary: r kept fs rule: a_take.induct)
  case (1 q)
  then show ?case by (auto split: prod.split)
next
  case (2 q x xs)
  show ?case
  proof (cases "q \<le> 0 \<or> q < a_open x")
    case True
    then show ?thesis using 2(2) by (auto split: if_splits)
  next
    case False
    obtain fs1 where rec: "a_take (q - a_open x) xs = (r, kept, fs1)" and fs: "fs = (x, a_open x) # fs1"
      using 2(2) False by (auto split: prod.splits)
    have "\<not> q \<le> 0" "\<not> q < a_open x" using False by simp_all
    from 2(1) [OF this rec 2(3)] show ?thesis using False fs by (auto split: prod.splits)
  qed
qed

lemma a_take_stop: "q \<le> 0 \<Longrightarrow> a_take q xs = (q, xs, [])"
  by (cases xs) simp_all

lemma consumed_keys: "consumed ns ns' idx idx' \<Longrightarrow> ob_key ` set ns' \<subseteq> ob_key ` set ns"
  unfolding consumed_def by (metis (no_types, lifting) image_set set_drop_subset image_mono)

definition takes :: "BookOrder \<Rightarrow> aorder \<Rightarrow> bool" where
  "takes inc x \<longleftrightarrow> \<not> no_more_matches inc (a_price x)"

lemma partition_levels:
  assumes "levels_ok before ob_price ls"
    and mono: "\<forall>p k. no_more_matches inc p \<longrightarrow> before p k \<longrightarrow> no_more_matches inc k"
  shows "map ob_abs (nodes ls) = filter (takes inc) (map ob_abs (nodes ls)) @
    filter (\<lambda>x. \<not> takes inc x) (map ob_abs (nodes ls))"
    and "ls = (p, q) # ls1 \<Longrightarrow> no_more_matches inc p \<Longrightarrow> filter (takes inc) (map ob_abs (nodes ls)) = []"
proof -
  have none: "filter (takes inc) (map ob_abs (nodes ls)) = []"
    if "levels_ok before ob_price ls" "ls = (p, q) # ls1" "no_more_matches inc p" for ls p q ls1
  proof -
    have "no_more_matches inc (ob_price n)" if "n \<in> set (nodes ls)" for n
    proof -
      have "ob_price n \<in> fst ` set ls"
        using levels_ok_keys [OF \<open>levels_ok before ob_price ls\<close>] that by auto
      then show ?thesis using \<open>levels_ok before ob_price ls\<close> \<open>ls = (p, q) # ls1\<close> \<open>no_more_matches inc p\<close> mono
        by (auto simp: levels_ok_Cons)
    qed
    then show ?thesis by (auto simp: filter_empty_conv takes_def)
  qed
  show "ls = (p, q) # ls1 \<Longrightarrow> no_more_matches inc p \<Longrightarrow> filter (takes inc) (map ob_abs (nodes ls)) = []"
    using none [OF assms(1)] by blast
  show "map ob_abs (nodes ls) = filter (takes inc) (map ob_abs (nodes ls)) @
    filter (\<lambda>x. \<not> takes inc x) (map ob_abs (nodes ls))"
    using assms(1)
  proof (induction ls)
    case (Cons l ls)
    obtain p q where l: "l = (p, q)" by (cases l)
    show ?case
    proof (cases "no_more_matches inc p")
      case True
      from none [OF Cons.prems l [THEN arg_cong, of "\<lambda>l. l # ls"] True] have
        e: "filter (takes inc) (map ob_abs (nodes (l # ls))) = []" .
      then have "filter (\<lambda>x. \<not> takes inc x) (map ob_abs (nodes (l # ls))) = map ob_abs (nodes (l # ls))"
        by (auto simp: filter_empty_conv filter_id_conv)
      then show ?thesis using e by simp
    next
      case False
      then have "\<forall>x \<in> set (map ob_abs q). takes inc x"
        using Cons.prems l by (auto simp: levels_ok_Cons takes_def)
      then have "filter (takes inc) (map ob_abs q) = map ob_abs q"
        "filter (\<lambda>x. \<not> takes inc x) (map ob_abs q) = []"
        by (auto simp: filter_empty_conv filter_id_conv)
      moreover have "levels_ok before ob_price ls" using Cons.prems l by (simp add: levels_ok_Cons)
      ultimately show ?thesis using Cons.IH l by (simp only: nodes_Cons map_append filter_append append_Nil append_assoc)
    qed
  qed simp
qed

lemma match_levels_spec:
  assumes "levels_ok before ob_price ls" and "\<forall>n \<in> set (nodes ls). bookorder_ok (snd n)"
    and mono: "\<forall>p k. no_more_matches inc p \<longrightarrow> before p k \<longrightarrow> no_more_matches inc k"
    and "i64_ok remaining"
    and "match_levels symbol inc ts_ns remaining ls idx = (r, ls', trades, idx')"
  shows "(\<exists>kept fs. a_take remaining (filter (takes inc) (map ob_abs (nodes ls))) = (r, kept, fs) \<and>
      map ob_abs (nodes ls') = kept @ filter (\<lambda>x. \<not> takes inc x) (map ob_abs (nodes ls)) \<and>
      map trade_triple trades = map fill_triple fs) \<and>
    i64_ok r \<and> levels_ok before ob_price ls' \<and> fst ` set ls' \<subseteq> fst ` set ls \<and>
    consumed (nodes ls) (nodes ls') idx idx'"
  using assms(1,2,4,5)
proof (induction ls arbitrary: remaining idx r ls' trades idx')
  case Nil
  then show ?case by simp
next
  case (Cons l ls)
  obtain p q where l: "l = (p, q)" by (cases l)
  from Cons.prems(1) l have ok: "levels_ok before ob_price ls" and q: "q \<noteq> []" "\<forall>n \<in> set q. ob_price n = p"
    by (auto simp: levels_ok_Cons)
  have oks: "\<forall>n \<in> set q. bookorder_ok (snd n) \<and> ob_price n = p" "\<forall>n \<in> set (nodes ls). bookorder_ok (snd n)"
    using Cons.prems(2) q l by auto
  show ?case
  proof (cases "remaining > 0 \<and> \<not> no_more_matches inc p")
    case False
    then have same: "r = remaining" "ls' = l # ls" "trades = []" "idx' = idx"
      using Cons.prems(4) l by auto
    have "a_take remaining (filter (takes inc) (map ob_abs (nodes (l # ls)))) =
        (remaining, filter (takes inc) (map ob_abs (nodes (l # ls))), [])"
    proof (cases "remaining > 0")
      case True
      have "filter (takes inc) (map ob_abs (nodes (l # ls))) = []"
        by (rule partition_levels(2) [OF Cons.prems(1), of inc p q ls]) (use mono l True False in auto)
      then show ?thesis by (simp only: a_take.simps)
    qed (simp add: a_take_stop)
    then show ?thesis
      using same Cons.prems(1-3) partition_levels(1) [OF Cons.prems(1), of inc] mono by auto
  next
    case True
    obtain r1 q1 tr1 idx1 where level: "match_level symbol inc p ts_ns remaining q idx = (r1, q1, tr1, idx1)"
      by (metis prod_cases4)
    from match_level_spec [OF oks(1) Cons.prems(3) level] obtain fs1 where
      take1: "a_take remaining (map ob_abs q) = (r1, map ob_abs q1, fs1)"
      and view1: "map trade_triple tr1 = map fill_triple fs1"
      and r1: "i64_ok r1" "0 < r1 \<longrightarrow> q1 = []" and con1: "consumed q q1 idx idx1" by blast
    have "\<forall>x \<in> set (map ob_abs q). takes inc x" using True q by (auto simp: takes_def)
    then have split: "filter (takes inc) (map ob_abs (nodes (l # ls))) =
          map ob_abs q @ filter (takes inc) (map ob_abs (nodes ls))"
      "filter (\<lambda>x. \<not> takes inc x) (map ob_abs (nodes (l # ls))) =
          filter (\<lambda>x. \<not> takes inc x) (map ob_abs (nodes ls))"
      using l by (simp_all only: nodes_Cons map_append filter_append) (auto simp: filter_empty_conv filter_id_conv)
    have append: "a_take remaining (map ob_abs q @ ys) =
        (if map ob_abs q1 = [] then (case a_take r1 ys of (r', kept', fs') \<Rightarrow> (r', kept', fs1 @ fs'))
         else (r1, map ob_abs q1 @ ys, fs1))" for ys
      by (rule a_take_append [OF take1]) (simp add: r1(2))
    show ?thesis
    proof (cases "q1 = []")
      case empty: True
      obtain tr2 where rec: "match_levels symbol inc ts_ns r1 ls idx1 = (r, ls', tr2, idx')"
        and tr: "trades = tr1 @ tr2"
        using Cons.prems(4) l True level empty by (auto split: prod.splits)
      from Cons.IH [OF ok oks(2) r1(1) rec] obtain kept fs2 where
        "a_take r1 (filter (takes inc) (map ob_abs (nodes ls))) = (r, kept, fs2)"
        "map ob_abs (nodes ls') = kept @ filter (\<lambda>x. \<not> takes inc x) (map ob_abs (nodes ls))"
        "map trade_triple tr2 = map fill_triple fs2"
        and rest: "i64_ok r" "levels_ok before ob_price ls'" "fst ` set ls' \<subseteq> fst ` set ls"
        and con2: "consumed (nodes ls) (nodes ls') idx1 idx'" by blast
      moreover have "consumed (q @ nodes ls) (nodes ls') idx idx'"
        using consumed_append con1 con2 empty by blast
      ultimately show ?thesis
        using append [of "filter (takes inc) (map ob_abs (nodes ls))"] split tr view1 empty l by auto
    next
      case False
      then have out: "r = r1" "ls' = (p, q1) # ls" "trades = tr1" "idx' = idx1"
        using Cons.prems(4) l True level by auto
      have "ob_price n = p" if "n \<in> set q1" for n
        using consumed_keys [OF con1] that q(2) by (force simp: ob_key_def)
      then have "levels_ok before ob_price ls'"
        using Cons.prems(1) out(2) False l by (auto simp: levels_ok_Cons)
      moreover have "consumed (q @ nodes ls) (q1 @ nodes ls) idx idx1"
        by (rule consumed_more [OF con1 oks(2) False])
      ultimately show ?thesis
        using append [of "filter (takes inc) (map ob_abs (nodes ls))"] split out view1 r1(1) False l
          partition_levels(1) [OF ok, of inc] mono by auto
    qed
  qed
qed

section \<open>Every operation keeps the invariant\<close>

lemma consumed_fst:
  assumes "consumed ns ns' idx idx'"
  obtains k where "map fst ns' = drop k (map fst ns)" "ob_key ` set ns' = ob_key ` set (drop k ns)"
    "\<forall>n \<in> set ns'. bookorder_ok (snd n)"
    "\<forall>i. idx' i = (if i \<in> (bo_id \<circ> snd) ` set (take k ns) then None else idx i)"
proof -
  obtain k where k: "map ob_key ns' = map ob_key (drop k ns)" "\<forall>n \<in> set ns'. bookorder_ok (snd n)"
    "\<forall>i. idx' i = (if i \<in> (bo_id \<circ> snd) ` set (take k ns) then None else idx i)"
    using assms unfolding consumed_def by blast
  have "map fst ns' = map fst (map ob_key ns')" "map fst (map ob_key (drop k ns)) = drop k (map fst ns)"
    by (simp_all add: ob_key_def drop_map comp_def)
  then have "map fst ns' = drop k (map fst ns)" using k(1) by simp
  moreover have "ob_key ` set ns' = ob_key ` set (drop k ns)"
    using arg_cong [OF k(1), of set] by (simp only: set_map)
  ultimately show thesis using that k(2,3) by blast
qed

lemma consumed_live:
  assumes "consumed ns ns' idx idx'" and "points_live idx (xs @ ns @ ys)"
  shows "points_live idx' (xs @ ns' @ ys)"
proof -
  obtain k where k: "ob_key ` set ns' = ob_key ` set (drop k ns)"
    "\<forall>i. idx' i = (if i \<in> (bo_id \<circ> snd) ` set (take k ns) then None else idx i)"
    using consumed_fst [OF assms(1)] by metis
  show ?thesis
  proof (rule points_live_clear [OF assms(2)])
    show "idx' i = (if i \<in> (bo_id \<circ> snd) ` set (take k ns) then None else idx i)" for i using k(2) by blast
    fix n assume n: "n \<in> set (xs @ ns @ ys)" "bo_id (snd n) \<notin> (bo_id \<circ> snd) ` set (take k ns)"
    have "n \<in> set ns \<Longrightarrow> n \<in> set (take k ns) \<union> set (drop k ns)" by (metis append_take_drop_id set_append)
    then have "n \<in> set xs \<union> set ys \<or> n \<in> set (drop k ns)" using n by auto
    then show "ob_key n \<in> ob_key ` set (xs @ ns' @ ys)" using k(1) by (auto simp: image_Un)
  qed
qed

lemma distinct_drop_mid: "distinct (xs @ ys @ zs) \<Longrightarrow> distinct (xs @ drop k ys @ zs)"
  using in_set_dropD [of _ k ys] by (auto simp: distinct_drop)

lemma consumed_distinct:
  assumes "consumed ns ns' idx idx'" and "distinct (map fst (xs @ ns @ ys))"
  shows "distinct (map fst (xs @ ns' @ ys))"
proof -
  obtain k where "map fst ns' = drop k (map fst ns)" using consumed_fst [OF assms(1)] by metis
  then show ?thesis using distinct_drop_mid [of "map fst xs" "map fst ns" "map fst ys" k] assms(2) by simp
qed

lemma consumed_bound:
  assumes "consumed ns ns' idx idx'" and "\<forall>n \<in> set ns. fst n < m"
  shows "\<forall>n \<in> set ns'. fst n < m"
proof -
  obtain k where "map fst ns' = drop k (map fst ns)" using consumed_fst [OF assms(1)] by metis
  then have "set (map fst ns') \<subseteq> set (map fst ns)" by (simp only: set_drop_subset)
  then have "fst ` set ns' \<subseteq> fst ` set ns" by simp
  then show ?thesis using assms(2) by fastforce
qed

lemma consumed_side:
  assumes "book_side_ok before s ls" and "consumed (nodes ls) (nodes ls') idx idx'"
    and "levels_ok before ob_price ls'"
  shows "book_side_ok before s ls'"
proof -
  have "bo_side (snd n) = s" if "n \<in> set (nodes ls')" for n
    using consumed_keys [OF assms(2)] that assms(1) by (force simp: book_side_ok_def ob_key_def)
  moreover have "\<forall>n \<in> set (nodes ls'). bookorder_ok (snd n)" using assms(2) by (auto simp: consumed_def)
  ultimately show ?thesis using assms(3) by (simp add: book_side_ok_def)
qed

lemma no_more_mono:
  "bo_side inc = Buy \<Longrightarrow> \<forall>p k. no_more_matches inc p \<longrightarrow> p < k \<longrightarrow> no_more_matches inc k"
  "bo_side inc = Sell \<Longrightarrow> \<forall>p k. no_more_matches inc p \<longrightarrow> k < p \<longrightarrow> no_more_matches inc k"
  by (auto simp: no_more_matches_def)

definition ob_opposite :: "Side \<Rightarrow> OrderBook \<Rightarrow> ob_node plevels" where
  "ob_opposite s b = (case s of Buy \<Rightarrow> ob_asks b | Sell \<Rightarrow> ob_bids b)"

lemma match_effect:
  assumes inv: "ob_inv b" and typed: "i64_ok (bo_qty inc)"
    and match: "matchIncoming inc ts_ns b = (trades, remaining, b')"
  shows "\<exists>kept fs. a_take (bo_qty inc) (filter (takes inc) (map ob_abs (nodes (ob_opposite (bo_side inc) b)))) =
        (remaining, kept, fs) \<and>
      map ob_abs (nodes (ob_opposite (bo_side inc) b')) =
        kept @ filter (\<lambda>x. \<not> takes inc x) (map ob_abs (nodes (ob_opposite (bo_side inc) b))) \<and>
      map trade_triple trades = map fill_triple fs"
    and "(case bo_side inc of Buy \<Rightarrow> ob_bids b' = ob_bids b | Sell \<Rightarrow> ob_asks b' = ob_asks b)"
    and "ob_inv b'"
proof -
  note invs = inv [unfolded ob_inv_def]
  have "(\<exists>kept fs. a_take (bo_qty inc) (filter (takes inc) (map ob_abs (nodes (ob_opposite (bo_side inc) b)))) =
        (remaining, kept, fs) \<and>
      map ob_abs (nodes (ob_opposite (bo_side inc) b')) =
        kept @ filter (\<lambda>x. \<not> takes inc x) (map ob_abs (nodes (ob_opposite (bo_side inc) b))) \<and>
      map trade_triple trades = map fill_triple fs) \<and>
    (case bo_side inc of Buy \<Rightarrow> ob_bids b' = ob_bids b | Sell \<Rightarrow> ob_asks b' = ob_asks b) \<and> ob_inv b'"
  proof (cases "bo_side inc")
    case Buy
    obtain asks' idx' where m: "match_levels (ob_symbol b) inc ts_ns (bo_qty inc) (ob_asks b) (ob_order_index b) =
        (remaining, asks', trades, idx')" and b': "b' = b\<lparr>ob_asks := asks', ob_order_index := idx'\<rparr>"
      using match Buy by (auto simp: matchIncoming_def split: prod.splits)
    have side: "book_side_ok (<) Sell (ob_asks b)" using invs by blast
    have ok: "levels_ok (<) ob_price (ob_asks b)" "\<forall>n \<in> set (nodes (ob_asks b)). bookorder_ok (snd n)"
      using side by (simp_all add: book_side_ok_def)
    note spec = match_levels_spec [OF ok no_more_mono(1) [OF Buy] typed m]
    have con: "consumed (nodes (ob_asks b)) (nodes asks') (ob_order_index b) idx'"
      and lv: "levels_ok (<) ob_price asks'" using spec by blast+
    have "ob_inv b'"
      using invs consumed_side [OF side con lv] consumed_live [OF con, of "nodes (ob_bids b)" "[]"]
        consumed_distinct [OF con, of "nodes (ob_bids b)" "[]"] consumed_bound [OF con, of "ob_next_node b"] b'
      by (auto simp: ob_inv_def ob_nodes_def)
    then show ?thesis using spec Buy b' by (simp add: ob_opposite_def)
  next
    case Sell
    obtain bids' idx' where m: "match_levels (ob_symbol b) inc ts_ns (bo_qty inc) (ob_bids b) (ob_order_index b) =
        (remaining, bids', trades, idx')" and b': "b' = b\<lparr>ob_bids := bids', ob_order_index := idx'\<rparr>"
      using match Sell by (auto simp: matchIncoming_def split: prod.splits)
    have side: "book_side_ok (>) Buy (ob_bids b)" using invs by blast
    have ok: "levels_ok (>) ob_price (ob_bids b)" "\<forall>n \<in> set (nodes (ob_bids b)). bookorder_ok (snd n)"
      using side by (simp_all add: book_side_ok_def)
    note spec = match_levels_spec [OF ok no_more_mono(2) [OF Sell] typed m]
    have con: "consumed (nodes (ob_bids b)) (nodes bids') (ob_order_index b) idx'"
      and lv: "levels_ok (>) ob_price bids'" using spec by blast+
    have "ob_inv b'"
      using invs consumed_side [OF side con lv] consumed_live [OF con, of "[]" "nodes (ob_asks b)"]
        consumed_distinct [OF con, of "[]" "nodes (ob_asks b)"] consumed_bound [OF con, of "ob_next_node b"] b'
      by (auto simp: ob_inv_def ob_nodes_def)
    then show ?thesis using spec Sell b' by (simp add: ob_opposite_def)
  qed
  then show "\<exists>kept fs. a_take (bo_qty inc) (filter (takes inc) (map ob_abs (nodes (ob_opposite (bo_side inc) b)))) =
        (remaining, kept, fs) \<and>
      map ob_abs (nodes (ob_opposite (bo_side inc) b')) =
        kept @ filter (\<lambda>x. \<not> takes inc x) (map ob_abs (nodes (ob_opposite (bo_side inc) b))) \<and>
      map trade_triple trades = map fill_triple fs"
    and "(case bo_side inc of Buy \<Rightarrow> ob_bids b' = ob_bids b | Sell \<Rightarrow> ob_asks b' = ob_asks b)"
    and "ob_inv b'" by blast+
qed

lemma addOrder_nodes:
  assumes "ob_inv b" and "bookorder_ok ord"
  shows "mset (ob_nodes (addOrder ord b)) = add_mset (ob_next_node b, ord) (mset (ob_nodes b))"
    and "ob_inv (addOrder ord b)"
proof -
  let ?n = "(ob_next_node b, ord)"
  note invs = assms(1) [unfolded ob_inv_def book_side_ok_def]
  have bid: "nodes (lv_at (>) (bo_price ord) (\<lambda>q. q @ [?n]) (ob_bids b)) =
      stable_insert (>) ob_price ?n (nodes (ob_bids b))"
    "levels_ok (>) ob_price (lv_at (>) (bo_price ord) (\<lambda>q. q @ [?n]) (ob_bids b))"
    using invs by (auto intro!: bid.nodes_lv_at bid.lv_at_ok)
  have ask: "nodes (lv_at (<) (bo_price ord) (\<lambda>q. q @ [?n]) (ob_asks b)) =
      stable_insert (<) ob_price ?n (nodes (ob_asks b))"
    "levels_ok (<) ob_price (lv_at (<) (bo_price ord) (\<lambda>q. q @ [?n]) (ob_asks b))"
    using invs by (auto intro!: ask.nodes_lv_at ask.lv_at_ok)
  show m: "mset (ob_nodes (addOrder ord b)) = add_mset ?n (mset (ob_nodes b))"
    by (simp add: addOrder_def ob_nodes_def Let_def bid ask split: Side.split)
  have "mset (map fst (ob_nodes (addOrder ord b))) = mset (map fst (?n # ob_nodes b))"
    using m by (simp add: mset_map)
  moreover have "distinct (map fst (?n # ob_nodes b))" using invs by auto
  ultimately have "distinct (map fst (ob_nodes (addOrder ord b)))" by (metis mset_eq_imp_distinct_iff)
  moreover have s: "set (ob_nodes (addOrder ord b)) = insert ?n (set (ob_nodes b))"
    using arg_cong [OF m, of set_mset] by simp
  moreover have "points_live (ob_order_index (addOrder ord b)) (ob_nodes (addOrder ord b))"
    using invs unfolding points_live_def s
    by (auto simp: addOrder_def Let_def ob_key_def split: Side.splits if_splits)
  moreover have "ob_next_node (addOrder ord b) = ob_next_node b + 1"
    by (simp add: addOrder_def Let_def split: Side.split)
  moreover have "book_side_ok (>) Buy (ob_bids (addOrder ord b)) \<and> book_side_ok (<) Sell (ob_asks (addOrder ord b))"
    using invs assms(2) bid ask
    by (auto simp: addOrder_def Let_def book_side_ok_def split: Side.split)
  ultimately show "ob_inv (addOrder ord b)" using invs by (auto simp: ob_inv_def less_Suc_eq)
qed

end
