(* ===== verification/SimpleBookProperties.thy ===== *)
theory SimpleBookProperties
  imports SimpleBook
begin

text \<open>
  The simple book as a system: cancelling, reachability, and its properties.  Identifiers may be
  reused; memory safety holds all the same, only the index then loses track of the older order.
\<close>

section \<open>Cancelling\<close>

lemma erase_from_level:
  assumes "levels_ok before ob_price ls" and "price_levels before" and "(h, r) \<in> set (nodes ls)"
    and "bo_price r = p" and "distinct (map fst (nodes ls))"
  obtains ls' where "erase_from h p ls = Some ls'" "levels_ok before ob_price ls'"
    "nodes ls' = filter (\<lambda>n. fst n \<noteq> h) (nodes ls)"
proof -
  note lv = assms(2)
  obtain q where q: "(p, q) \<in> set ls" "(h, r) \<in> set q" "lv_find p ls = Some q"
    using price_levels.node_level [OF lv assms(1,3)] assms(4) by auto
  have only: "\<forall>x \<in> set (nodes ls). \<not> fst x \<noteq> h \<longrightarrow> x \<in> set q"
    using assms(3,5) q(2) by (auto dest: eq_key_imp_eq_value)
  have mem: "h \<in> fst ` set q" using q(2) by force
  then show thesis
    using that [of "if filter (\<lambda>n. fst n \<noteq> h) q = [] then lv_erase p ls else lv_set p (filter (\<lambda>n. fst n \<noteq> h) q) ls"]
      q(3) price_levels.remove_ok [OF lv assms(1) q(1)] price_levels.nodes_remove [OF lv assms(1) q(1) only]
    by (simp add: erase_from_def Let_def)
qed

lemma bid_levels_locale: "price_levels ((>) :: int \<Rightarrow> int \<Rightarrow> bool)"
  and ask_levels_locale: "price_levels ((<) :: int \<Rightarrow> int \<Rightarrow> bool)"
  by unfold_locales (simp_all add: linorder_neq_iff disj_commute)

lemma filter_handles_live:
  assumes "points_live idx ns" and "distinct (map fst ns)" and "idx i = Some loc"
    and "ns' = filter (\<lambda>n. fst n \<noteq> bloc_it loc) ns"
  shows "points_live (idx(i := None)) ns'"
proof (rule points_live_clear [OF assms(1), of _ "{i}"])
  show "(idx(i := None)) j = (if j \<in> {i} then None else idx j)" for j by simp
  fix n assume n: "n \<in> set ns" "bo_id (snd n) \<notin> {i}"
  have "(bloc_it loc, i, bloc_side loc, bloc_price loc) \<in> ob_key ` set ns"
    using assms(1,3) by (auto simp: points_live_def)
  then obtain r where r: "(bloc_it loc, r) \<in> set ns" "bo_id r = i" by (auto simp: ob_key_def)
  have "fst n \<noteq> bloc_it loc"
  proof
    assume "fst n = bloc_it loc"
    then have "n = (bloc_it loc, r)" using n(1) r(1) assms(2) by (cases n) (auto dest: eq_key_imp_eq_value)
    then show False using n(2) r(2) by simp
  qed
  then show "ob_key n \<in> ob_key ` set ns'" using n(1) assms(4) by auto
qed

lemma cancelOrder_effect:
  assumes inv: "ob_inv b" and idx: "ob_order_index b i = Some loc"
  obtains r b' where "cancelOrder i b = Some (True, b')" "(bloc_it loc, r) \<in> set (ob_nodes b)" "bo_id r = i"
    "ob_nodes b' = filter (\<lambda>n. fst n \<noteq> bloc_it loc) (ob_nodes b)"
    "ob_order_index b' = (ob_order_index b)(i := None)" "ob_inv b'"
proof -
  note invs = inv [unfolded ob_inv_def book_side_ok_def ob_nodes_def]
  have live: "points_live (ob_order_index b) (ob_nodes b)" and dist: "distinct (map fst (ob_nodes b))"
    using inv by (simp_all add: ob_inv_def)
  have "(bloc_it loc, i, bloc_side loc, bloc_price loc) \<in> ob_key ` set (ob_nodes b)"
    using live idx by (auto simp: points_live_def)
  then obtain r where r: "(bloc_it loc, r) \<in> set (ob_nodes b)" "bo_id r = i" "bo_side r = bloc_side loc"
    "bo_price r = bloc_price loc" by (auto simp: ob_key_def)
  have disj: "fst ` set (nodes (ob_bids b)) \<inter> fst ` set (nodes (ob_asks b)) = {}"
    using invs by simp
  note live' = filter_handles_live [OF live dist idx refl]
  show thesis
  proof (cases "bloc_side loc")
    case Buy
    then have mem: "(bloc_it loc, r) \<in> set (nodes (ob_bids b))"
      using r invs by (auto simp: ob_nodes_def)
    have "levels_ok (>) ob_price (ob_bids b)" "distinct (map fst (nodes (ob_bids b)))" using invs by auto
    from erase_from_level [OF this(1) bid_levels_locale mem r(4) this(2)] obtain ls' where
      e: "erase_from (bloc_it loc) (bloc_price loc) (ob_bids b) = Some ls'" "levels_ok (>) ob_price ls'"
        "nodes ls' = filter (\<lambda>n. fst n \<noteq> bloc_it loc) (nodes (ob_bids b))" by metis
    have asks: "filter (\<lambda>n. fst n \<noteq> bloc_it loc) (nodes (ob_asks b)) = nodes (ob_asks b)"
      using mem disj by (force simp: filter_id_conv)
    let ?b = "b\<lparr>ob_bids := ls', ob_order_index := (ob_order_index b)(i := None)\<rparr>"
    have nodes: "ob_nodes ?b = filter (\<lambda>n. fst n \<noteq> bloc_it loc) (ob_nodes b)"
      using e(3) asks by (simp add: ob_nodes_def)
    have "cancelOrder i b = Some (True, ?b)" using idx Buy e(1) by (simp add: cancelOrder_def)
    moreover have "ob_inv ?b"
      unfolding ob_inv_def nodes using invs e live' dist
      by (auto simp: book_side_ok_def ob_nodes_def distinct_map_filter)
    ultimately show thesis using that r(1,2) nodes by simp
  next
    case Sell
    then have mem: "(bloc_it loc, r) \<in> set (nodes (ob_asks b))"
      using r invs by (auto simp: ob_nodes_def)
    have "levels_ok (<) ob_price (ob_asks b)" "distinct (map fst (nodes (ob_asks b)))" using invs by auto
    from erase_from_level [OF this(1) ask_levels_locale mem r(4) this(2)] obtain ls' where
      e: "erase_from (bloc_it loc) (bloc_price loc) (ob_asks b) = Some ls'" "levels_ok (<) ob_price ls'"
        "nodes ls' = filter (\<lambda>n. fst n \<noteq> bloc_it loc) (nodes (ob_asks b))" by metis
    have bids: "filter (\<lambda>n. fst n \<noteq> bloc_it loc) (nodes (ob_bids b)) = nodes (ob_bids b)"
      using mem disj by (force simp: filter_id_conv)
    let ?b = "b\<lparr>ob_asks := ls', ob_order_index := (ob_order_index b)(i := None)\<rparr>"
    have nodes: "ob_nodes ?b = filter (\<lambda>n. fst n \<noteq> bloc_it loc) (ob_nodes b)"
      using e(3) bids by (simp add: ob_nodes_def)
    have "cancelOrder i b = Some (True, ?b)" using idx Sell e(1) by (simp add: cancelOrder_def)
    moreover have "ob_inv ?b"
      unfolding ob_inv_def nodes using invs e live' dist
      by (auto simp: book_side_ok_def ob_nodes_def distinct_map_filter)
    ultimately show thesis using that r(1,2) nodes by simp
  qed
qed

section \<open>Reachable books\<close>

inductive ob_step :: "OrderBook \<Rightarrow> OrderBook \<Rightarrow> bool" where
  add: "bookorder_ok ord \<Longrightarrow> ob_step b (addOrder ord b)"
| cancel: "cancelOrder i b = Some (found, b') \<Longrightarrow> ob_step b b'"
| match: "i64_ok (bo_qty inc) \<Longrightarrow> matchIncoming inc ts_ns b = (trades, remaining, b') \<Longrightarrow> ob_step b b'"

lemma cancelOrder_inv:
  assumes "ob_inv b" and "cancelOrder i b = Some (found, b')"
  shows "ob_inv b'"
proof (cases "ob_order_index b i")
  case None
  then show ?thesis using assms by (simp add: cancelOrder_def)
next
  case (Some loc)
  from cancelOrder_effect [OF assms(1) Some] show ?thesis using assms(2) by (metis option.inject prod.inject)
qed

interpretation simple_book: invariant_system "\<lambda>b. \<exists>s. b = OrderBook_init s" ob_step ob_inv
proof
  show "ob_inv b" if "\<exists>s. b = OrderBook_init s" for b
    using that by (auto simp: ob_inv_def OrderBook_init_def book_side_ok_def ob_nodes_def points_live_def)
  show "ob_inv t" if "ob_inv s" "ob_step s t" for s t
    using that(2,1) by cases (auto intro: addOrder_nodes(2) cancelOrder_inv match_effect(3))
qed

abbreviation ob_reachable :: "OrderBook \<Rightarrow> bool" where
  "ob_reachable \<equiv> reachable (\<lambda>b. \<exists>s. b = OrderBook_init s) ob_step"

section \<open>The matching interface\<close>

definition ob_side :: "BookOrder \<Rightarrow> OrderBook \<Rightarrow> aorder list" where
  "ob_side inc b = map ob_abs (nodes (ob_opposite (bo_side inc) b))"

definition ob_execute :: "Timestamp \<Rightarrow> BookOrder \<Rightarrow> OrderBook \<Rightarrow> (OrderId \<times> Price \<times> Quantity) list \<times> Quantity \<times> OrderBook" where
  "ob_execute ts inc b = (case matchIncoming inc ts b of (trades, remaining, b') \<Rightarrow>
     (map trade_triple trades, remaining, b'))"

interpretation ob_matcher: priority_matcher ob_inv "\<lambda>inc. i64_ok (bo_qty inc)" bo_qty takes ob_side "ob_execute ts" for ts
proof
  fix b inc trades r b'
  assume inv: "ob_inv b"
  show "list_all (\<lambda>x. 0 < a_open x) (ob_side inc b)"
    using inv by (auto simp: ob_side_def ob_opposite_def ob_inv_def book_side_ok_def bookorder_ok_def list_all_iff
        split: Side.split)
  assume typed: "i64_ok (bo_qty inc)" and run: "ob_execute ts inc b = (trades, r, b')"
  obtain trs where m: "matchIncoming inc ts b = (trs, r, b')" and out: "trades = map trade_triple trs"
    using run by (auto simp: ob_execute_def split: prod.splits)
  show "ob_inv b' \<and> (\<exists>kept fs. a_take (bo_qty inc) (filter (takes inc) (ob_side inc b)) = (r, kept, fs) \<and>
      ob_side inc b' = kept @ filter (\<lambda>x. \<not> takes inc x) (ob_side inc b) \<and> trades = map fill_triple fs)"
    using match_effect(1,3) [OF inv typed m] out by (auto simp: ob_side_def)
qed

section \<open>Properties\<close>

definition demo_ord :: "OrderId \<Rightarrow> Side \<Rightarrow> Price \<Rightarrow> Quantity \<Rightarrow> BookOrder" where
  "demo_ord i s p q = \<lparr>bo_id = i, bo_trader = 9, bo_qty = q, bo_price = p, bo_side = s, bo_type = Limit,
     bo_ts_ns = 0\<rparr>"

definition demo_simple :: OrderBook where
  "demo_simple = addOrder (demo_ord 3 Sell 100 6) (addOrder (demo_ord 2 Sell 101 4)
     (addOrder (demo_ord 1 Sell 100 5) (OrderBook_init Symbol_default)))"

lemma demo_simple_reachable: "ob_reachable demo_simple"
proof -
  have ok: "bookorder_ok (demo_ord i Sell p q)" if "0 < q" "q < 100" for i p q
    using that by (simp add: demo_ord_def bookorder_ok_def i64_ok_def)
  have add: "ob_reachable b \<Longrightarrow> bookorder_ok ord \<Longrightarrow> ob_reachable (addOrder ord b)" for b ord
    by (rule reachable_step) (auto intro: ob_step.add)
  have "ob_reachable (OrderBook_init Symbol_default)" by (rule reachable_init) blast
  then show ?thesis unfolding demo_simple_def by (intro add ok) simp_all
qed

text \<open>C30: on every reachable simple book, matching an incoming order implements the abstract matching
  that the order-level book implements as well: the trades hit the acceptable orders of the other
  side in price-time order, the quantity left and the orders left are those of the specification,
  the own side is untouched.  For an order of non-negative quantity nothing is lost (traded and
  remaining quantity add up) and matching goes on while there is an acceptable order.\<close>

theorem simple_match_refines:
  assumes "ob_reachable b" and "i64_ok (bo_qty inc)" and "matchIncoming inc ts_ns b = (trades, remaining, b')"
  shows "(let side = map ob_abs (nodes (ob_opposite (bo_side inc) b));
              (r, kept, fs) = a_take (bo_qty inc) (filter (takes inc) side)
          in remaining = r \<and> map trade_triple trades = map fill_triple fs \<and>
             map ob_abs (nodes (ob_opposite (bo_side inc) b')) = kept @ filter (\<lambda>x. \<not> takes inc x) side) \<and>
    (case bo_side inc of Buy \<Rightarrow> ob_bids b' = ob_bids b | Sell \<Rightarrow> ob_asks b' = ob_asks b) \<and>
    (0 \<le> bo_qty inc \<longrightarrow> (\<Sum>t\<leftarrow>trades. t_qty t) + remaining = bo_qty inc \<and>
       (remaining = 0 \<or> list_all (\<lambda>x. \<not> takes inc x) (map ob_abs (nodes (ob_opposite (bo_side inc) b')))))"
proof -
  note inv = simple_book.reachable_inv [OF assms(1)]
  have run: "ob_execute ts_ns inc b = (map trade_triple trades, remaining, b')"
    using assms(3) by (simp add: ob_execute_def)
  have "(\<Sum>t\<leftarrow>trades. t_qty t) + remaining = bo_qty inc \<and>
       (remaining = 0 \<or> list_all (\<lambda>x. \<not> takes inc x) (map ob_abs (nodes (ob_opposite (bo_side inc) b'))))"
    if "0 \<le> bo_qty inc"
    using ob_matcher.conserves [OF inv assms(2) that run] ob_matcher.exhausts [OF inv assms(2) that run]
    by (simp add: trade_triple_def comp_def ob_side_def)
  then show ?thesis using match_effect(1,2) [OF inv assms(2,3)] by (auto simp: Let_def)
qed

theorem simple_match_refines_witness:
  "map trade_triple (fst (matchIncoming (demo_ord 7 Buy 100 8) 0 demo_simple)) = [(1, 100, 5), (3, 100, 3)] \<and>
   fst (snd (matchIncoming (demo_ord 7 Buy 100 8) 0 demo_simple)) = 0"
proof -
  obtain trades remaining b' where m: "matchIncoming (demo_ord 7 Buy 100 8) 0 demo_simple = (trades, remaining, b')"
    by (metis prod_cases3)
  have "i64_ok (bo_qty (demo_ord 7 Buy 100 8))" by (simp add: demo_ord_def i64_ok_def)
  note r = simple_match_refines [OF demo_simple_reachable this m]
  have "(case a_take (bo_qty (demo_ord 7 Buy 100 8)) (filter (takes (demo_ord 7 Buy 100 8))
      (map ob_abs (nodes (ob_opposite (bo_side (demo_ord 7 Buy 100 8)) demo_simple))))
    of (r, kept, fs) \<Rightarrow> r = 0 \<and> map fill_triple fs = [(1, 100, 5), (3, 100, 3)])" by code_simp
  then show ?thesis using r m by (auto simp: Let_def)
qed

text \<open>Cancelling on the simple book never erases a dangling iterator, even when identifiers were
  reused.  It reports success exactly when the index knows the identifier, and then removes exactly
  one resting order, with that identifier.\<close>

lemma simple_cancel_safe:
  assumes "ob_reachable b"
  shows "\<exists>found b'. cancelOrder i b = Some (found, b') \<and> (found \<longleftrightarrow> ob_order_index b i \<noteq> None) \<and>
    ob_order_index b' i = None \<and>
    (if found then \<exists>n. bo_id (snd n) = i \<and> mset (ob_nodes b) = add_mset n (mset (ob_nodes b')) else b' = b)"
proof (cases "ob_order_index b i")
  case None
  then show ?thesis by (intro exI [of _ False] exI [of _ b]) (simp add: cancelOrder_def)
next
  case (Some loc)
  have inv: "ob_inv b" by (rule simple_book.reachable_inv [OF assms])
  from cancelOrder_effect [OF inv Some] obtain r b' where
    c: "cancelOrder i b = Some (True, b')" "(bloc_it loc, r) \<in> set (ob_nodes b)" "bo_id r = i"
      "ob_nodes b' = filter (\<lambda>n. fst n \<noteq> bloc_it loc) (ob_nodes b)"
      "ob_order_index b' = (ob_order_index b)(i := None)" by metis
  have dist: "distinct (map fst (ob_nodes b))" using inv by (simp add: ob_inv_def)
  have "(fst n \<noteq> bloc_it loc) = (n \<noteq> (bloc_it loc, r))" if "n \<in> set (ob_nodes b)" for n
    using that c(2) eq_key_imp_eq_value [OF dist, of "bloc_it loc" "snd n" r] by (metis fst_conv prod.collapse)
  then have "filter (\<lambda>n. fst n \<noteq> bloc_it loc) (ob_nodes b) = filter (\<lambda>n. n \<noteq> (bloc_it loc, r)) (ob_nodes b)"
    by (rule filter_cong [OF refl])
  also have "\<dots> = remove1 (bloc_it loc, r) (ob_nodes b)"
    using distinct_remove1_removeAll [of "ob_nodes b"] dist
    by (simp add: distinct_map removeAll_filter_not_eq eq_commute)
  finally have "mset (ob_nodes b) = add_mset (bloc_it loc, r) (mset (ob_nodes b'))"
    using c(2,4) by simp
  moreover have "bo_id (snd (bloc_it loc, r)) = i" using c(3) by simp
  ultimately show ?thesis using c(1,5) Some by (metis fun_upd_same option.distinct(1))
qed

lemma simple_cancel_safe_witness:
  "\<exists>b' n. cancelOrder 1 demo_simple = Some (True, b') \<and> bo_id (snd n) = 1 \<and>
     mset (ob_nodes demo_simple) = add_mset n (mset (ob_nodes b'))"
proof -
  have "ob_order_index demo_simple 1 \<noteq> None" by code_simp
  then show ?thesis using simple_cancel_safe [OF demo_simple_reachable, of 1] by auto
qed

text \<open>The simple book does not check for duplicates.  Two orders with the same identifier can rest
  at once; the first cancel removes the newer one, the second reports failure, and the older order
  stays in the book where no cancel can reach it.\<close>

lemma duplicate_uncancellable:
  "let b = addOrder (demo_ord 1 Sell 101 3) (addOrder (demo_ord 1 Sell 100 5) (OrderBook_init Symbol_default));
       (found, b1) = the (cancelOrder 1 b); (again, b2) = the (cancelOrder 1 b1)
   in found \<and> \<not> again \<and> map (\<lambda>n. (bo_id (snd n), ob_price n)) (ob_nodes b2) = [(1, 100)]"
  by code_simp

end
