(* ===== verification/ObjectPool.thy ===== *)
theory ObjectPool
  imports Prelude
begin

text \<open>
  \<^verbatim>\<open>src/common/memory_pool.hpp\<close>: the fixed-capacity object pool with an intrusive free list.

  A pointer is the index of its slot, and the object a slot holds is an optional value.  First the
  operations run by one thread, then their atomic accesses as the steps of several threads.  A
  failed \<^verbatim>\<open>assert\<close> is \<^const>\<open>None\<close>.  The capacity is the length of the slot list; indices are stored in 32
  bits, so it has to be below \<^verbatim>\<open>2^32\<close>, which the source does not check.
\<close>

section \<open>The pool\<close>

record 'a Slot =
  sl_storage :: "'a option"
  sl_next_free :: "32 word"
  sl_in_use :: bool

record 'a MemoryPool =
  mp_slots :: "'a Slot list"
  mp_free_head :: "32 word"
  mp_allocated :: "64 word"

definition MemoryPool_init :: "nat \<Rightarrow> 'a MemoryPool" where
  "MemoryPool_init capacity = \<lparr>mp_slots = map (\<lambda>i. \<lparr>sl_storage = None, sl_next_free = of_nat (i + 1),
     sl_in_use = False\<rparr>) [0..<capacity], mp_free_head = 0, mp_allocated = 0\<rparr>"

definition allocated :: "'a MemoryPool \<Rightarrow> 64 word" where
  "allocated p = mp_allocated p"

definition mp_capacity :: "'a MemoryPool \<Rightarrow> nat" where
  "mp_capacity p = length (mp_slots p)"

definition mp_available :: "'a MemoryPool \<Rightarrow> 64 word" where
  "mp_available p = of_nat (mp_capacity p) - mp_allocated p"

text \<open>One pass of the loop by a thread that is not interrupted: the exchange succeeds.\<close>

definition mp_allocate :: "'a \<Rightarrow> 'a MemoryPool \<Rightarrow> nat option \<times> 'a MemoryPool" where
  "mp_allocate v p =
     (let head = unat (mp_free_head p)
      in if head \<ge> mp_capacity p then (None, p)
         else (let slot = mp_slots p ! head
               in (Some head, p\<lparr>mp_free_head := sl_next_free slot,
                     mp_slots := (mp_slots p)[head := slot\<lparr>sl_in_use := True, sl_storage := Some v\<rparr>],
                     mp_allocated := mp_allocated p + 1\<rparr>)))"

definition mp_deallocate :: "nat \<Rightarrow> 'a MemoryPool \<Rightarrow> 'a MemoryPool option" where
  "mp_deallocate idx p =
     (if idx < mp_capacity p \<and> sl_in_use (mp_slots p ! idx)
      then Some (p\<lparr>mp_slots := (mp_slots p)[idx := (mp_slots p ! idx)\<lparr>sl_in_use := False, sl_storage := None,
                     sl_next_free := mp_free_head p\<rparr>],
                   mp_free_head := of_nat idx, mp_allocated := mp_allocated p - 1\<rparr>)
      else None)"

text \<open>The entry of \<^verbatim>\<open>deallocate\<close>: a null pointer is ignored.\<close>

definition mp_deallocate_ptr :: "nat option \<Rightarrow> 'a MemoryPool \<Rightarrow> 'a MemoryPool option" where
  "mp_deallocate_ptr ptr p = (case ptr of None \<Rightarrow> Some p | Some idx \<Rightarrow> mp_deallocate idx p)"

text \<open>The destructor runs the destructor of every object in use, in the order of the slots.  The result
  lists these objects; treating storage without an object as one is undefined.  For a type with a
  trivial destructor the code leaves the loop out, which makes no difference.\<close>

fun destroy_slots :: "'a Slot list \<Rightarrow> 'a list option" where
  "destroy_slots [] = Some []"
| "destroy_slots (slot # slots) =
     (if sl_in_use slot
      then (case sl_storage slot of None \<Rightarrow> None | Some obj \<Rightarrow> map_option (Cons obj) (destroy_slots slots))
      else destroy_slots slots)"

definition MemoryPool_destroy :: "'a MemoryPool \<Rightarrow> 'a list option" where
  "MemoryPool_destroy p = destroy_slots (mp_slots p)"

section \<open>The free list\<close>

text \<open>The indices from a head along the links, up to one beyond the capacity.\<close>

fun free_chain :: "'a Slot list \<Rightarrow> nat \<Rightarrow> nat list \<Rightarrow> bool" where
  "free_chain slots head [] \<longleftrightarrow> length slots \<le> head"
| "free_chain slots head (i # rest) \<longleftrightarrow>
     head = i \<and> i < length slots \<and> free_chain slots (unat (sl_next_free (slots ! i))) rest"

definition used_slots :: "'a MemoryPool \<Rightarrow> nat set" where
  "used_slots p = {i. i < mp_capacity p \<and> sl_in_use (mp_slots p ! i)}"

definition mp_inv :: "'a MemoryPool \<Rightarrow> bool" where
  "mp_inv p \<longleftrightarrow> mp_capacity p < 2 ^ 32 \<and>
     (\<exists>free. free_chain (mp_slots p) (unat (mp_free_head p)) free \<and> distinct free \<and>
        set free = {i. i < mp_capacity p} - used_slots p) \<and>
     mp_allocated p = of_nat (card (used_slots p))"

lemma chain_update:
  "i \<notin> set free \<Longrightarrow> free_chain (slots[i := s]) head free = free_chain slots head free"
  by (induction slots head free rule: free_chain.induct) auto

lemma used_finite [simp]: "finite (used_slots p)"
  by (simp add: used_slots_def)

lemma init_chain:
  assumes "n \<le> m" and "m < 2 ^ 32"
  shows "free_chain (mp_slots (MemoryPool_init m :: 'a MemoryPool)) n [n..<m]"
  using assms(1)
proof (induction "m - n" arbitrary: n)
  case 0
  then show ?case by (simp add: MemoryPool_init_def)
next
  case (Suc k)
  then have less: "n < m" by simp
  have "unat (of_nat (Suc n) :: 32 word) = Suc n"
    using less assms(2) by (simp add: unat_of_nat del: of_nat_Suc)
  moreover have "free_chain (mp_slots (MemoryPool_init m :: 'a MemoryPool)) (Suc n) [Suc n..<m]"
    using Suc less by simp
  ultimately show ?case using less
    by (subst upt_conv_Cons [OF less]) (simp add: MemoryPool_init_def)
qed

lemma mp_init_inv: "m < 2 ^ 32 \<Longrightarrow> mp_inv (MemoryPool_init m)"
proof -
  assume m: "m < 2 ^ 32"
  have "used_slots (MemoryPool_init m :: 'a MemoryPool) = {}"
    by (auto simp: used_slots_def mp_capacity_def MemoryPool_init_def)
  then show "mp_inv (MemoryPool_init m :: 'a MemoryPool)"
    using init_chain [of 0 m, where 'a = 'a] m
    by (auto simp: mp_inv_def mp_capacity_def MemoryPool_init_def intro!: exI [of _ "[0..<m]"])
qed

lemma mp_allocate_effect:
  assumes inv: "mp_inv p" and a: "mp_allocate v p = (r, p')"
  shows "case r of None \<Rightarrow> p' = p \<and> used_slots p = {i. i < mp_capacity p}
    | Some i \<Rightarrow> i < mp_capacity p \<and> i \<notin> used_slots p \<and> used_slots p' = insert i (used_slots p) \<and>
        sl_storage (mp_slots p' ! i) = Some v \<and> mp_capacity p' = mp_capacity p \<and>
        (\<forall>j. j \<noteq> i \<longrightarrow> mp_slots p' ! j = mp_slots p ! j)"
    and "mp_inv p'"
proof -
  obtain free where fr: "free_chain (mp_slots p) (unat (mp_free_head p)) free" "distinct free"
    "set free = {i. i < mp_capacity p} - used_slots p" using inv by (auto simp: mp_inv_def)
  have "(case r of None \<Rightarrow> p' = p \<and> used_slots p = {i. i < mp_capacity p}
    | Some i \<Rightarrow> i < mp_capacity p \<and> i \<notin> used_slots p \<and> used_slots p' = insert i (used_slots p) \<and>
        sl_storage (mp_slots p' ! i) = Some v \<and> mp_capacity p' = mp_capacity p \<and>
        (\<forall>j. j \<noteq> i \<longrightarrow> mp_slots p' ! j = mp_slots p ! j)) \<and> mp_inv p'"
  proof (cases free)
    case Nil
    then have "r = None" "p' = p" using a fr(1) by (auto simp: mp_allocate_def mp_capacity_def)
    moreover have "used_slots p = {i. i < mp_capacity p}" using fr(3) Nil by (auto simp: used_slots_def)
    ultimately show ?thesis using inv by simp
  next
    case (Cons i rest)
    let ?slot = "mp_slots p ! i"
    have i: "unat (mp_free_head p) = i" "i < mp_capacity p" "i \<notin> used_slots p"
      using fr Cons by (auto simp: mp_capacity_def)
    then have r: "r = Some i" and p': "p' = p\<lparr>mp_free_head := sl_next_free ?slot,
        mp_slots := (mp_slots p)[i := ?slot\<lparr>sl_in_use := True, sl_storage := Some v\<rparr>],
        mp_allocated := mp_allocated p + 1\<rparr>"
      using a by (auto simp: mp_allocate_def Let_def)
    have used: "used_slots p' = insert i (used_slots p)"
      using i p' by (auto simp: used_slots_def mp_capacity_def nth_list_update split: if_splits)
    have "free_chain (mp_slots p') (unat (mp_free_head p')) rest"
      using fr(1,2) Cons p' by (simp add: chain_update)
    moreover have "set rest = {i. i < mp_capacity p'} - used_slots p'"
      using fr(2,3) Cons used p' by (auto simp: mp_capacity_def)
    moreover have "mp_allocated p' = of_nat (card (used_slots p'))"
      using inv i(3) used p' by (simp add: mp_inv_def)
    moreover have "mp_capacity p' < 2 ^ 32" using inv p' by (simp add: mp_inv_def mp_capacity_def)
    ultimately have "mp_inv p'" using fr(2) Cons unfolding mp_inv_def by auto
    then show ?thesis using r i used p' by (simp add: mp_capacity_def)
  qed
  then show "case r of None \<Rightarrow> p' = p \<and> used_slots p = {i. i < mp_capacity p}
    | Some i \<Rightarrow> i < mp_capacity p \<and> i \<notin> used_slots p \<and> used_slots p' = insert i (used_slots p) \<and>
        sl_storage (mp_slots p' ! i) = Some v \<and> mp_capacity p' = mp_capacity p \<and>
        (\<forall>j. j \<noteq> i \<longrightarrow> mp_slots p' ! j = mp_slots p ! j)"
    and "mp_inv p'" by blast+
qed

lemma mp_deallocate_effect:
  assumes inv: "mp_inv p" and d: "mp_deallocate i p = Some p'"
  shows "i \<in> used_slots p" "used_slots p' = used_slots p - {i}" "unat (mp_free_head p') = i" "mp_inv p'"
    "mp_capacity p' = mp_capacity p"
proof -
  obtain free where fr: "free_chain (mp_slots p) (unat (mp_free_head p)) free" "distinct free"
    "set free = {i. i < mp_capacity p} - used_slots p" using inv by (auto simp: mp_inv_def)
  let ?slot = "(mp_slots p ! i)\<lparr>sl_in_use := False, sl_storage := None, sl_next_free := mp_free_head p\<rparr>"
  have i: "i < mp_capacity p" "i \<in> used_slots p" and p': "p' = p\<lparr>mp_slots := (mp_slots p)[i := ?slot],
      mp_free_head := of_nat i, mp_allocated := mp_allocated p - 1\<rparr>"
    using d by (auto simp: mp_deallocate_def used_slots_def split: if_splits)
  show "i \<in> used_slots p" by (rule i(2))
  show cap: "mp_capacity p' = mp_capacity p" using p' by (simp add: mp_capacity_def)
  show used: "used_slots p' = used_slots p - {i}"
    using i p' by (auto simp: used_slots_def mp_capacity_def nth_list_update split: if_splits)
  show head: "unat (mp_free_head p') = i"
    using i(1) inv p' by (simp add: mp_inv_def unat_of_nat)
  have fresh: "i \<notin> set free" using fr(3) i(2) by simp
  have "free_chain (mp_slots p') (unat (mp_free_head p')) (i # free)"
    using fr(1) fresh i(1) head p' by (simp add: chain_update mp_capacity_def)
  moreover have "set (i # free) = {i. i < mp_capacity p'} - used_slots p'"
    using fr(3) used cap i by auto
  moreover have "mp_allocated p' = of_nat (card (used_slots p'))"
  proof -
    have "card (used_slots p) = Suc (card (used_slots p'))"
      using i(2) used by (metis card_Suc_Diff1 used_finite)
    moreover have "mp_allocated p' = mp_allocated p - 1" using p' by simp
    moreover have "mp_allocated p = of_nat (card (used_slots p))" using inv by (simp add: mp_inv_def)
    ultimately show ?thesis by simp
  qed
  moreover have "mp_capacity p' < 2 ^ 32" using inv cap by (simp add: mp_inv_def)
  ultimately show "mp_inv p'" using fr(2) fresh unfolding mp_inv_def by (meson distinct.simps(2))
qed

inductive mp_step :: "'a MemoryPool \<Rightarrow> 'a MemoryPool \<Rightarrow> bool" where
  allocate: "mp_allocate v p = (r, p') \<Longrightarrow> mp_step p p'"
| deallocate: "mp_deallocate i p = Some p' \<Longrightarrow> mp_step p p'"

interpretation pool: invariant_system "\<lambda>p. \<exists>m < 2 ^ 32. p = MemoryPool_init m" mp_step mp_inv
proof
  show "mp_inv s" if "\<exists>m < 2 ^ 32. s = MemoryPool_init m" for s :: "'a MemoryPool"
    using that mp_init_inv by blast
  show "mp_inv t" if "mp_inv s" "mp_step s t" for s t :: "'a MemoryPool"
    using that(2,1) by cases (auto intro: mp_allocate_effect(2) mp_deallocate_effect(4))
qed

abbreviation mp_reachable :: "'a MemoryPool \<Rightarrow> bool" where
  "mp_reachable \<equiv> reachable (\<lambda>p. \<exists>m < 2 ^ 32. p = MemoryPool_init m) mp_step"

text \<open>A slot in use holds an object, so the destructor meets nothing else.\<close>

definition slots_hold :: "'a MemoryPool \<Rightarrow> bool" where
  "slots_hold p \<longleftrightarrow> (\<forall>slot \<in> set (mp_slots p). sl_in_use slot \<longrightarrow> sl_storage slot \<noteq> None)"

interpretation held: invariant_system "\<lambda>p. \<exists>m < 2 ^ 32. p = MemoryPool_init m" mp_step slots_hold
proof
  show "slots_hold s" if "\<exists>m < 2 ^ 32. s = MemoryPool_init m" for s :: "'a MemoryPool"
    using that by (auto simp: slots_hold_def MemoryPool_init_def)
  show "slots_hold t" if "slots_hold s" "mp_step s t" for s t :: "'a MemoryPool"
    using that(2,1)
  proof (induction rule: mp_step.induct)
    case (allocate v p r p')
    then show ?case
      by (auto simp: mp_allocate_def slots_hold_def Let_def dest!: set_update_subset_insert [THEN subsetD]
          split: if_splits)
  next
    case (deallocate i p p')
    then show ?case
      by (auto simp: mp_deallocate_def slots_hold_def dest!: set_update_subset_insert [THEN subsetD]
          split: if_splits)
  qed
qed

lemma destroy_slots_objects:
  "\<forall>slot \<in> set slots. sl_in_use slot \<longrightarrow> sl_storage slot \<noteq> None \<Longrightarrow>
   map_option (map Some) (destroy_slots slots) = Some (map sl_storage (filter sl_in_use slots))"
proof (induction slots)
  case (Cons slot slots)
  then show ?case by (auto simp: option.map_comp comp_def)
qed simp

lemma destroyed_objects:
  assumes "slots_hold p"
  shows "map_option (map Some) (MemoryPool_destroy p) =
    Some (map (\<lambda>i. sl_storage (mp_slots p ! i)) (filter (\<lambda>i. i \<in> used_slots p) [0..<mp_capacity p]))"
proof -
  have "filter (\<lambda>i. i \<in> used_slots p) [0..<mp_capacity p] = filter (sl_in_use \<circ> (!) (mp_slots p)) [0..<mp_capacity p]"
    by (rule filter_cong) (auto simp: used_slots_def)
  moreover have "filter sl_in_use (map ((!) (mp_slots p)) [0..<mp_capacity p]) = filter sl_in_use (mp_slots p)"
    by (simp add: mp_capacity_def map_nth)
  ultimately have "map (\<lambda>i. sl_storage (mp_slots p ! i)) (filter (\<lambda>i. i \<in> used_slots p) [0..<mp_capacity p]) =
      map sl_storage (filter sl_in_use (mp_slots p))"
    by (metis (no_types, lifting) filter_map map_map comp_apply map_eq_conv)
  then show ?thesis using destroy_slots_objects [of "mp_slots p"] assms by (simp add: MemoryPool_destroy_def slots_hold_def)
qed

section \<open>Several threads\<close>

text \<open>
  The program points of the two operations, between their accesses to \<^verbatim>\<open>free_head_\<close> and to the link
  of a slot.  Setting the flag, counting and constructing after a successful exchange touch nothing
  another thread reads in the meantime and are one step.  \<open>sys_owned\<close> lists the slots that clients
  hold, once per time they were handed out.
\<close>

datatype 'a mp_pc =
  Idle | ALoaded 'a "32 word" | ARead 'a "32 word" "32 word" | ATaken 'a "32 word"
| DFreed nat | DLoaded nat "32 word" | DLinked nat "32 word" | DPushed

record 'a mp_sys =
  sys_pool :: "'a MemoryPool"
  sys_pc :: "nat \<Rightarrow> 'a mp_pc"
  sys_owned :: "nat list"

text \<open>\<open>Spurious\<close>: the weak exchange fails although the head is the expected one.\<close>

datatype 'a mp_act = StartAllocate nat 'a | StartDeallocate nat nat | Run nat | Spurious nat

definition mp_sys_init :: "nat \<Rightarrow> 'a mp_sys" where
  "mp_sys_init m = \<lparr>sys_pool = MemoryPool_init m, sys_pc = (\<lambda>_. Idle), sys_owned = []\<rparr>"

definition goto :: "nat \<Rightarrow> 'a mp_pc \<Rightarrow> 'a mp_sys \<Rightarrow> 'a mp_sys" where
  "goto t pc s = s\<lparr>sys_pc := (sys_pc s)(t := pc)\<rparr>"

definition mp_run_step :: "nat \<Rightarrow> 'a mp_sys \<Rightarrow> 'a mp_sys option" where
  "mp_run_step t s =
     (let p = sys_pool s in
      case sys_pc s t of
        Idle \<Rightarrow> None
      | ALoaded v head \<Rightarrow>
          if unat head \<ge> mp_capacity p then Some (goto t Idle s)
          else Some (goto t (ARead v head (sl_next_free (mp_slots p ! unat head))) s)
      | ARead v head nxt \<Rightarrow>
          if mp_free_head p = head
          then Some (goto t (ATaken v head) (s\<lparr>sys_pool := p\<lparr>mp_free_head := nxt\<rparr>\<rparr>))
          else Some (goto t (ALoaded v (mp_free_head p)) s)
      | ATaken v head \<Rightarrow>
          Some (goto t Idle (s\<lparr>sys_owned := unat head # sys_owned s,
            sys_pool := p\<lparr>mp_allocated := mp_allocated p + 1,
              mp_slots := (mp_slots p)[unat head := (mp_slots p ! unat head)\<lparr>sl_in_use := True, sl_storage := Some v\<rparr>]\<rparr>\<rparr>))
      | DFreed idx \<Rightarrow> Some (goto t (DLoaded idx (mp_free_head p)) s)
      | DLoaded idx head \<Rightarrow>
          Some (goto t (DLinked idx head) (s\<lparr>sys_pool := p\<lparr>mp_slots :=
            (mp_slots p)[idx := (mp_slots p ! idx)\<lparr>sl_next_free := head\<rparr>]\<rparr>\<rparr>))
      | DLinked idx head \<Rightarrow>
          if mp_free_head p = head
          then Some (goto t DPushed (s\<lparr>sys_pool := p\<lparr>mp_free_head := of_nat idx\<rparr>\<rparr>))
          else Some (goto t (DLoaded idx (mp_free_head p)) s)
      | DPushed \<Rightarrow> Some (goto t Idle (s\<lparr>sys_pool := p\<lparr>mp_allocated := mp_allocated p - 1\<rparr>\<rparr>)))"

fun mp_perform :: "'a mp_act \<Rightarrow> 'a mp_sys \<Rightarrow> 'a mp_sys option" where
  "mp_perform (StartAllocate t v) s =
     (if sys_pc s t = Idle then Some (goto t (ALoaded v (mp_free_head (sys_pool s))) s) else None)"
| "mp_perform (StartDeallocate t idx) s =
     (let p = sys_pool s in
      if sys_pc s t = Idle \<and> idx \<in> set (sys_owned s) \<and> idx < mp_capacity p \<and> sl_in_use (mp_slots p ! idx)
      then Some (goto t (DFreed idx) (s\<lparr>sys_owned := remove1 idx (sys_owned s),
             sys_pool := p\<lparr>mp_slots := (mp_slots p)[idx := (mp_slots p ! idx)\<lparr>sl_in_use := False, sl_storage := None\<rparr>]\<rparr>\<rparr>))
      else None)"
| "mp_perform (Run t) s = mp_run_step t s"
| "mp_perform (Spurious t) s =
     (case sys_pc s t of
        ARead v head nxt \<Rightarrow> Some (goto t (ALoaded v (mp_free_head (sys_pool s))) s)
      | DLinked idx head \<Rightarrow> Some (goto t (DLoaded idx (mp_free_head (sys_pool s))) s)
      | _ \<Rightarrow> None)"

fun mp_schedule :: "'a mp_act list \<Rightarrow> 'a mp_sys \<Rightarrow> 'a mp_sys option" where
  "mp_schedule [] s = Some s"
| "mp_schedule (a # acts) s = (case mp_perform a s of None \<Rightarrow> None | Some s \<Rightarrow> mp_schedule acts s)"

section \<open>Properties\<close>

text \<open>C32: used by one thread, the pool hands out a slot only when no client holds it, leaves every other
  slot alone, constructs the object in it, and returns null exactly when all slots are in use; the
  counter is the number of slots in use, and the destructor of the pool would destroy the objects in
  exactly these slots, each once.\<close>

theorem pool_exclusive:
  assumes "mp_reachable p" and "mp_allocate v p = (r, p')"
  shows "(case r of
        None \<Rightarrow> p' = p \<and> used_slots p = {i. i < mp_capacity p}
      | Some i \<Rightarrow> i < mp_capacity p \<and> i \<notin> used_slots p \<and> used_slots p' = insert i (used_slots p) \<and>
          sl_storage (mp_slots p' ! i) = Some v \<and> mp_capacity p' = mp_capacity p \<and>
          (\<forall>j. j \<noteq> i \<longrightarrow> mp_slots p' ! j = mp_slots p ! j)) \<and>
    mp_allocated p = of_nat (card (used_slots p)) \<and>
    map_option (map Some) (MemoryPool_destroy p) =
      Some (map (\<lambda>i. sl_storage (mp_slots p ! i)) (filter (\<lambda>i. i \<in> used_slots p) [0..<mp_capacity p]))"
proof -
  have inv: "mp_inv p" using assms(1) by (rule pool.reachable_inv)
  then have "mp_allocated p = of_nat (card (used_slots p))" by (simp add: mp_inv_def)
  with mp_allocate_effect(1) [OF inv assms(2)] destroyed_objects [OF held.reachable_inv [OF assms(1)]]
  show ?thesis by blast
qed

definition demo_pool :: "nat MemoryPool" where
  "demo_pool = snd (mp_allocate 7 (MemoryPool_init 2))"

lemma demo_pool_reachable: "mp_reachable demo_pool"
proof (rule reachable_step)
  show "mp_reachable (MemoryPool_init 2)" by (rule reachable_init) (intro exI [of _ 2], simp)
  show "mp_step (MemoryPool_init 2) demo_pool"
    unfolding demo_pool_def by (rule mp_step.allocate) (rule prod.collapse [symmetric])
qed

theorem pool_exclusive_witness:
  "fst (mp_allocate 8 demo_pool) = Some 1 \<and> 1 \<notin> used_slots demo_pool"
proof -
  obtain r p' where a: "mp_allocate 8 demo_pool = (r, p')" by (metis surj_pair)
  have "fst (mp_allocate 8 demo_pool) = Some 1" by code_simp
  then show ?thesis using pool_exclusive [OF demo_pool_reachable a] a by simp
qed

text \<open>Giving a slot back makes it the next one handed out: on a reachable pool, freeing a slot in
  use succeeds and the following allocation returns that slot, leaving the same slots in use and
  the same count as before.\<close>

lemma pool_roundtrip:
  assumes "mp_reachable p" and "i \<in> used_slots p"
  shows "\<exists>p1 p2. mp_deallocate i p = Some p1 \<and> mp_allocate v p1 = (Some i, p2) \<and>
    used_slots p2 = used_slots p \<and> mp_free_head p2 = mp_free_head p \<and> mp_allocated p2 = mp_allocated p"
proof -
  have inv: "mp_inv p" using assms(1) by (rule pool.reachable_inv)
  obtain p1 where d: "mp_deallocate i p = Some p1"
    using assms(2) by (auto simp: mp_deallocate_def used_slots_def)
  note de = mp_deallocate_effect [OF inv d]
  have i: "i < mp_capacity p" using assms(2) by (simp add: used_slots_def)
  obtain r p2 where a: "mp_allocate v p1 = (r, p2)" by (metis surj_pair)
  have r: "r = Some i" using a de(3,5) i by (auto simp: mp_allocate_def Let_def split: if_splits)
  have "used_slots p2 = used_slots p" using mp_allocate_effect(1) [OF de(4) a] r de(2) assms(2) by auto
  moreover have "mp_free_head p2 = sl_next_free (mp_slots p1 ! i)" "mp_allocated p2 = mp_allocated p1 + 1"
    using a de(3,5) i by (auto simp: mp_allocate_def Let_def)
  moreover have "sl_next_free (mp_slots p1 ! i) = mp_free_head p" "mp_allocated p1 = mp_allocated p - 1"
    using d i by (auto simp: mp_deallocate_def mp_capacity_def split: if_splits)
  ultimately show ?thesis using d a r by simp
qed

lemma pool_roundtrip_witness:
  "\<exists>p1 p2. mp_deallocate 0 demo_pool = Some p1 \<and> mp_allocate 9 p1 = (Some 0, p2) \<and>
     mp_allocated p2 = mp_allocated demo_pool"
proof -
  have "0 < mp_capacity demo_pool \<and> sl_in_use (mp_slots demo_pool ! 0)" by code_simp
  then have "0 \<in> used_slots demo_pool" by (simp add: used_slots_def)
  from pool_roundtrip [OF demo_pool_reachable this, of 9] show ?thesis by blast
qed

text \<open>With two threads the pool can hand out a slot twice.  Thread 0 reads the head (slot 0) and its
  successor (slot 1); thread 1 allocates slots 0 and 1 and frees slot 0; the exchange of thread 0
  still succeeds and puts slot 1, which is in use, at the head; the next allocation returns it a
  second time.\<close>

lemma pool_aba:
  "map_option (\<lambda>s. sys_owned s) (mp_schedule
     ([StartAllocate 0 (), Run 0] @
      [StartAllocate 1 (), Run 1, Run 1, Run 1] @ [StartAllocate 1 (), Run 1, Run 1, Run 1] @
      [StartDeallocate 1 0, Run 1, Run 1, Run 1, Run 1] @ [Run 0, Run 0] @
      [StartAllocate 1 (), Run 1, Run 1, Run 1]) (mp_sys_init 4)) = Some [1, 0, 1]"
  by code_simp

end
