(* ===== verification/PoolConcurrent.thy ===== *)
theory PoolConcurrent
  imports ObjectPool
begin

text \<open>
  The object pool shared by threads of which only one allocates, while any of them give slots back.
  The lemma \<open>pool_aba\<close> shows that two allocating threads can be handed the same slot; here no
  interleaving can do so, and whenever all threads are between two calls the pool satisfies the
  invariant of its sequential use.
\<close>

section \<open>Where a slot is\<close>

text \<open>The slot a thread is about to hand out or to put back.\<close>

fun held :: "'a mp_pc \<Rightarrow> nat option" where
  "held (ATaken v head) = Some (unat head)"
| "held (DFreed idx) = Some idx"
| "held (DLoaded idx head) = Some idx"
| "held (DLinked idx head) = Some idx"
| "held _ = None"

fun allocating :: "'a mp_pc \<Rightarrow> bool" where
  "allocating (ALoaded v head) = True"
| "allocating (ARead v head nxt) = True"
| "allocating (ATaken v head) = True"
| "allocating _ = False"

fun releasing :: "'a mp_pc \<Rightarrow> bool" where
  "releasing (DFreed idx) = True"
| "releasing (DLoaded idx head) = True"
| "releasing (DLinked idx head) = True"
| "releasing DPushed = True"
| "releasing _ = False"

text \<open>What a thread knows: the head the allocating thread has read is still in the free list, with the
  link it has read, because nobody else takes slots out.\<close>

fun point_ok :: "'a Slot list \<Rightarrow> nat list \<Rightarrow> 'a mp_pc \<Rightarrow> bool" where
  "point_ok slots free (ALoaded v head) \<longleftrightarrow> length slots \<le> unat head \<or> unat head \<in> set free"
| "point_ok slots free (ARead v head nxt) \<longleftrightarrow> unat head \<in> set free \<and> nxt = sl_next_free (slots ! unat head)"
| "point_ok slots free (DLinked idx head) \<longleftrightarrow> sl_next_free (slots ! idx) = head"
| "point_ok slots free _ \<longleftrightarrow> True"

text \<open>Every slot is in exactly one place: in the free list, with a client, or with a thread.\<close>

definition placed :: "nat \<Rightarrow> nat list \<Rightarrow> nat list \<Rightarrow> (nat \<Rightarrow> 'a mp_pc) \<Rightarrow> bool" where
  "placed n free owned pcs \<longleftrightarrow> distinct free \<and> distinct owned \<and> set free \<inter> set owned = {} \<and>
     (\<forall>t i. held (pcs t) = Some i \<longrightarrow> i < n \<and> i \<notin> set free \<and> i \<notin> set owned) \<and>
     (\<forall>t u i. held (pcs t) = Some i \<longrightarrow> held (pcs u) = Some i \<longrightarrow> t = u) \<and>
     set owned \<subseteq> {..<n} \<and> (\<forall>i<n. i \<in> set free \<or> i \<in> set owned \<or> (\<exists>t. held (pcs t) = Some i))"

definition flags_ok :: "'a Slot list \<Rightarrow> nat list \<Rightarrow> bool" where
  "flags_ok slots owned \<longleftrightarrow> (\<forall>i < length slots. sl_in_use (slots ! i) \<longleftrightarrow> i \<in> set owned)"

definition counted :: "64 word \<Rightarrow> nat list \<Rightarrow> (nat \<Rightarrow> 'a mp_pc) \<Rightarrow> bool" where
  "counted c owned pcs \<longleftrightarrow> finite {t. releasing (pcs t)} \<and>
     c = of_nat (length owned + card {t. releasing (pcs t)})"

definition pool_ok :: "nat \<Rightarrow> 'a mp_sys \<Rightarrow> nat list \<Rightarrow> bool" where
  "pool_ok a s free \<longleftrightarrow> (let slots = mp_slots (sys_pool s) in
     length slots < 2 ^ 32 \<and> free_chain slots (unat (mp_free_head (sys_pool s))) free \<and>
     placed (length slots) free (sys_owned s) (sys_pc s) \<and> flags_ok slots (sys_owned s) \<and>
     counted (mp_allocated (sys_pool s)) (sys_owned s) (sys_pc s) \<and>
     (\<forall>t. allocating (sys_pc s t) \<longrightarrow> t = a) \<and> (\<forall>t. point_ok slots free (sys_pc s t)))"

section \<open>Moving a slot\<close>

lemma counted_same:
  "releasing pc = releasing (pcs t) \<Longrightarrow> counted c owned (pcs(t := pc)) = counted c owned pcs"
proof -
  assume "releasing pc = releasing (pcs t)"
  then have "{u. releasing ((pcs(t := pc)) u)} = {u. releasing (pcs u)}" by auto
  then show ?thesis by (simp only: counted_def)
qed

lemma counted_take:
  "counted c owned pcs \<Longrightarrow> \<not> releasing (pcs t) \<Longrightarrow> \<not> releasing pc \<Longrightarrow>
    counted (c + 1) (i # owned) (pcs(t := pc))"
  using counted_same [of pc pcs t c owned] by (simp add: counted_def)

lemma counted_free:
  assumes "counted c owned pcs" and "\<not> releasing (pcs t)" and "releasing pc" and "i \<in> set owned"
  shows "counted c (remove1 i owned) (pcs(t := pc))"
proof -
  have R: "{u. releasing ((pcs(t := pc)) u)} = insert t {u. releasing (pcs u)}" using assms(3) by auto
  have "length owned = Suc (length (remove1 i owned))"
    using assms(4) length_pos_if_in_set [OF assms(4)] by (simp add: length_remove1)
  then show ?thesis unfolding counted_def R using assms(1,2) by (simp add: counted_def)
qed

lemma counted_done:
  assumes "counted c owned pcs" and "releasing (pcs t)" and "\<not> releasing pc"
  shows "counted (c - 1) owned (pcs(t := pc))"
proof -
  have R: "{u. releasing ((pcs(t := pc)) u)} = {u. releasing (pcs u)} - {t}" using assms(3) by auto
  have "0 < card {u. releasing (pcs u)}" using assms(1,2) by (auto simp: counted_def card_gt_0_iff)
  then have "card {u. releasing (pcs u)} = Suc (card ({u. releasing (pcs u)} - {t}))"
    using assms(1,2) by (simp add: counted_def card_Diff_singleton)
  then show ?thesis unfolding counted_def R using assms(1) by (simp add: counted_def)
qed

lemma placed_same:
  assumes "placed n free owned pcs" and "held pc = held (pcs t)"
  shows "placed n free owned (pcs(t := pc))"
proof -
  have "held ((pcs(t := pc)) u) = held (pcs u)" for u using assms(2) by simp
  then show ?thesis using assms(1) by (simp add: placed_def)
qed

lemma placed_take:
  assumes "placed n (i # free) owned pcs" and "held (pcs t) = None" and "held pc = Some i" and "i < n"
  shows "placed n free owned (pcs(t := pc))"
  using assms unfolding placed_def by (auto split: if_splits) (metis option.distinct(1) option.inject)+

lemma placed_hand_out:
  assumes "placed n free owned pcs" and "held (pcs t) = Some i" and "held pc = None"
  shows "placed n free (i # owned) (pcs(t := pc))"
  using assms unfolding placed_def by (auto split: if_splits) (metis option.inject)+

lemma placed_give_back:
  assumes "placed n free owned pcs" and "held (pcs t) = None" and "held pc = Some i" and "i \<in> set owned"
  shows "placed n free (remove1 i owned) (pcs(t := pc))"
  using assms unfolding placed_def by (auto split: if_splits) (metis option.distinct(1) option.inject)+

lemma placed_push:
  assumes "placed n free owned pcs" and "held (pcs t) = Some i" and "held pc = None"
  shows "placed n (i # free) owned (pcs(t := pc))"
  using assms unfolding placed_def by (auto split: if_splits) (metis option.inject)+


text \<open>Writing the fields of a slot.\<close>

lemma flags_take:
  "flags_ok slots owned \<Longrightarrow> i < length slots \<Longrightarrow>
    flags_ok (slots[i := (slots ! i)\<lparr>sl_in_use := True, sl_storage := x\<rparr>]) (i # owned)"
  by (auto simp: flags_ok_def nth_list_update)

lemma flags_free:
  "flags_ok slots owned \<Longrightarrow> distinct owned \<Longrightarrow>
    flags_ok (slots[i := (slots ! i)\<lparr>sl_in_use := False, sl_storage := x\<rparr>]) (remove1 i owned)"
  by (cases "i < length slots") (auto simp: flags_ok_def nth_list_update list_update_beyond)

lemma flags_link: "flags_ok (slots[i := (slots ! i)\<lparr>sl_next_free := h\<rparr>]) owned = flags_ok slots owned"
  by (cases "i < length slots") (auto simp: flags_ok_def nth_list_update list_update_beyond)

lemma next_free_update:
  "sl_next_free x = sl_next_free (slots ! i) \<or> j \<noteq> i \<Longrightarrow> sl_next_free (slots[i := x] ! j) = sl_next_free (slots ! j)"
  by (cases "i < length slots"; cases "j = i") (auto simp: list_update_beyond)

lemma point_ok_update:
  assumes "point_ok slots free pc" and "i \<notin> set free"
    and "sl_next_free x = sl_next_free (slots ! i) \<or> held pc \<noteq> Some i"
  shows "point_ok (slots[i := x]) free pc"
  using assms by (cases pc) (auto simp: next_free_update, metis next_free_update)

lemma point_ok_push: "point_ok slots free pc \<Longrightarrow> point_ok slots (i # free) pc"
  by (cases pc) auto

lemma point_ok_other: "point_ok slots (i # free) pc \<Longrightarrow> \<not> allocating pc \<Longrightarrow> point_ok slots free pc"
  by (cases pc) auto

lemma chain_head: "free_chain slots head free \<Longrightarrow> length slots \<le> head \<or> head \<in> set free"
  by (cases free) auto

lemma chain_less: "free_chain slots head free \<Longrightarrow> i \<in> set free \<Longrightarrow> i < length slots"
  by (induction slots head free rule: free_chain.induct) auto

lemma goto_simps [simp]:
  "sys_pool (goto t pc s) = sys_pool s" "sys_owned (goto t pc s) = sys_owned s"
  "sys_pc (goto t pc s) = (sys_pc s)(t := pc)"
  by (simp_all add: goto_def)

text \<open>A step that changes neither pool nor owners.\<close>

lemma pool_ok_goto:
  assumes "pool_ok a s free" and "held pc = held (sys_pc s t)" and "releasing pc = releasing (sys_pc s t)"
    and "allocating pc \<longrightarrow> t = a" and "point_ok (mp_slots (sys_pool s)) free pc"
  shows "pool_ok a (goto t pc s) free"
  using assms placed_same [of _ free "sys_owned s" "sys_pc s" pc t] counted_same [of pc "sys_pc s" t]
  by (simp add: pool_ok_def Let_def)

section \<open>Every step keeps the places\<close>

lemma pool_okD:
  assumes "pool_ok a s free"
  shows "length (mp_slots (sys_pool s)) < 2 ^ 32"
    "free_chain (mp_slots (sys_pool s)) (unat (mp_free_head (sys_pool s))) free"
    "placed (length (mp_slots (sys_pool s))) free (sys_owned s) (sys_pc s)"
    "flags_ok (mp_slots (sys_pool s)) (sys_owned s)"
    "counted (mp_allocated (sys_pool s)) (sys_owned s) (sys_pc s)"
    "\<And>t. allocating (sys_pc s t) \<Longrightarrow> t = a" "\<And>t. point_ok (mp_slots (sys_pool s)) free (sys_pc s t)"
  using assms by (simp_all add: pool_ok_def Let_def)

lemma placedD:
  assumes "placed n free owned pcs"
  shows "distinct free" "distinct owned" "set free \<inter> set owned = {}" "set owned \<subseteq> {..<n}"
    "\<And>t i. held (pcs t) = Some i \<Longrightarrow> i < n \<and> i \<notin> set free \<and> i \<notin> set owned"
    "\<And>t u i. held (pcs t) = Some i \<Longrightarrow> held (pcs u) = Some i \<Longrightarrow> t = u"
  using assms unfolding placed_def by blast+

lemma take_head_ok:
  assumes ok: "pool_ok a s free" and pc: "sys_pc s t = ARead v head nxt"
    and cas: "mp_free_head (sys_pool s) = head"
  shows "\<exists>free'. pool_ok a (goto t (ATaken v head) (s\<lparr>sys_pool := (sys_pool s)\<lparr>mp_free_head := nxt\<rparr>\<rparr>)) free'"
proof -
  note d = pool_okD [OF ok] and pl = placedD [OF pool_okD(3) [OF ok]]
  have t: "t = a" using d(6) [of t] pc by simp
  have head: "unat head \<in> set free" "nxt = sl_next_free (mp_slots (sys_pool s) ! unat head)"
    using d(7) [of t] pc by simp_all
  then obtain i rest where free: "free = i # rest" by (cases free) auto
  have i: "i = unat head" "free_chain (mp_slots (sys_pool s)) (unat nxt) rest" "i < length (mp_slots (sys_pool s))"
    using d(2) cas head(2) by (auto simp: free)
  have "placed (length (mp_slots (sys_pool s))) rest (sys_owned s) ((sys_pc s)(t := ATaken v head))"
    using placed_take [OF d(3) [unfolded free], of t "ATaken v head"] pc i by simp
  moreover have "counted (mp_allocated (sys_pool s)) (sys_owned s) ((sys_pc s)(t := ATaken v head))"
    using counted_same [of "ATaken v head" "sys_pc s" t] d(5) pc by simp
  moreover have "point_ok (mp_slots (sys_pool s)) rest (sys_pc s u)" if "u \<noteq> t" for u
    using point_ok_other d(6,7) [of u] that t by (auto simp: free)
  ultimately have "pool_ok a (goto t (ATaken v head) (s\<lparr>sys_pool := (sys_pool s)\<lparr>mp_free_head := nxt\<rparr>\<rparr>)) rest"
    using d i(2) t by (simp add: pool_ok_def)
  then show ?thesis by blast
qed

lemma hand_out_ok:
  assumes ok: "pool_ok a s free" and pc: "sys_pc s t = ATaken v head" and p: "p = sys_pool s"
  shows "pool_ok a (goto t Idle (s\<lparr>sys_owned := unat head # sys_owned s, sys_pool := p\<lparr>mp_allocated := mp_allocated p + 1,
    mp_slots := (mp_slots p)[unat head := (mp_slots p ! unat head)\<lparr>sl_in_use := True, sl_storage := Some v\<rparr>]\<rparr>\<rparr>)) free"
proof -
  note d = pool_okD [OF ok] and pl = placedD [OF pool_okD(3) [OF ok]]
  have i: "unat head < length (mp_slots p)" "unat head \<notin> set free"
    using pl(5) [of t "unat head"] pc p by simp_all
  show ?thesis
    using d i placed_hand_out [OF d(3), of t "unat head" Idle] counted_take [OF d(5), of t Idle "unat head"]
      flags_take [OF d(4), of "unat head" "Some v"] pc p
    by (auto simp: pool_ok_def Let_def chain_update intro!: point_ok_update)
qed

lemma link_ok:
  assumes ok: "pool_ok a s free" and pc: "sys_pc s t = DLoaded idx head" and p: "p = sys_pool s"
  shows "pool_ok a (goto t (DLinked idx head) (s\<lparr>sys_pool := p\<lparr>mp_slots :=
    (mp_slots p)[idx := (mp_slots p ! idx)\<lparr>sl_next_free := head\<rparr>]\<rparr>\<rparr>)) free"
proof -
  note d = pool_okD [OF ok] and pl = placedD [OF pool_okD(3) [OF ok]]
  have i: "idx < length (mp_slots p)" "idx \<notin> set free" using pl(5) [of t idx] pc p by simp_all
  have "point_ok ((mp_slots p)[idx := (mp_slots p ! idx)\<lparr>sl_next_free := head\<rparr>]) free (sys_pc s u)"
    if "u \<noteq> t" for u
    using pl(6) [of t idx u] that pc d(7) [of u] i(2) p by (intro point_ok_update) auto
  then show ?thesis
    using d i placed_same [OF d(3), of "DLinked idx head" t] counted_same [of "DLinked idx head" "sys_pc s" t] pc p
    by (auto simp: pool_ok_def Let_def chain_update flags_link)
qed

lemma push_ok:
  assumes ok: "pool_ok a s free" and pc: "sys_pc s t = DLinked idx head"
    and cas: "mp_free_head (sys_pool s) = head"
  shows "pool_ok a (goto t DPushed (s\<lparr>sys_pool := (sys_pool s)\<lparr>mp_free_head := of_nat idx\<rparr>\<rparr>)) (idx # free)"
proof -
  note d = pool_okD [OF ok] and pl = placedD [OF pool_okD(3) [OF ok]]
  have i: "idx < length (mp_slots (sys_pool s))" using pl(5) [of t idx] pc by simp
  then have "unat (of_nat idx :: 32 word) = idx" using d(1) by (simp add: unat_of_nat)
  moreover have "sl_next_free (mp_slots (sys_pool s) ! idx) = head" using d(7) [of t] pc by simp
  ultimately show ?thesis
    using d i cas placed_push [OF d(3), of t idx DPushed] counted_same [of DPushed "sys_pc s" t] pc
    by (auto simp: pool_ok_def Let_def point_ok_push)
qed

lemma give_back_ok:
  assumes ok: "pool_ok a s free" and pc: "sys_pc s t = Idle" and owned: "idx \<in> set (sys_owned s)"
    and p: "p = sys_pool s"
  shows "pool_ok a (goto t (DFreed idx) (s\<lparr>sys_owned := remove1 idx (sys_owned s), sys_pool := p\<lparr>mp_slots :=
    (mp_slots p)[idx := (mp_slots p ! idx)\<lparr>sl_in_use := False, sl_storage := None\<rparr>]\<rparr>\<rparr>)) free"
proof -
  note d = pool_okD [OF ok] and pl = placedD [OF pool_okD(3) [OF ok]]
  have i: "idx < length (mp_slots p)" "idx \<notin> set free" using pl(3,4) owned p by auto
  show ?thesis
    using d i placed_give_back [OF d(3), of t "DFreed idx" idx] counted_free [OF d(5), of t "DFreed idx" idx]
      flags_free [OF d(4) pl(2), of idx None] pc p owned
    by (auto simp: pool_ok_def Let_def chain_update intro!: point_ok_update)
qed


text \<open>The clients allocate on thread \<open>a\<close> only.\<close>

fun by_allocator :: "nat \<Rightarrow> 'a mp_act \<Rightarrow> bool" where
  "by_allocator a (StartAllocate t v) \<longleftrightarrow> t = a"
| "by_allocator a _ \<longleftrightarrow> True"

lemma run_step_ok:
  assumes ok: "pool_ok a s free" and run: "mp_run_step t s = Some s'"
  shows "\<exists>free'. pool_ok a s' free'"
proof -
  note d = pool_okD [OF ok] and pl = placedD [OF pool_okD(3) [OF ok]]
  note goto = pool_ok_goto [OF ok, of _ t] and here = d(7) [of t]
  show ?thesis
  proof (cases "sys_pc s t")
    case (ALoaded v head)
    then have "t = a" using d(6) [of t] by simp
    then show ?thesis
      using run ALoaded here goto [of Idle] goto [of "ARead v head (sl_next_free (mp_slots (sys_pool s) ! unat head))"]
      by (auto simp: mp_run_step_def Let_def mp_capacity_def split: if_splits)
  next
    case (ARead v head nxt)
    then have "t = a" using d(6) [of t] by simp
    then show ?thesis
      using run ARead take_head_ok [OF ok ARead] chain_head [OF d(2)] goto [of "ALoaded v (mp_free_head (sys_pool s))"]
      by (auto simp: mp_run_step_def Let_def split: if_splits)
  next
    case (ATaken v head)
    then show ?thesis using run hand_out_ok [OF ok ATaken refl]
      by (auto simp: mp_run_step_def Let_def)
  next
    case (DFreed idx)
    then show ?thesis using run goto [of "DLoaded idx (mp_free_head (sys_pool s))"]
      by (auto simp: mp_run_step_def Let_def)
  next
    case (DLoaded idx head)
    then show ?thesis using run link_ok [OF ok DLoaded refl]
      by (auto simp: mp_run_step_def Let_def)
  next
    case (DLinked idx head)
    then show ?thesis using run push_ok [OF ok DLinked] goto [of "DLoaded idx (mp_free_head (sys_pool s))"]
      by (auto simp: mp_run_step_def Let_def split: if_splits)
  next
    case DPushed
    have "pool_ok a (goto t Idle (s\<lparr>sys_pool := (sys_pool s)\<lparr>mp_allocated := mp_allocated (sys_pool s) - 1\<rparr>\<rparr>)) free"
      using d placed_same [OF d(3), of Idle t] counted_done [OF d(5), of t Idle] DPushed
      by (simp add: pool_ok_def Let_def)
    then show ?thesis using run DPushed by (auto simp: mp_run_step_def Let_def)
  qed (use run in \<open>simp add: mp_run_step_def Let_def\<close>)
qed

lemma perform_ok:
  assumes ok: "pool_ok a s free" and act: "mp_perform act s = Some s'" "by_allocator a act"
  shows "\<exists>free'. pool_ok a s' free'"
proof (cases act)
  case (StartAllocate t v)
  then have "sys_pc s t = Idle" "s' = goto t (ALoaded v (mp_free_head (sys_pool s))) s" "t = a"
    using act by (auto split: if_splits)
  then show ?thesis
    using pool_ok_goto [OF ok, of "ALoaded v (mp_free_head (sys_pool s))" t] chain_head [OF pool_okD(2) [OF ok]]
    by auto
next
  case (StartDeallocate t idx)
  then show ?thesis using act give_back_ok [OF ok, of t idx] by (auto simp: Let_def split: if_splits)
next
  case (Run t)
  then show ?thesis using act run_step_ok [OF ok] by simp
next
  case (Spurious t)
  show ?thesis
  proof (cases "sys_pc s t")
    case (ARead v head nxt)
    then have "t = a" using pool_okD(6) [OF ok, of t] by simp
    then show ?thesis
      using act Spurious ARead pool_ok_goto [OF ok, of "ALoaded v (mp_free_head (sys_pool s))" t]
        chain_head [OF pool_okD(2) [OF ok]] by auto
  next
    case (DLinked idx head)
    then show ?thesis
      using act Spurious pool_ok_goto [OF ok, of "DLoaded idx (mp_free_head (sys_pool s))" t] by auto
  qed (use act Spurious in auto)
qed

definition shared_ok :: "nat \<Rightarrow> 'a mp_sys \<Rightarrow> bool" where
  "shared_ok a s \<longleftrightarrow> (\<exists>free. pool_ok a s free)"

definition shared_step :: "nat \<Rightarrow> 'a mp_sys \<Rightarrow> 'a mp_sys \<Rightarrow> bool" where
  "shared_step a s s' \<longleftrightarrow> (\<exists>act. by_allocator a act \<and> mp_perform act s = Some s')"

interpretation shared: invariant_system "\<lambda>s. \<exists>m < 2 ^ 32. s = mp_sys_init m" "shared_step a" "shared_ok a"
proof
  show "shared_ok a s" if init: "\<exists>m < 2 ^ 32. s = mp_sys_init m" for s :: "'a mp_sys"
  proof -
    obtain m where m: "m < 2 ^ 32" "s = mp_sys_init m" using init by blast
    have "free_chain (mp_slots (MemoryPool_init m :: 'a MemoryPool)) 0 [0..<m]"
      using init_chain [of 0 m] m(1) by simp
    then have "pool_ok a s [0..<m]"
      using m by (simp add: pool_ok_def Let_def mp_sys_init_def placed_def flags_ok_def counted_def)
        (simp add: MemoryPool_init_def)
    then show ?thesis by (auto simp: shared_ok_def)
  qed
  show "shared_ok a s'" if "shared_ok a s" "shared_step a s s'" for s s' :: "'a mp_sys"
    using that perform_ok unfolding shared_ok_def shared_step_def by blast
qed

abbreviation shared_reachable :: "nat \<Rightarrow> 'a mp_sys \<Rightarrow> bool" where
  "shared_reachable a \<equiv> reachable (\<lambda>s. \<exists>m < 2 ^ 32. s = mp_sys_init m) (shared_step a)"

lemma schedule_reachable:
  "mp_schedule acts s = Some s' \<Longrightarrow> list_all (by_allocator a) acts \<Longrightarrow> shared_reachable a s \<Longrightarrow>
    shared_reachable a s'"
proof (induction acts arbitrary: s)
  case (Cons act acts)
  then obtain s1 where "mp_perform act s = Some s1" "mp_schedule acts s1 = Some s'"
    by (auto split: option.splits)
  moreover from this have "shared_step a s s1" using Cons.prems(2) by (auto simp: shared_step_def)
  ultimately show ?case using Cons reachable_step [of _ "shared_step a"] by auto
qed simp

lemma quiescent_inv:
  assumes ok: "pool_ok a s free" and idle: "\<forall>t. sys_pc s t = Idle"
  shows "mp_inv (sys_pool s)"
proof -
  note d = pool_okD [OF ok] and pl = placedD [OF pool_okD(3) [OF ok]]
  let ?p = "sys_pool s"
  have used: "used_slots ?p = set (sys_owned s)"
    using d(4) pl(4) by (auto simp: used_slots_def flags_ok_def mp_capacity_def)
  have "i \<in> set free \<or> i \<in> set (sys_owned s)" if "i < length (mp_slots ?p)" for i
    using d(3) idle that by (auto simp: placed_def)
  then have "set free = {i. i < mp_capacity ?p} - used_slots ?p"
    using used pl(3) chain_less [OF d(2)] by (auto simp: mp_capacity_def)
  moreover have "mp_allocated ?p = of_nat (card (used_slots ?p))"
    using d(5) idle pl(2) by (simp add: counted_def used distinct_card)
  ultimately show ?thesis using d(1,2) pl(1) by (auto simp: mp_inv_def mp_capacity_def)
qed

section \<open>Property\<close>

text \<open>C33: one allocating thread is safe.  When one thread allocates and any number of threads give slots
  back, under every interleaving of their accesses no slot is handed out while a client holds it, the
  slots marked in use are exactly those the clients hold, and whenever no call is under way the pool
  satisfies the invariant of its sequential use, so nothing is lost.\<close>

theorem single_allocator_safe:
  assumes "shared_reachable a s"
  shows "distinct (sys_owned s) \<and> set (sys_owned s) = used_slots (sys_pool s) \<and>
    ((\<forall>t. sys_pc s t = Idle) \<longrightarrow> mp_inv (sys_pool s))"
proof -
  obtain free where ok: "pool_ok a s free" using shared.reachable_inv [OF assms] by (auto simp: shared_ok_def)
  have "set (sys_owned s) = used_slots (sys_pool s)"
    using pool_okD(4) [OF ok] placedD(4) [OF pool_okD(3) [OF ok]]
    by (auto simp: used_slots_def flags_ok_def mp_capacity_def)
  then show ?thesis using placedD(2) [OF pool_okD(3) [OF ok]] quiescent_inv [OF ok] by blast
qed

text \<open>Thread 0 has read the head and its link when thread 1 gives a slot back, so that its exchange fails
  and is repeated.\<close>

definition demo_acts :: "nat mp_act list" where
  "demo_acts = [StartAllocate 0 7, Run 0, Run 0, Run 0] @ [StartAllocate 0 8, Run 0] @
     [StartDeallocate 1 0, Run 1, Run 1, Run 1, Run 1] @ [Run 0, Run 0, Spurious 0, Run 0, Run 0, Run 0]"

definition demo_shared :: "nat mp_sys" where
  "demo_shared = the (mp_schedule demo_acts (mp_sys_init 2))"

lemma demo_shared_reachable: "shared_reachable 0 demo_shared"
proof -
  have "mp_schedule demo_acts (mp_sys_init 2) \<noteq> None" by code_simp
  then have "mp_schedule demo_acts (mp_sys_init 2) = Some demo_shared" by (simp add: demo_shared_def)
  moreover have "list_all (by_allocator 0) demo_acts" by code_simp
  moreover have "shared_reachable 0 (mp_sys_init 2 :: nat mp_sys)"
    by (intro reachable_init exI [of _ 2]) simp
  ultimately show ?thesis by (rule schedule_reachable)
qed

lemma demo_shared_view: "sys_owned demo_shared = [0] \<and> mp_allocated (sys_pool demo_shared) = 1"
  by code_simp

fun actor :: "'a mp_act \<Rightarrow> nat" where
  "actor (StartAllocate t v) = t"
| "actor (StartDeallocate t idx) = t"
| "actor (Run t) = t"
| "actor (Spurious t) = t"

lemma perform_others: "mp_perform act s = Some s' \<Longrightarrow> actor act \<noteq> t \<Longrightarrow> sys_pc s' t = sys_pc s t"
  by (cases act) (auto simp: mp_run_step_def Let_def goto_def split: if_splits mp_pc.splits)

lemma schedule_others:
  "mp_schedule acts s = Some s' \<Longrightarrow> t \<notin> actor ` set acts \<Longrightarrow> sys_pc s' t = sys_pc s t"
proof (induction acts arbitrary: s)
  case (Cons act acts)
  then obtain s1 where s1: "mp_perform act s = Some s1" "mp_schedule acts s1 = Some s'"
    by (auto split: option.splits)
  then have "sys_pc s' t = sys_pc s1 t" using Cons by auto
  also have "\<dots> = sys_pc s t" using perform_others [OF s1(1)] Cons.prems(2) by auto
  finally show ?case .
qed simp

lemma demo_shared_idle: "sys_pc demo_shared t = Idle"
proof (cases "t = 0 \<or> t = 1")
  case True
  have "sys_pc demo_shared 0 = Idle \<and> sys_pc demo_shared 1 = Idle" by code_simp
  then show ?thesis using True by blast
next
  case False
  then have "t \<notin> actor ` set demo_acts" by (auto simp: demo_acts_def)
  moreover have "mp_schedule demo_acts (mp_sys_init 2) \<noteq> None" by code_simp
  then have "mp_schedule demo_acts (mp_sys_init 2) = Some demo_shared" by (simp add: demo_shared_def)
  ultimately have "sys_pc demo_shared t = sys_pc (mp_sys_init 2 :: nat mp_sys) t" by (intro schedule_others)
  then show ?thesis by (simp add: mp_sys_init_def)
qed

theorem single_allocator_safe_witness:
  "sys_owned demo_shared = [0] \<and> used_slots (sys_pool demo_shared) = {0} \<and> mp_inv (sys_pool demo_shared)"
  using single_allocator_safe [OF demo_shared_reachable] demo_shared_view demo_shared_idle by simp

end
