(* ===== verification/Symbols.thy ===== *)
theory Symbols
  imports Types
begin

text \<open>Symbols: the fixed-width text and its hash.\<close>

section \<open>The mixing step is a bijection\<close>

lemma xorshift_cancel:
  fixes x y :: "64 word"
  assumes "xor x (drop_bit 33 x) = xor y (drop_bit 33 y)"
  shows "x = y"
proof -
  have undo: "xor (xor z (drop_bit 33 z)) (drop_bit 33 (xor z (drop_bit 33 z))) = z" for z :: "64 word"
    by (rule bit_eqI) (auto simp: bit_simps)
  from arg_cong [OF assms, of "\<lambda>z. xor z (drop_bit 33 z)"] show ?thesis by (simp only: undo)
qed

lemma odd_mult_cancel:
  fixes x y :: "64 word"
  assumes "x * 0xff51afd7ed558ccd = y * 0xff51afd7ed558ccd"
  shows "x = y"
proof -
  have "(0xff51afd7ed558ccd * 0x4f74430c22a54005 :: 64 word) = 1" by simp
  then have "z * 0xff51afd7ed558ccd * 0x4f74430c22a54005 = z" for z :: "64 word"
    by (simp only: mult.assoc mult_1_right)
  then show ?thesis using arg_cong [OF assms, of "\<lambda>z. z * 0x4f74430c22a54005"] by metis
qed

section \<open>The bytes determine the word\<close>

lemma of_char_range: "0 \<le> (of_char c :: int) \<and> (of_char c :: int) < 256"
proof -
  have "(of_char c :: int) = of_char c mod 256" by simp
  then show ?thesis by (metis pos_mod_bound pos_mod_sign zero_less_numeral)
qed

lemma bytes_range: "0 \<le> horner_sum of_char (256 :: int) cs \<and> horner_sum of_char (256 :: int) cs < 256 ^ length cs"
proof (induction cs)
  case (Cons c cs)
  then show ?case using of_char_range [of c] by simp
qed simp

lemma bytes_inject:
  "length cs = length ds \<Longrightarrow> horner_sum of_char (256 :: int) cs = horner_sum of_char 256 ds \<Longrightarrow> cs = ds"
proof (induction cs ds rule: list_induct2)
  case (Cons c cs d ds)
  let ?h = "horner_sum of_char (256 :: int)"
  have eq: "of_char c + 256 * ?h cs = of_char d + 256 * ?h ds" using Cons.prems by simp
  then have "(of_char c + 256 * ?h cs) mod 256 = (of_char d + 256 * ?h ds) mod 256" by simp
  then have "(of_char c :: int) = of_char d" by simp
  then show ?case using Cons.IH eq by simp
qed simp

lemma symbol_word_inject:
  assumes "Symbol_wf s" and "Symbol_wf t" and "symbol_word s = symbol_word t"
  shows "s = t"
proof -
  let ?h = "horner_sum of_char (256 :: int)"
  have range: "0 \<le> ?h (sym_data u)" "?h (sym_data u) < 2 ^ 64" if "Symbol_wf u" for u
    using bytes_range [of "sym_data u"] that by (simp_all add: Symbol_wf_def MAX_LEN_def)
  have "uint (symbol_word u) = ?h (sym_data u)" if "Symbol_wf u" for u
    unfolding symbol_word_def using range [OF that] by (simp add: uint_word_of_int)
  then have "?h (sym_data s) = ?h (sym_data t)" using assms by metis
  moreover have "length (sym_data s) = length (sym_data t)" using assms(1,2) by (simp add: Symbol_wf_def)
  ultimately show ?thesis using bytes_inject Symbol.expand by blast
qed

lemma takeWhile_padded:
  "\<forall>c \<in> set xs. c \<noteq> NUL \<Longrightarrow> takeWhile (\<lambda>c. c \<noteq> NUL) (xs @ replicate n NUL) = xs"
  by (induction xs) (cases n, simp_all)

lemma sym_data_of:
  "sym_data (Symbol_of s) = take MAX_LEN (takeWhile (\<lambda>c. c \<noteq> NUL) s) @
     replicate (MAX_LEN - length (takeWhile (\<lambda>c. c \<noteq> NUL) s)) NUL"
  by (simp add: Symbol_of_def Symbol_default_def Let_def min_def)

section \<open>Properties\<close>

text \<open>C35: the hash of symbols has no collisions: on eight-byte symbols the hash values are equal exactly
  when the symbols are, because the mixing step is a bijection of the 64-bit words.\<close>

theorem symbol_hash_injective:
  assumes "Symbol_wf s" and "Symbol_wf t"
  shows "symbol_hash s = symbol_hash t \<longleftrightarrow> s = t"
proof
  assume "symbol_hash s = symbol_hash t"
  then have "symbol_word s = symbol_word t"
    unfolding symbol_hash_def Let_def by (blast dest: xorshift_cancel odd_mult_cancel)
  then show "s = t" by (rule symbol_word_inject [OF assms])
qed simp

theorem symbol_hash_injective_witness:
  "symbol_hash (Symbol_of ''AAPL'') \<noteq> symbol_hash (Symbol_of ''MSFT'')"
proof -
  have "Symbol_of ''AAPL'' \<noteq> Symbol_of ''MSFT''" by code_simp
  then show ?thesis
    using symbol_hash_injective [of "Symbol_of ''AAPL''" "Symbol_of ''MSFT''"] by simp
qed

text \<open>Turning a text into a symbol and back gives its first eight characters (up to the first zero
  byte), so texts of at most eight characters survive the round trip, and converting again changes
  nothing.\<close>

lemma symbol_text_roundtrip:
  "to_string (Symbol_of s) = take MAX_LEN (takeWhile (\<lambda>c. c \<noteq> NUL) s) \<and>
   Symbol_of (to_string (Symbol_of s)) = Symbol_of s"
proof -
  define c where "c = takeWhile (\<lambda>c. c \<noteq> NUL) s"
  have no_nul: "\<forall>x \<in> set (take MAX_LEN c). x \<noteq> NUL"
    unfolding c_def by (auto dest!: in_set_takeD set_takeWhileD)
  have out: "to_string (Symbol_of s) = take MAX_LEN c"
    unfolding to_string_def sym_data_of c_def [symmetric] by (rule takeWhile_padded [OF no_nul])
  have prefix: "takeWhile (\<lambda>c. c \<noteq> NUL) (take MAX_LEN c) = take MAX_LEN c"
    using takeWhile_padded [OF no_nul, of 0] by (simp only: replicate_0 append_Nil2)
  have "sym_data (Symbol_of (take MAX_LEN c)) = sym_data (Symbol_of s)"
    unfolding sym_data_of [of "take MAX_LEN c"] sym_data_of [of s] c_def [symmetric] prefix
    by (simp add: min_def)
  then have "Symbol_of (take MAX_LEN c) = Symbol_of s" by (rule Symbol.expand)
  then show ?thesis using out unfolding c_def by simp
qed

end
