(* ===== verification/RingBlocking.thy ===== *)
theory RingBlocking
  imports RingBuffer
begin

text \<open>
  The blocking operations of \<^verbatim>\<open>src/HPRingBuffer.hpp\<close>: loops around the attempts that call
  \<^verbatim>\<open>WaitStrategy::wait\<close> (\<^verbatim>\<open>src/wait_strategies.hpp\<close>) between them.

  While a thread waits the other one may run.  The first argument lists what it does during each
  wait: whether the consumer pops, or which item the producer pushes, if any.  When the list is used
  up the thread is still waiting, and the result is \<^const>\<open>None\<close>.  The steps inside an attempt are in
  \<open>RingConcurrent\<close>.  The three wait strategies differ in the processor time they use only.
\<close>

fun rb_push :: "bool list \<Rightarrow> 'a \<Rightarrow> 'a HPRingBuffer \<Rightarrow> 'a HPRingBuffer option" where
  "rb_push waits item b =
     (case try_push item b of
        (True, b') \<Rightarrow> Some b'
      | (False, b') \<Rightarrow>
          (case waits of
             [] \<Rightarrow> None
           | pops # waits \<Rightarrow> rb_push waits item (if pops then snd (try_pop b') else b')))"

fun rb_pop :: "'a option list \<Rightarrow> 'a HPRingBuffer \<Rightarrow> ('a \<times> 'a HPRingBuffer) option" where
  "rb_pop waits b =
     (case try_pop b of
        (Some value, b') \<Rightarrow> Some (value, b')
      | (None, b') \<Rightarrow>
          (case waits of
             [] \<Rightarrow> None
           | pushes # waits \<Rightarrow>
               rb_pop waits (case pushes of None \<Rightarrow> b' | Some x \<Rightarrow> snd (try_push x b'))))"

text \<open>The items the producer pushes during the waits.\<close>

fun offers :: "'a option list \<Rightarrow> 'a list" where
  "offers [] = []"
| "offers (None # waits) = offers waits"
| "offers (Some x # waits) = x # offers waits"

declare rb_push.simps [simp del] rb_pop.simps [simp del]

lemma push_room:
  assumes "rb_ok b" and "length (rb_contents b) < rb_capacity b"
  shows "\<exists>b'. rb_push waits item b = Some b' \<and> rb_ok b' \<and> rb_contents b' = rb_contents b @ [item]"
proof -
  obtain ok b' where p: "try_push item b = (ok, b')" by (metis prod.collapse)
  note spec = try_push_spec [OF assms(1) p]
  then show ?thesis using assms(2) p by (subst rb_push.simps) simp
qed

lemma push_full:
  assumes "rb_ok b" and "length (rb_contents b) = rb_capacity b"
  shows "rb_push waits item b = (case waits of [] \<Rightarrow> None
    | pops # waits \<Rightarrow> rb_push waits item (if pops then snd (try_pop b) else b))"
proof -
  obtain ok b' where p: "try_push item b = (ok, b')" by (metis prod.collapse)
  have "\<not> ok" using try_push_spec(1) [OF assms(1) p] assms(2) by simp
  moreover have "b' = b" using p \<open>\<not> ok\<close> by (auto simp: try_push_def Let_def split: if_splits)
  ultimately show ?thesis using p by (subst rb_push.simps) simp
qed

lemma push_full_spec:
  assumes "rb_ok b" and "length (rb_contents b) = rb_capacity b"
  shows "if True \<in> set waits
    then \<exists>b'. rb_push waits item b = Some b' \<and> rb_ok b' \<and> rb_contents b' = tl (rb_contents b) @ [item]
    else rb_push waits item b = None"
proof (induction waits)
  case Nil
  then show ?case using push_full [OF assms, of "[]"] by simp
next
  case (Cons pops waits)
  show ?case
  proof (cases pops)
    case False
    then show ?thesis using Cons push_full [OF assms, of "pops # waits"] by simp
  next
    case True
    obtain v b1 where p: "try_pop b = (v, b1)" by (metis prod.collapse)
    note spec = try_pop_spec [OF assms(1) p]
    have "0 < rb_capacity b" using assms(1) size_ok_bounds by (auto simp: rb_ok_def rb_capacity_def)
    then have "length (rb_contents b1) < rb_capacity b1" using spec assms(2) by (simp add: rb_capacity_def)
    from push_room [OF spec(3) this, of waits item] show ?thesis
      using True p spec(2) push_full [OF assms, of "pops # waits" item] by simp
  qed
qed

lemma pop_ready:
  assumes "rb_ok b" and "rb_contents b = x # xs"
  shows "\<exists>b'. rb_pop waits b = Some (x, b') \<and> rb_ok b' \<and> rb_contents b' = xs"
proof -
  obtain v b' where p: "try_pop b = (v, b')" by (metis prod.collapse)
  from try_pop_spec [OF assms(1) p] show ?thesis using assms(2) p by (subst rb_pop.simps) simp
qed

lemma pop_empty:
  assumes "rb_ok b" and "rb_contents b = []"
  shows "rb_pop waits b = (case waits of [] \<Rightarrow> None
    | pushes # waits \<Rightarrow> rb_pop waits (case pushes of None \<Rightarrow> b | Some x \<Rightarrow> snd (try_push x b)))"
proof -
  obtain v b' where p: "try_pop b = (v, b')" by (metis prod.collapse)
  have "v = None" using try_pop_spec(1) [OF assms(1) p] assms(2) by simp
  moreover have "b' = b" using p \<open>v = None\<close> by (auto simp: try_pop_def Let_def split: if_splits)
  ultimately show ?thesis using p by (subst rb_pop.simps) simp
qed

lemma pop_empty_spec:
  assumes "rb_ok b" and "rb_contents b = []"
  shows "case offers waits of
      [] \<Rightarrow> rb_pop waits b = None
    | x # _ \<Rightarrow> \<exists>b'. rb_pop waits b = Some (x, b') \<and> rb_ok b' \<and> rb_contents b' = []"
proof (induction waits)
  case Nil
  then show ?case using pop_empty [OF assms, of "[]"] by simp
next
  case (Cons pushes waits)
  show ?case
  proof (cases pushes)
    case None
    then show ?thesis using Cons.IH pop_empty [OF assms, of "pushes # waits"] by (simp split: list.splits)
  next
    case (Some x)
    obtain ok b1 where p: "try_push x b = (ok, b1)" by (metis prod.collapse)
    note spec = try_push_spec [OF assms(1) p]
    have "0 < rb_capacity b" using assms(1) size_ok_bounds by (auto simp: rb_ok_def rb_capacity_def)
    then have "rb_contents b1 = [x]" using spec(1,2) assms(2) by simp
    from pop_ready [OF spec(3) this, of waits] show ?thesis
      using Some p pop_empty [OF assms, of "pushes # waits"] by simp
  qed
qed

section \<open>Properties\<close>

text \<open>The blocking operations return exactly when they can.  A push returns if the buffer has room or
  the consumer pops during one of the waits, and then the item is last in the queue; otherwise it is
  still waiting.  A pop returns the oldest item, or the first one pushed while it waits; it waits
  only as long as there is none.\<close>

lemma blocking_returns:
  assumes "rb_ok b"
  shows "(if length (rb_contents b) < rb_capacity b \<or> True \<in> set waits
      then \<exists>b'. rb_push waits item b = Some b' \<and> rb_ok b' \<and>
        rb_contents b' = (if length (rb_contents b) < rb_capacity b then rb_contents b else tl (rb_contents b)) @ [item]
      else rb_push waits item b = None) \<and>
    (case rb_contents b @ offers others of
       [] \<Rightarrow> rb_pop others b = None
     | x # _ \<Rightarrow> \<exists>b'. rb_pop others b = Some (x, b') \<and> rb_ok b' \<and> rb_contents b' = tl (rb_contents b))"
proof
  have "length (rb_contents b) \<le> rb_capacity b" by (rule ring.cap_law [OF assms])
  then show "if length (rb_contents b) < rb_capacity b \<or> True \<in> set waits
      then \<exists>b'. rb_push waits item b = Some b' \<and> rb_ok b' \<and>
        rb_contents b' = (if length (rb_contents b) < rb_capacity b then rb_contents b else tl (rb_contents b)) @ [item]
      else rb_push waits item b = None"
    using push_room [OF assms] push_full_spec [OF assms, of waits item] by auto
  show "case rb_contents b @ offers others of
       [] \<Rightarrow> rb_pop others b = None
     | x # _ \<Rightarrow> \<exists>b'. rb_pop others b = Some (x, b') \<and> rb_ok b' \<and> rb_contents b' = tl (rb_contents b)"
  proof (cases "rb_contents b")
    case Nil
    then show ?thesis using pop_empty_spec [OF assms Nil, of others] by (simp split: list.splits)
  next
    case (Cons x xs)
    then show ?thesis using pop_ready [OF assms Cons, of others] by simp
  qed
qed

definition demo_full :: "nat HPRingBuffer" where
  "demo_full = snd (try_push 2 (snd (try_push 1 (snd (try_push 7 (HPRingBuffer_init 4 0))))))"

lemma blocking_returns_witness:
  "\<exists>b'. rb_push [False, True] 3 demo_full = Some b' \<and> rb_contents b' = [1, 2, 3] \<and>
     rb_push [False, False] 3 demo_full = None"
proof -
  have "size_ok 4" unfolding size_ok_def by (intro exI [of _ 2]) simp
  from init_ok [OF this, of "0 :: nat"] have "rb_ok (HPRingBuffer_init 4 (0 :: nat))" by simp
  then have ok: "rb_ok demo_full" unfolding demo_full_def by (metis try_push_spec(3) prod.collapse)
  have c: "rb_contents demo_full = [7, 1, 2]" "rb_capacity demo_full = 3" by code_simp+
  show ?thesis
    using blocking_returns [OF ok, of "[False, True]" 3 "[]"] blocking_returns [OF ok, of "[False, False]" 3 "[]"]
    by (auto simp: c)
qed

end
