(* ===== verification/Latencies.thy ===== *)
theory Latencies
  imports Histogram Types
begin

text \<open>
  \<^verbatim>\<open>src/latency/latency_model.hpp\<close> and \<^verbatim>\<open>.cpp\<close>: sampled latencies.

  The generator and the three distributions of \<^verbatim>\<open><random>\<close> are the fields of a parameter record \<open>R\<close>: a
  draw takes the state of the distributions and of the generator and returns both changed, because
  \<^verbatim>\<open>std::normal_distribution\<close> may keep a second value for its next call.  Amounts of type \<^verbatim>\<open>double\<close> go
  through the operations \<open>F\<close>.
\<close>

section \<open>State\<close>

record ('d, 'g, 'f) rand_ops =
  rd_fresh :: 'd                                 \<comment> \<open>newly constructed distributions\<close>
  rd_seed :: "64 word \<Rightarrow> 'g"                     \<comment> \<open>\<^verbatim>\<open>mt19937_64\<close> with a seed\<close>
  rd_uniform :: "'d \<Rightarrow> 'g \<Rightarrow> 'f \<times> 'd \<times> 'g"
  rd_normal :: "'d \<Rightarrow> 'g \<Rightarrow> 'f \<times> 'd \<times> 'g"
  rd_tail :: "'d \<Rightarrow> 'g \<Rightarrow> 'f \<times> 'd \<times> 'g"

record 'f LatencyProfile =
  lp_mean_ns :: 'f
  lp_stddev_ns :: 'f
  lp_p99_ns :: 'f
  lp_p999_ns :: 'f
  lp_tail_prob :: 'f
  lp_min_ns :: 'f

record LatencyBreakdown =
  lb_network_inbound_ns :: "64 word"
  lb_matching_engine_ns :: "64 word"
  lb_network_outbound_ns :: "64 word"
  lb_md_dissemination_ns :: "64 word"
  lb_total_ns :: "64 word"

record ('d, 'g, 'f) LatencyModel =
  lm_seed :: "64 word"
  lm_rng :: 'g
  lm_dist :: 'd
  lm_network_profile :: "'f LatencyProfile"
  lm_matching_profile :: "'f LatencyProfile"
  lm_md_profile :: "'f LatencyProfile"
  lm_default_client_profile :: "'f LatencyProfile"
  lm_client_profiles :: "TraderId \<rightharpoonup> 'f LatencyProfile"
  lm_samples_generated :: "64 word"

definition profile_of :: "'f float_ops \<Rightarrow> rat \<Rightarrow> rat \<Rightarrow> rat \<Rightarrow> rat \<Rightarrow> rat \<Rightarrow> rat \<Rightarrow> 'f LatencyProfile" where
  "profile_of F mean_ns stddev_ns p99_ns p999_ns tail_prob min_ns =
     \<lparr>lp_mean_ns = fl_lit F mean_ns, lp_stddev_ns = fl_lit F stddev_ns, lp_p99_ns = fl_lit F p99_ns,
      lp_p999_ns = fl_lit F p999_ns, lp_tail_prob = fl_lit F tail_prob, lp_min_ns = fl_lit F min_ns\<rparr>"

definition LatencyModel_init :: "'f float_ops \<Rightarrow> ('d, 'g, 'f) rand_ops \<Rightarrow> 64 word \<Rightarrow> ('d, 'g, 'f) LatencyModel" where
  "LatencyModel_init F R seed =
     \<lparr>lm_seed = seed, lm_rng = rd_seed R seed, lm_dist = rd_fresh R,
      lm_network_profile = profile_of F 5000 1000 30000 100000 (1 / 100) 500,
      lm_matching_profile = profile_of F 500 100 2000 10000 (5 / 1000) 100,
      lm_md_profile = profile_of F 2000 500 10000 50000 (1 / 100) 200,
      lm_default_client_profile = profile_of F 5000 1000 30000 100000 (1 / 100) 500,
      lm_client_profiles = Map.empty, lm_samples_generated = 0\<rparr>"

definition model_seed :: "('d, 'g, 'f) LatencyModel \<Rightarrow> 64 word" where
  "model_seed m = lm_seed m"

definition samples_generated :: "('d, 'g, 'f) LatencyModel \<Rightarrow> 64 word" where
  "samples_generated m = lm_samples_generated m"

section \<open>Profiles and seed\<close>

definition set_client_profile :: "TraderId \<Rightarrow> 'f LatencyProfile \<Rightarrow> ('d, 'g, 'f) LatencyModel \<Rightarrow> ('d, 'g, 'f) LatencyModel" where
  "set_client_profile trader_id profile m =
     m\<lparr>lm_client_profiles := (lm_client_profiles m)(trader_id \<mapsto> profile)\<rparr>"

definition get_client_profile :: "TraderId \<Rightarrow> ('d, 'g, 'f) LatencyModel \<Rightarrow> 'f LatencyProfile" where
  "get_client_profile trader_id m =
     (case lm_client_profiles m trader_id of Some p \<Rightarrow> p | None \<Rightarrow> lm_default_client_profile m)"

definition set_network_profile :: "'f LatencyProfile \<Rightarrow> ('d, 'g, 'f) LatencyModel \<Rightarrow> ('d, 'g, 'f) LatencyModel" where
  "set_network_profile profile m = m\<lparr>lm_network_profile := profile\<rparr>"

definition set_matching_profile :: "'f LatencyProfile \<Rightarrow> ('d, 'g, 'f) LatencyModel \<Rightarrow> ('d, 'g, 'f) LatencyModel" where
  "set_matching_profile profile m = m\<lparr>lm_matching_profile := profile\<rparr>"

definition set_md_profile :: "'f LatencyProfile \<Rightarrow> ('d, 'g, 'f) LatencyModel \<Rightarrow> ('d, 'g, 'f) LatencyModel" where
  "set_md_profile profile m = m\<lparr>lm_md_profile := profile\<rparr>"

definition set_seed :: "('d, 'g, 'f) rand_ops \<Rightarrow> 64 word \<Rightarrow> ('d, 'g, 'f) LatencyModel \<Rightarrow> ('d, 'g, 'f) LatencyModel" where
  "set_seed R seed m = m\<lparr>lm_seed := seed, lm_rng := rd_seed R seed\<rparr>"

section \<open>Sampling\<close>

definition sample_gaussian_tail :: "'f float_ops \<Rightarrow> ('d, 'g, 'f) rand_ops \<Rightarrow> 'f LatencyProfile
    \<Rightarrow> ('d, 'g, 'f) LatencyModel \<Rightarrow> 'f \<times> ('d, 'g, 'f) LatencyModel" where
  "sample_gaussian_tail F R profile m =
     (let (u, d, g) = rd_uniform R (lm_dist m) (lm_rng m)
      in if fl_less F (lp_tail_prob profile) u
         then (let (z, d, g) = rd_normal R d g
               in (fl_add F (lp_mean_ns profile) (fl_mul F z (lp_stddev_ns profile)),
                   m\<lparr>lm_dist := d, lm_rng := g\<rparr>))
         else (let tail_scale = fl_div F (fl_sub F (lp_p99_ns profile) (lp_mean_ns profile)) (fl_lit F (23 / 10));
                   (x, d, g) = rd_tail R d g;
                   tail_val = fl_mul F x tail_scale
               in (fl_add F (lp_mean_ns profile) tail_val, m\<lparr>lm_dist := d, lm_rng := g\<rparr>)))"

definition sample_latency :: "'f float_ops \<Rightarrow> ('d, 'g, 'f) rand_ops \<Rightarrow> 'f LatencyProfile
    \<Rightarrow> ('d, 'g, 'f) LatencyModel \<Rightarrow> 64 word \<times> ('d, 'g, 'f) LatencyModel" where
  "sample_latency F R profile m =
     (let (val, m) = sample_gaussian_tail F R profile
            (m\<lparr>lm_samples_generated := lm_samples_generated m + 1\<rparr>);
          val = (if fl_less F val (lp_min_ns profile) then lp_min_ns profile else val)
      in (word_of_int (fl_trunc F val), m))"

definition network_profile :: "TraderId \<Rightarrow> ('d, 'g, 'f) LatencyModel \<Rightarrow> 'f LatencyProfile" where
  "network_profile trader_id m =
     (case lm_client_profiles m trader_id of Some p \<Rightarrow> p | None \<Rightarrow> lm_network_profile m)"

definition sample_network_latency :: "'f float_ops \<Rightarrow> ('d, 'g, 'f) rand_ops \<Rightarrow> TraderId
    \<Rightarrow> ('d, 'g, 'f) LatencyModel \<Rightarrow> 64 word \<times> ('d, 'g, 'f) LatencyModel" where
  "sample_network_latency F R trader_id m = sample_latency F R (network_profile trader_id m) m"

definition sample_matching_latency :: "'f float_ops \<Rightarrow> ('d, 'g, 'f) rand_ops
    \<Rightarrow> ('d, 'g, 'f) LatencyModel \<Rightarrow> 64 word \<times> ('d, 'g, 'f) LatencyModel" where
  "sample_matching_latency F R m = sample_latency F R (lm_matching_profile m) m"

definition sample_md_latency :: "'f float_ops \<Rightarrow> ('d, 'g, 'f) rand_ops
    \<Rightarrow> ('d, 'g, 'f) LatencyModel \<Rightarrow> 64 word \<times> ('d, 'g, 'f) LatencyModel" where
  "sample_md_latency F R m = sample_latency F R (lm_md_profile m) m"

definition sample_round_trip :: "'f float_ops \<Rightarrow> ('d, 'g, 'f) rand_ops \<Rightarrow> TraderId
    \<Rightarrow> ('d, 'g, 'f) LatencyModel \<Rightarrow> LatencyBreakdown \<times> ('d, 'g, 'f) LatencyModel" where
  "sample_round_trip F R trader_id m =
     (let (inbound, m) = sample_network_latency F R trader_id m;
          (matching, m) = sample_matching_latency F R m;
          (outbound, m) = sample_network_latency F R trader_id m;
          (md, m) = sample_md_latency F R m
      in (\<lparr>lb_network_inbound_ns = inbound, lb_matching_engine_ns = matching, lb_network_outbound_ns = outbound,
           lb_md_dissemination_ns = md, lb_total_ns = inbound + matching + outbound\<rparr>, m))"

definition add_jitter :: "'f float_ops \<Rightarrow> ('d, 'g, 'f) rand_ops \<Rightarrow> 64 word \<Rightarrow> 'f
    \<Rightarrow> ('d, 'g, 'f) LatencyModel \<Rightarrow> 64 word \<times> ('d, 'g, 'f) LatencyModel" where
  "add_jitter F R base_ns jitter_fraction m =
     (let (z, d, g) = rd_normal R (lm_dist m) (lm_rng m);
          jitter = fl_mul F (fl_mul F z (fl_of_int F (uint base_ns))) jitter_fraction;
          result = fl_add F (fl_of_int F (uint base_ns)) jitter;
          result = (if fl_less F result (fl_lit F 0) then fl_lit F 0 else result)
      in (word_of_int (fl_trunc F result), m\<lparr>lm_dist := d, lm_rng := g\<rparr>))"

section \<open>Sequences of operations\<close>

datatype 'f lm_op =
  SetClient TraderId "'f LatencyProfile" | SetNetwork "'f LatencyProfile" | SetMatching "'f LatencyProfile"
| SetMd "'f LatencyProfile" | SampleProfile "'f LatencyProfile" | SampleNetwork TraderId | SampleMatching
| SampleMd | RoundTrip TraderId | Jitter "64 word" 'f | Reseed "64 word"

text \<open>The numbers an operation returns, and the model after it.\<close>

fun lm_exec :: "'f float_ops \<Rightarrow> ('d, 'g, 'f) rand_ops \<Rightarrow> 'f lm_op \<Rightarrow> ('d, 'g, 'f) LatencyModel
    \<Rightarrow> 64 word list \<times> ('d, 'g, 'f) LatencyModel" where
  "lm_exec F R (SetClient trader_id p) m = ([], set_client_profile trader_id p m)"
| "lm_exec F R (SetNetwork p) m = ([], set_network_profile p m)"
| "lm_exec F R (SetMatching p) m = ([], set_matching_profile p m)"
| "lm_exec F R (SetMd p) m = ([], set_md_profile p m)"
| "lm_exec F R (SampleProfile p) m = map_prod (\<lambda>x. [x]) id (sample_latency F R p m)"
| "lm_exec F R (SampleNetwork trader_id) m = map_prod (\<lambda>x. [x]) id (sample_network_latency F R trader_id m)"
| "lm_exec F R SampleMatching m = map_prod (\<lambda>x. [x]) id (sample_matching_latency F R m)"
| "lm_exec F R SampleMd m = map_prod (\<lambda>x. [x]) id (sample_md_latency F R m)"
| "lm_exec F R (RoundTrip trader_id) m =
     map_prod (\<lambda>b. [lb_network_inbound_ns b, lb_matching_engine_ns b, lb_network_outbound_ns b,
       lb_md_dissemination_ns b, lb_total_ns b]) id (sample_round_trip F R trader_id m)"
| "lm_exec F R (Jitter base_ns jitter_fraction) m = map_prod (\<lambda>x. [x]) id (add_jitter F R base_ns jitter_fraction m)"
| "lm_exec F R (Reseed seed) m = ([], set_seed R seed m)"

fun lm_outputs :: "'f float_ops \<Rightarrow> ('d, 'g, 'f) rand_ops \<Rightarrow> 'f lm_op list \<Rightarrow> ('d, 'g, 'f) LatencyModel \<Rightarrow> 64 word list" where
  "lm_outputs F R [] m = []"
| "lm_outputs F R (op # ops) m = (case lm_exec F R op m of (out, m) \<Rightarrow> out @ lm_outputs F R ops m)"

section \<open>Ranges without rounding\<close>

text \<open>
  The draw a sample makes: one of the normal distribution or, in the tail regime, one of the
  exponential distribution.  Nothing is assumed about the distributions, whose values have no bound;
  a statement about ranges is about the draws that were made: those of the normal distribution at
  most \<open>Z\<close> away from 0, those of the exponential one between 0 and \<open>Z\<close>.  A profile is sensible when
  the largest latency it can produce from such draws fits well into 64 bits.
\<close>

datatype draw = Normal rat | Tail rat

definition draw_of :: "('d, 'g, rat) rand_ops \<Rightarrow> rat LatencyProfile \<Rightarrow> ('d, 'g, rat) LatencyModel \<Rightarrow> draw" where
  "draw_of R p m = (case rd_uniform R (lm_dist m) (lm_rng m) of (u, d, g) \<Rightarrow>
     if lp_tail_prob p < u then Normal (fst (rd_normal R d g)) else Tail (fst (rd_tail R d g)))"

fun draw_within :: "rat \<Rightarrow> draw \<Rightarrow> bool" where
  "draw_within Z (Normal z) \<longleftrightarrow> \<bar>z\<bar> \<le> Z"
| "draw_within Z (Tail x) \<longleftrightarrow> 0 \<le> x \<and> x \<le> Z"

text \<open>The latency a draw stands for under a profile.\<close>

fun drawn_ns :: "rat LatencyProfile \<Rightarrow> draw \<Rightarrow> rat" where
  "drawn_ns p (Normal z) = max (lp_min_ns p) (lp_mean_ns p + z * lp_stddev_ns p)"
| "drawn_ns p (Tail x) = max (lp_min_ns p) (lp_mean_ns p + x * ((lp_p99_ns p - lp_mean_ns p) / (23 / 10)))"

text \<open>The four draws of a round trip: inbound, matching, outbound, market data.\<close>

definition trip_draws :: "('d, 'g, rat) rand_ops \<Rightarrow> TraderId \<Rightarrow> ('d, 'g, rat) LatencyModel \<Rightarrow> draw list" where
  "trip_draws R t m =
     (let m1 = snd (sample_network_latency exact_ops R t m);
          m2 = snd (sample_matching_latency exact_ops R m1);
          m3 = snd (sample_network_latency exact_ops R t m2)
      in [draw_of R (network_profile t m) m, draw_of R (lm_matching_profile m) m1,
          draw_of R (network_profile t m) m2, draw_of R (lm_md_profile m) m3])"

definition profile_max :: "rat \<Rightarrow> rat LatencyProfile \<Rightarrow> rat" where
  "profile_max Z p = max (lp_min_ns p)
     (lp_mean_ns p + Z * max (lp_stddev_ns p) ((lp_p99_ns p - lp_mean_ns p) / (23 / 10)))"

definition profile_ok :: "rat \<Rightarrow> rat LatencyProfile \<Rightarrow> bool" where
  "profile_ok Z p \<longleftrightarrow> 0 \<le> lp_min_ns p \<and> 0 \<le> lp_stddev_ns p \<and> lp_mean_ns p \<le> lp_p99_ns p \<and> profile_max Z p < 2 ^ 62"

definition within_profile :: "rat \<Rightarrow> rat LatencyProfile \<Rightarrow> 64 word \<Rightarrow> bool" where
  "within_profile Z p x \<longleftrightarrow> floor (lp_min_ns p) \<le> uint x \<and> uint x \<le> floor (profile_max Z p)"

definition lm_ok :: "rat \<Rightarrow> ('d, 'g, rat) LatencyModel \<Rightarrow> bool" where
  "lm_ok Z m \<longleftrightarrow> profile_ok Z (lm_network_profile m) \<and> profile_ok Z (lm_matching_profile m) \<and>
     profile_ok Z (lm_md_profile m) \<and> (\<forall>t p. lm_client_profiles m t = Some p \<longrightarrow> profile_ok Z p)"

lemma drawn_range:
  assumes "draw_within Z dr" and "profile_ok Z p"
  shows "lp_min_ns p \<le> drawn_ns p dr" and "drawn_ns p dr \<le> profile_max Z p"
proof -
  let ?scale = "(lp_p99_ns p - lp_mean_ns p) / (23 / 10)"
  have nn: "0 \<le> lp_stddev_ns p" "0 \<le> ?scale" using assms(2) by (simp_all add: profile_ok_def)
  have grow: "lp_mean_ns p + c * s \<le> profile_max Z p"
    if "c \<le> Z" "0 \<le> Z" "0 \<le> s" "s \<le> max (lp_stddev_ns p) ?scale" for c s
  proof -
    have "c * s \<le> Z * s" using that by (intro mult_right_mono)
    also have "\<dots> \<le> Z * max (lp_stddev_ns p) ?scale" using that by (intro mult_left_mono)
    finally show ?thesis by (simp add: profile_max_def max_def)
  qed
  show "drawn_ns p dr \<le> profile_max Z p"
  proof (cases dr)
    case (Normal z)
    then have "z \<le> Z" "0 \<le> Z" using assms(1) by auto
    then show ?thesis using grow [of z "lp_stddev_ns p"] nn Normal by (simp add: profile_max_def)
  next
    case (Tail x)
    then have "x \<le> Z" "0 \<le> Z" using assms(1) by auto
    then show ?thesis using grow [of x ?scale] nn Tail by (simp add: profile_max_def)
  qed
  show "lp_min_ns p \<le> drawn_ns p dr" by (cases dr) simp_all
qed

lemma sample_frame:
  assumes "sample_gaussian_tail F R p m = (v, m')"
  shows "m' = m\<lparr>lm_dist := lm_dist m', lm_rng := lm_rng m'\<rparr>"
  using assms by (auto simp: sample_gaussian_tail_def Let_def split: if_splits prod.splits)

lemma sample_latency_frame:
  assumes "sample_latency F R p m = (x, m')"
  shows "m' = m\<lparr>lm_dist := lm_dist m', lm_rng := lm_rng m', lm_samples_generated := lm_samples_generated m + 1\<rparr>"
proof -
  obtain v m1 where s: "sample_gaussian_tail F R p (m\<lparr>lm_samples_generated := lm_samples_generated m + 1\<rparr>) = (v, m1)"
    by (metis prod.collapse)
  then have "m' = m1" using assms by (simp add: sample_latency_def Let_def)
  then show ?thesis using sample_frame [OF s] by (cases m; cases m1) simp
qed

lemma sample_within:
  assumes draw: "draw_within Z (draw_of R p m)" and ok: "profile_ok Z p"
    and sample: "sample_latency exact_ops R p m = (x, m')"
  shows "uint x = floor (drawn_ns p (draw_of R p m))" and "within_profile Z p x"
proof -
  let ?w = "drawn_ns p (draw_of R p m)"
  note w = drawn_range [OF draw ok]
  have pos: "0 \<le> lp_min_ns p" "profile_max Z p < 2 ^ 62" using ok by (simp_all add: profile_ok_def)
  have "x = word_of_int (floor ?w)"
    using sample pos(1)
    by (auto simp: sample_latency_def sample_gaussian_tail_def draw_of_def Let_def max_def
        split: prod.splits if_splits)
  moreover have "0 \<le> floor ?w" using pos(1) w(1) by simp
  moreover have "floor ?w < 2 ^ 64" using w(2) pos(2) by (simp add: floor_less_iff)
  ultimately show eq: "uint x = floor ?w" by (simp add: uint_word_of_int)
  show "within_profile Z p x"
    unfolding within_profile_def eq using floor_mono [OF w(1)] floor_mono [OF w(2)] by simp
qed

lemma within_bound: "profile_ok Z p \<Longrightarrow> within_profile Z p x \<Longrightarrow> uint x < 2 ^ 62"
  unfolding within_profile_def profile_ok_def
  by (metis floor_less_iff le_less_trans of_int_numeral of_int_power)

section \<open>Models reached with sensible profiles\<close>

fun op_profile_ok :: "rat \<Rightarrow> rat lm_op \<Rightarrow> bool" where
  "op_profile_ok Z (SetClient trader_id p) = profile_ok Z p"
| "op_profile_ok Z (SetNetwork p) = profile_ok Z p"
| "op_profile_ok Z (SetMatching p) = profile_ok Z p"
| "op_profile_ok Z (SetMd p) = profile_ok Z p"
| "op_profile_ok Z _ = True"

definition lm_step :: "rat \<Rightarrow> ('d, 'g, rat) rand_ops \<Rightarrow> ('d, 'g, rat) LatencyModel \<Rightarrow> ('d, 'g, rat) LatencyModel \<Rightarrow> bool" where
  "lm_step Z R m m' \<longleftrightarrow> (\<exists>op. op_profile_ok Z op \<and> m' = snd (lm_exec exact_ops R op m))"

text \<open>Sampling leaves the profiles alone.\<close>

definition same_profiles :: "('d, 'g, 'f) LatencyModel \<Rightarrow> ('d, 'g, 'f) LatencyModel \<Rightarrow> bool" where
  "same_profiles m m' \<longleftrightarrow> lm_network_profile m = lm_network_profile m' \<and>
     lm_matching_profile m = lm_matching_profile m' \<and> lm_md_profile m = lm_md_profile m' \<and>
     lm_client_profiles m = lm_client_profiles m' \<and> lm_default_client_profile m = lm_default_client_profile m'"

lemma same_profiles_trans: "same_profiles m1 m2 \<Longrightarrow> same_profiles m2 m3 \<Longrightarrow> same_profiles m1 m3"
  by (simp add: same_profiles_def)

lemma same_profiles_ok: "same_profiles m m' \<Longrightarrow> lm_ok Z m' = lm_ok Z m"
  by (simp add: same_profiles_def lm_ok_def)

lemma sample_profiles: "sample_latency F R p m = (x, m') \<Longrightarrow> same_profiles m m'"
  by (subst sample_latency_frame [of F R p m x m']) (simp_all add: same_profiles_def)

lemma sample_count: "sample_latency F R p m = (x, m') \<Longrightarrow> lm_samples_generated m' = lm_samples_generated m + 1"
  by (subst sample_latency_frame [of F R p m x m']) simp_all

lemma round_trip_samples:
  assumes "sample_round_trip F R trader_id m = (b, m')"
  obtains m1 m2 m3 where
    "sample_latency F R (network_profile trader_id m) m = (lb_network_inbound_ns b, m1)"
    "sample_latency F R (lm_matching_profile m) m1 = (lb_matching_engine_ns b, m2)"
    "sample_latency F R (network_profile trader_id m) m2 = (lb_network_outbound_ns b, m3)"
    "sample_latency F R (lm_md_profile m) m3 = (lb_md_dissemination_ns b, m')"
    "lb_total_ns b = lb_network_inbound_ns b + lb_matching_engine_ns b + lb_network_outbound_ns b"
proof -
  obtain i m1 where 1: "sample_latency F R (network_profile trader_id m) m = (i, m1)" by (metis prod.collapse)
  obtain e m2 where 2: "sample_latency F R (lm_matching_profile m1) m1 = (e, m2)" by (metis prod.collapse)
  obtain x m3 where 3: "sample_latency F R (network_profile trader_id m2) m2 = (x, m3)" by (metis prod.collapse)
  obtain y m4 where 4: "sample_latency F R (lm_md_profile m3) m3 = (y, m4)" by (metis prod.collapse)
  have same: "same_profiles m m1" "same_profiles m m2" "same_profiles m m3"
    using sample_profiles [OF 1] sample_profiles [OF 2] sample_profiles [OF 3] same_profiles_trans by blast+
  have "b = \<lparr>lb_network_inbound_ns = i, lb_matching_engine_ns = e, lb_network_outbound_ns = x,
      lb_md_dissemination_ns = y, lb_total_ns = i + e + x\<rparr>" "m' = m4"
    using assms 1 2 3 4
    by (simp_all add: sample_round_trip_def sample_network_latency_def sample_matching_latency_def
        sample_md_latency_def Let_def)
  moreover have "network_profile trader_id m2 = network_profile trader_id m"
    "lm_matching_profile m1 = lm_matching_profile m" "lm_md_profile m3 = lm_md_profile m"
    using same by (auto simp: same_profiles_def network_profile_def split: option.splits)
  ultimately show thesis using that [of m1 m2 m3] 1 2 3 4 by simp
qed

lemma lm_exec_profiles:
  assumes "\<not> (\<exists>t p. op \<in> {SetClient t p, SetNetwork p, SetMatching p, SetMd p})"
  shows "same_profiles m (snd (lm_exec F R op m))"
proof -
  have sample: "same_profiles m (snd (sample_latency F R p m))" for p
    using sample_profiles [of F R p m] by (metis prod.collapse)
  have trip: "same_profiles m (snd (sample_round_trip F R t m))" for t
  proof -
    obtain b m' where r: "sample_round_trip F R t m = (b, m')" by (metis prod.collapse)
    show ?thesis unfolding r snd_conv
      by (rule round_trip_samples [OF r]) (meson sample_profiles same_profiles_trans)
  qed
  have jitter: "same_profiles m (snd (add_jitter F R n x m))" for n x
    by (simp add: add_jitter_def Let_def same_profiles_def split: prod.splits)
  have reseed: "same_profiles m (set_seed R seed m)" for seed by (simp add: set_seed_def same_profiles_def)
  show ?thesis using assms sample trip jitter reseed
    by (cases op) (simp_all add: sample_network_latency_def sample_matching_latency_def sample_md_latency_def)
qed

lemma lm_exec_ok:
  assumes "lm_ok Z m" and "op_profile_ok Z op"
  shows "lm_ok Z (snd (lm_exec exact_ops R op m))"
proof (cases "\<exists>t p. op \<in> {SetClient t p, SetNetwork p, SetMatching p, SetMd p}")
  case True
  then show ?thesis using assms
    by (auto simp: lm_ok_def set_client_profile_def set_network_profile_def set_matching_profile_def
        set_md_profile_def split: if_splits)
next
  case False
  then have "same_profiles m (snd (lm_exec exact_ops R op m))" by (rule lm_exec_profiles)
  then show ?thesis using assms(1) by (simp only: same_profiles_ok)
qed

lemma init_profiles_ok:
  assumes "0 \<le> Z" and "Z \<le> 10 ^ 12"
  shows "lm_ok Z (LatencyModel_init exact_ops R seed)"
proof -
  have bound: "profile_ok Z (profile_of exact_ops mean sd p99 p999 tp mn)"
    if "0 \<le> mn" "0 \<le> sd" "sd \<le> 30000" "0 \<le> mean" "mean \<le> p99" "p99 \<le> 30000" "mn \<le> 500"
    for mean sd p99 p999 tp mn :: rat
  proof -
    have "(p99 - mean) / (23 / 10) \<le> 30000" using that by (simp add: field_simps)
    then have "max sd ((p99 - mean) / (23 / 10)) \<le> 30000" using that by simp
    moreover have "0 \<le> max sd ((p99 - mean) / (23 / 10))" using that by (simp add: le_max_iff_disj)
    ultimately have "Z * max sd ((p99 - mean) / (23 / 10)) \<le> 10 ^ 12 * 30000"
      using assms by (intro mult_mono) simp_all
    then show ?thesis using that by (simp add: profile_ok_def profile_max_def profile_of_def)
  qed
  show ?thesis unfolding lm_ok_def LatencyModel_init_def
    by (intro conjI) (simp_all add: bound)
qed

interpretation latency: invariant_system
  "\<lambda>m. 0 \<le> Z \<and> Z \<le> 10 ^ 12 \<and> (\<exists>seed. m = LatencyModel_init exact_ops R seed)" "lm_step Z R" "lm_ok Z"
  for Z :: rat and R :: "('d, 'g, rat) rand_ops"
  by unfold_locales (auto simp: lm_step_def intro: init_profiles_ok lm_exec_ok)

abbreviation lm_reachable :: "rat \<Rightarrow> ('d, 'g, rat) rand_ops \<Rightarrow> ('d, 'g, rat) LatencyModel \<Rightarrow> bool" where
  "lm_reachable Z R \<equiv> reachable
     (\<lambda>m. 0 \<le> Z \<and> Z \<le> 10 ^ 12 \<and> (\<exists>seed. m = LatencyModel_init exact_ops R seed)) (lm_step Z R)"

section \<open>Replay\<close>

text \<open>Two models that agree on everything the samples depend on.\<close>

definition agree :: "('d, 'g, 'f) LatencyModel \<Rightarrow> ('d, 'g, 'f) LatencyModel \<Rightarrow> bool" where
  "agree m1 m2 \<longleftrightarrow> same_profiles m1 m2 \<and> lm_dist m1 = lm_dist m2 \<and> lm_rng m1 = lm_rng m2"

lemma tail_agree:
  assumes "lm_dist m1 = lm_dist m2" and "lm_rng m1 = lm_rng m2"
  shows "fst (sample_gaussian_tail F R p m1) = fst (sample_gaussian_tail F R p m2)"
    and "lm_dist (snd (sample_gaussian_tail F R p m1)) = lm_dist (snd (sample_gaussian_tail F R p m2))"
    and "lm_rng (snd (sample_gaussian_tail F R p m1)) = lm_rng (snd (sample_gaussian_tail F R p m2))"
  using assms by (simp_all add: sample_gaussian_tail_def Let_def split: prod.splits)

lemma sample_agree:
  assumes "agree m1 m2"
  shows "fst (sample_latency F R p m1) = fst (sample_latency F R p m2) \<and>
    agree (snd (sample_latency F R p m1)) (snd (sample_latency F R p m2))"
proof -
  let ?m = "\<lambda>m. m\<lparr>lm_samples_generated := lm_samples_generated m + 1\<rparr>"
  have eq: "lm_dist (?m m1) = lm_dist (?m m2)" "lm_rng (?m m1) = lm_rng (?m m2)"
    using assms by (simp_all add: agree_def)
  note t = tail_agree [OF eq, of F R p]
  have "same_profiles (snd (sample_latency F R p m1)) (snd (sample_latency F R p m2))"
    using assms sample_profiles [of F R p m1] sample_profiles [of F R p m2]
    unfolding agree_def same_profiles_def by (metis prod.collapse)
  then show ?thesis using t
    by (simp add: agree_def sample_latency_def Let_def case_prod_beta)
qed

lemma trip_agree:
  assumes "agree m1 m2"
  shows "fst (sample_round_trip F R t m1) = fst (sample_round_trip F R t m2) \<and>
    agree (snd (sample_round_trip F R t m1)) (snd (sample_round_trip F R t m2))"
proof -
  obtain b1 n1 where 1: "sample_round_trip F R t m1 = (b1, n1)" by (metis prod.collapse)
  obtain b2 n2 where 2: "sample_round_trip F R t m2 = (b2, n2)" by (metis prod.collapse)
  have p: "network_profile t m1 = network_profile t m2" "lm_matching_profile m1 = lm_matching_profile m2"
    "lm_md_profile m1 = lm_md_profile m2"
    using assms by (auto simp: agree_def same_profiles_def network_profile_def split: option.splits)
  from round_trip_samples [OF 1] obtain x1 y1 z1 where a:
    "sample_latency F R (network_profile t m1) m1 = (lb_network_inbound_ns b1, x1)"
    "sample_latency F R (lm_matching_profile m1) x1 = (lb_matching_engine_ns b1, y1)"
    "sample_latency F R (network_profile t m1) y1 = (lb_network_outbound_ns b1, z1)"
    "sample_latency F R (lm_md_profile m1) z1 = (lb_md_dissemination_ns b1, n1)"
    "lb_total_ns b1 = lb_network_inbound_ns b1 + lb_matching_engine_ns b1 + lb_network_outbound_ns b1" .
  from round_trip_samples [OF 2] obtain x2 y2 z2 where b:
    "sample_latency F R (network_profile t m2) m2 = (lb_network_inbound_ns b2, x2)"
    "sample_latency F R (lm_matching_profile m2) x2 = (lb_matching_engine_ns b2, y2)"
    "sample_latency F R (network_profile t m2) y2 = (lb_network_outbound_ns b2, z2)"
    "sample_latency F R (lm_md_profile m2) z2 = (lb_md_dissemination_ns b2, n2)"
    "lb_total_ns b2 = lb_network_inbound_ns b2 + lb_matching_engine_ns b2 + lb_network_outbound_ns b2" .
  have s1: "lb_network_inbound_ns b1 = lb_network_inbound_ns b2 \<and> agree x1 x2"
    using sample_agree [OF assms, of F R "network_profile t m2"] a(1) b(1) p by simp
  have s2: "lb_matching_engine_ns b1 = lb_matching_engine_ns b2 \<and> agree y1 y2"
    using sample_agree [of x1 x2 F R "lm_matching_profile m2"] s1 a(2) b(2) p by simp
  have s3: "lb_network_outbound_ns b1 = lb_network_outbound_ns b2 \<and> agree z1 z2"
    using sample_agree [of y1 y2 F R "network_profile t m2"] s2 a(3) b(3) p by simp
  have s4: "lb_md_dissemination_ns b1 = lb_md_dissemination_ns b2 \<and> agree n1 n2"
    using sample_agree [of z1 z2 F R "lm_md_profile m2"] s3 a(4) b(4) p by simp
  have "b1 = b2" using s1 s2 s3 s4 a(5) b(5) by (cases b1; cases b2) simp
  then show ?thesis using 1 2 s4 by simp
qed

lemma lm_exec_agree:
  assumes "agree m1 m2"
  shows "fst (lm_exec F R op m1) = fst (lm_exec F R op m2) \<and>
    agree (snd (lm_exec F R op m1)) (snd (lm_exec F R op m2))"
proof -
  have p: "network_profile t m1 = network_profile t m2" "lm_matching_profile m1 = lm_matching_profile m2"
    "lm_md_profile m1 = lm_md_profile m2" for t
    using assms by (auto simp: agree_def same_profiles_def network_profile_def split: option.splits)
  have jitter: "fst (add_jitter F R n x m1) = fst (add_jitter F R n x m2) \<and>
      agree (snd (add_jitter F R n x m1)) (snd (add_jitter F R n x m2))" for n x
    using assms by (simp add: add_jitter_def Let_def agree_def same_profiles_def case_prod_beta)
  note s = sample_agree [OF assms] and t = trip_agree [OF assms]
  show ?thesis
  proof (cases op)
    case (RoundTrip t)
    then show ?thesis using trip_agree [OF assms, of F R t] by simp
  qed (use assms s jitter p in \<open>simp_all add: sample_network_latency_def sample_matching_latency_def
      sample_md_latency_def agree_def same_profiles_def set_client_profile_def set_network_profile_def
      set_matching_profile_def set_md_profile_def set_seed_def\<close>)
qed

lemma outputs_agree: "agree m1 m2 \<Longrightarrow> lm_outputs F R ops m1 = lm_outputs F R ops m2"
proof (induction ops arbitrary: m1 m2)
  case (Cons op ops)
  then show ?case using lm_exec_agree [OF Cons.prems, of F R op] by (simp add: case_prod_beta)
qed simp

section \<open>Two small generators\<close>

definition demo_rand :: "(unit, 64 word, rat) rand_ops" where
  "demo_rand = \<lparr>rd_fresh = (), rd_seed = (\<lambda>s. s),
     rd_uniform = (\<lambda>d g. (of_int (uint g mod 100) / 100, d, 5 * g + 1)),
     rd_normal = (\<lambda>d g. (if uint g mod 2 = 0 then 1 else - 1, d, g + 1)),
     rd_tail = (\<lambda>d g. (2, d, g + 3))\<rparr>"

text \<open>One whose normal distribution produces two values at a time and keeps the second.\<close>

definition demo_pairs :: "(rat option, 64 word, rat) rand_ops" where
  "demo_pairs = \<lparr>rd_fresh = None, rd_seed = (\<lambda>s. s), rd_uniform = (\<lambda>d g. (1, d, g)),
     rd_normal = (\<lambda>d g. case d of None \<Rightarrow> (of_int (uint g), Some 0, g + 1) | Some z \<Rightarrow> (z, None, g)),
     rd_tail = (\<lambda>d g. (0, d, g))\<rparr>"

abbreviation demo_latency :: "(unit, 64 word, rat) LatencyModel" where
  "demo_latency \<equiv> LatencyModel_init exact_ops demo_rand 42"

lemma demo_latency_reachable: "lm_reachable 2 demo_rand demo_latency"
  by (rule reachable_init) auto

section \<open>Properties\<close>

text \<open>C37: simulated round trips stay in the range of their profiles.  Without rounding: when the four draws a
  round trip makes are within \<open>Z\<close>, and the profiles are sensible for \<open>Z\<close> (the largest latency below
  \<^verbatim>\<open>2^62\<close> nanoseconds; the built-in profiles are for every \<open>Z\<close> up to \<^verbatim>\<open>10^12\<close>), each leg is the
  truncated latency its draw stands for under its profile (the client's own for the network, if it has
  one), between the floor of the profile and its largest value; the total is the sum of inbound,
  matching and outbound legs without overflow (market data not included), and four samples are
  counted.\<close>

theorem round_trip_ranges:
  assumes "lm_reachable Z R m" and "sample_round_trip exact_ops R trader_id m = (b, m')"
    and "list_all (draw_within Z) (trip_draws R trader_id m)"
  shows "map uint [lb_network_inbound_ns b, lb_matching_engine_ns b, lb_network_outbound_ns b,
        lb_md_dissemination_ns b] =
      map2 (\<lambda>p dr. floor (drawn_ns p dr))
        [network_profile trader_id m, lm_matching_profile m, network_profile trader_id m, lm_md_profile m]
        (trip_draws R trader_id m) \<and>
    within_profile Z (network_profile trader_id m) (lb_network_inbound_ns b) \<and>
    within_profile Z (lm_matching_profile m) (lb_matching_engine_ns b) \<and>
    within_profile Z (network_profile trader_id m) (lb_network_outbound_ns b) \<and>
    within_profile Z (lm_md_profile m) (lb_md_dissemination_ns b) \<and>
    uint (lb_total_ns b) = uint (lb_network_inbound_ns b) + uint (lb_matching_engine_ns b) +
      uint (lb_network_outbound_ns b) \<and>
    lm_samples_generated m' = lm_samples_generated m + 4"
proof -
  have "lm_ok Z m" by (rule latency.reachable_inv [OF assms(1)])
  then have ok: "profile_ok Z (network_profile trader_id m)" "profile_ok Z (lm_matching_profile m)"
    "profile_ok Z (lm_md_profile m)"
    by (auto simp: lm_ok_def network_profile_def split: option.splits)
  from round_trip_samples [OF assms(2)] obtain m1 m2 m3 where s:
    "sample_latency exact_ops R (network_profile trader_id m) m = (lb_network_inbound_ns b, m1)"
    "sample_latency exact_ops R (lm_matching_profile m) m1 = (lb_matching_engine_ns b, m2)"
    "sample_latency exact_ops R (network_profile trader_id m) m2 = (lb_network_outbound_ns b, m3)"
    "sample_latency exact_ops R (lm_md_profile m) m3 = (lb_md_dissemination_ns b, m')"
    and t: "lb_total_ns b = lb_network_inbound_ns b + lb_matching_engine_ns b + lb_network_outbound_ns b" .
  have same: "network_profile trader_id m2 = network_profile trader_id m"
    "lm_matching_profile m1 = lm_matching_profile m"
  proof -
    have p: "same_profiles m m1" "same_profiles m m2"
      using sample_profiles [OF s(1)] sample_profiles [OF s(2)] same_profiles_trans by blast+
    then show "lm_matching_profile m1 = lm_matching_profile m" by (simp add: same_profiles_def)
    have "lm_network_profile m2 = lm_network_profile m" "lm_client_profiles m2 = lm_client_profiles m"
      using p(2) by (simp_all add: same_profiles_def)
    then show "network_profile trader_id m2 = network_profile trader_id m"
      by (simp add: network_profile_def split: option.split)
  qed
  have draws: "trip_draws R trader_id m = [draw_of R (network_profile trader_id m) m,
      draw_of R (lm_matching_profile m) m1, draw_of R (network_profile trader_id m) m2,
      draw_of R (lm_md_profile m) m3]"
    using s same
    by (simp add: trip_draws_def sample_network_latency_def sample_matching_latency_def)
  have d: "draw_within Z (draw_of R (network_profile trader_id m) m)"
    "draw_within Z (draw_of R (lm_matching_profile m) m1)"
    "draw_within Z (draw_of R (network_profile trader_id m) m2)"
    "draw_within Z (draw_of R (lm_md_profile m) m3)"
    using assms(3) unfolding draws by simp_all
  note w = sample_within [OF d(1) ok(1) s(1)] sample_within [OF d(2) ok(2) s(2)]
    sample_within [OF d(3) ok(1) s(3)] sample_within [OF d(4) ok(3) s(4)]
  note small = within_bound [OF ok(1) w(2)] within_bound [OF ok(2) w(4)] within_bound [OF ok(1) w(6)]
  have "lm_samples_generated m' = lm_samples_generated m + 4"
    using sample_count [OF s(1)] sample_count [OF s(2)] sample_count [OF s(3)] sample_count [OF s(4)] by simp
  moreover have "uint (lb_total_ns b) = uint (lb_network_inbound_ns b) + uint (lb_matching_engine_ns b) +
      uint (lb_network_outbound_ns b)"
    using small unfolding t by (simp add: uint_word_ariths)
  ultimately show ?thesis using w unfolding draws by simp
qed

theorem round_trip_ranges_witness:
  "100 \<le> uint (lb_matching_engine_ns (fst (sample_round_trip exact_ops demo_rand 7 demo_latency))) \<and>
   lm_samples_generated (snd (sample_round_trip exact_ops demo_rand 7 demo_latency)) = 4"
proof -
  obtain b m' where r: "sample_round_trip exact_ops demo_rand 7 demo_latency = (b, m')" by (metis prod.collapse)
  have "draw_within 2 (draw_of demo_rand p m)" for p m
    by (auto simp: draw_of_def demo_rand_def split: prod.split)
  then have "list_all (draw_within 2) (trip_draws demo_rand 7 demo_latency)"
    by (simp add: trip_draws_def Let_def)
  then show ?thesis using round_trip_ranges [OF demo_latency_reachable r] r
    by (simp add: within_profile_def LatencyModel_init_def profile_of_def)
qed

text \<open>Replay.  After seeding, the samples of any sequence of operations (sampling, jitter, changes of
  profiles, further seeding) depend only on the seed, the profiles and the state the distributions
  keep: two models that agree on the latter two return the same numbers, whatever they did before
  and however many samples they counted.\<close>

lemma replay_after_seed:
  assumes "same_profiles m1 m2" and "lm_dist m1 = lm_dist m2"
  shows "lm_outputs F R (Reseed seed # ops) m1 = lm_outputs F R (Reseed seed # ops) m2"
proof -
  have "agree (set_seed R seed m1) (set_seed R seed m2)"
    using assms by (simp add: agree_def same_profiles_def set_seed_def)
  then show ?thesis using outputs_agree by auto
qed

lemma replay_after_seed_witness:
  "lm_outputs exact_ops demo_pairs [Reseed 3, SampleMatching] (snd (lm_exec exact_ops demo_pairs (Jitter 100 1)
      (snd (lm_exec exact_ops demo_pairs (Jitter 50 1) (LatencyModel_init exact_ops demo_pairs 1))))) =
   lm_outputs exact_ops demo_pairs [Reseed 3, SampleMatching] (LatencyModel_init exact_ops demo_pairs 8)"
  by (rule replay_after_seed)
     (simp_all add: same_profiles_def LatencyModel_init_def add_jitter_def demo_pairs_def Let_def)

text \<open>Seeding again does not discard the value a normal distribution has kept, so a model does not
  repeat what it produced when it was constructed with that seed.\<close>

lemma reseed_keeps_distribution:
  "lm_outputs exact_ops demo_pairs [SampleMatching, Reseed 1, SampleMatching]
     (LatencyModel_init exact_ops demo_pairs 1) = [600, 500]"
  by (simp add: LatencyModel_init_def sample_matching_latency_def sample_latency_def sample_gaussian_tail_def
      demo_pairs_def profile_of_def set_seed_def Let_def)

end
