(* ===== verification/ScopeTimers.thy ===== *)
theory ScopeTimers
  imports Prelude
begin

text \<open>
  \<^verbatim>\<open>src/ScopeTimer.hpp\<close> with timing enabled: the scope timer and the per-thread array of labelled
  timers.

  A reading of \<^verbatim>\<open>steady_clock\<close> is an argument, in nanoseconds, and a duration a wrapped difference.
  What is logged is returned: the label and the duration in units of \<open>T\<close> nanoseconds.  \<^verbatim>\<open>end\<close> with a
  label that is not found runs off the end of a function with a result, which is undefined
  (\<^const>\<open>None\<close>).  Labels are compared by their characters.
\<close>

section \<open>One timer\<close>

record ScopeTimer =
  st_InUse :: bool
  st_beginTime :: int

definition st_start :: "int \<Rightarrow> ScopeTimer \<Rightarrow> ScopeTimer" where
  "st_start now s = s\<lparr>st_InUse := True, st_beginTime := now\<rparr>"

definition st_end :: "int \<Rightarrow> ScopeTimer \<Rightarrow> int \<times> ScopeTimer" where
  "st_end now s = (sub64 now (st_beginTime s), s\<lparr>st_InUse := False\<rparr>)"

text \<open>\<^verbatim>\<open>log_\<close>: the duration in units of \<open>T\<close> nanoseconds, cut off towards zero, and the line printed.\<close>

definition duration_cast :: "int \<Rightarrow> int \<Rightarrow> int" where
  "duration_cast T d = d sdiv T"

definition st_log :: "int \<Rightarrow> int \<Rightarrow> int" where
  "st_log T duration = duration_cast T duration"

definition tm_log :: "int \<Rightarrow> int \<Rightarrow> string \<Rightarrow> string \<times> int" where
  "tm_log T duration label = (label, duration_cast T duration)"

lemma log_simps [simp]: "st_log T d = d sdiv T" "tm_log T d label = (label, d sdiv T)"
  by (simp_all add: st_log_def tm_log_def duration_cast_def)

definition st_endAndLog :: "int \<Rightarrow> int \<Rightarrow> ScopeTimer \<Rightarrow> int \<times> ScopeTimer" where
  "st_endAndLog T now s = (let (d, s) = st_end now s in (st_log T d, s))"

text \<open>The constructor, and the destructor, which logs when the timer is still in use.\<close>

definition ScopeTimer_init :: "bool \<Rightarrow> int \<Rightarrow> ScopeTimer" where
  "ScopeTimer_init raii now =
     (let s = \<lparr>st_InUse = False, st_beginTime = 0\<rparr> in if raii then st_start now s else s)"

definition ScopeTimer_destroy :: "int \<Rightarrow> int \<Rightarrow> ScopeTimer \<Rightarrow> int option" where
  "ScopeTimer_destroy T now s = (if st_InUse s then Some (fst (st_endAndLog T now s)) else None)"

section \<open>Labelled timers\<close>

record TimerSlot =
  ts_label :: string
  ts_scopeTimer :: ScopeTimer
  ts_used :: bool

definition SCOPE_TIMER_MAX_SLOTS :: nat where
  "SCOPE_TIMER_MAX_SLOTS = 32"

definition slots_init :: "TimerSlot list" where
  "slots_init = replicate SCOPE_TIMER_MAX_SLOTS
     \<lparr>ts_label = [], ts_scopeTimer = ScopeTimer_init False 0, ts_used = False\<rparr>"

text \<open>The loops run over the array and return from inside at the first slot that fits.\<close>

fun tm_start :: "string \<Rightarrow> int \<Rightarrow> TimerSlot list \<Rightarrow> TimerSlot list" where
  "tm_start label now [] = []"
| "tm_start label now (item # slots) =
     (if \<not> ts_used item
      then item\<lparr>ts_label := label, ts_used := True, ts_scopeTimer := st_start now (ts_scopeTimer item)\<rparr> # slots
      else item # tm_start label now slots)"

fun tm_end :: "string \<Rightarrow> int \<Rightarrow> TimerSlot list \<Rightarrow> (int \<times> TimerSlot list) option" where
  "tm_end label now [] = None"
| "tm_end label now (item # slots) =
     (if ts_used item \<and> ts_label item = label
      then (let (d, s) = st_end now (ts_scopeTimer item)
            in Some (d, item\<lparr>ts_used := False, ts_scopeTimer := s\<rparr> # slots))
      else map_option (map_prod id ((#) item)) (tm_end label now slots))"

fun tm_endAndLog :: "int \<Rightarrow> string \<Rightarrow> int \<Rightarrow> TimerSlot list \<Rightarrow> (string \<times> int) list \<times> TimerSlot list" where
  "tm_endAndLog T label now [] = ([], [])"
| "tm_endAndLog T label now (item # slots) =
     (if ts_label item = label
      then (let (d, s) = st_end now (ts_scopeTimer item)
            in ([tm_log T d (ts_label item)], item\<lparr>ts_scopeTimer := s\<rparr> # slots))
      else map_prod id ((#) item) (tm_endAndLog T label now slots))"

section \<open>Sequences of operations\<close>

datatype tm_op = Start string int | End string int | EndAndLog string int

text \<open>A result of \<^const>\<open>None\<close> is the undefined end of an unknown label.\<close>

fun tm_exec :: "tm_op \<Rightarrow> TimerSlot list \<Rightarrow> TimerSlot list option" where
  "tm_exec (Start label now) slots = Some (tm_start label now slots)"
| "tm_exec (End label now) slots = map_option snd (tm_end label now slots)"
| "tm_exec (EndAndLog label now) slots = Some (snd (tm_endAndLog 1 label now slots))"

fun tm_run :: "tm_op list \<Rightarrow> TimerSlot list \<Rightarrow> TimerSlot list option" where
  "tm_run [] slots = Some slots"
| "tm_run (op # ops) slots = Option.bind (tm_exec op slots) (tm_run ops)"

fun tm_label :: "tm_op \<Rightarrow> string" where
  "tm_label (Start label now) = label"
| "tm_label (End label now) = label"
| "tm_label (EndAndLog label now) = label"

text \<open>A running timer: the first slot with the label that is in use, whatever is in the slots before it.\<close>

fun running :: "string \<Rightarrow> TimerSlot list \<Rightarrow> int option" where
  "running label [] = None"
| "running label (item # slots) =
     (if ts_used item \<and> ts_label item = label then Some (st_beginTime (ts_scopeTimer item))
      else running label slots)"

definition in_use :: "TimerSlot list \<Rightarrow> nat" where
  "in_use slots = length (filter ts_used slots)"

lemma st_simps [simp]:
  "st_beginTime (st_start now s) = now" "fst (st_end now s) = sub64 now (st_beginTime s)"
  "st_beginTime (snd (st_end now s)) = st_beginTime s"
  by (simp_all add: st_start_def st_end_def)

lemma start_running:
  "running label slots = None \<Longrightarrow> in_use slots < length slots \<Longrightarrow> running label (tm_start label now slots) = Some now"
  by (induction label now slots rule: tm_start.induct) (auto simp: in_use_def split: if_splits)

lemma start_other:
  "l \<noteq> label \<Longrightarrow> running l (tm_start label now slots) = running l slots"
  by (induction label now slots rule: tm_start.induct) auto

lemma end_other:
  "l \<noteq> label \<Longrightarrow> tm_end label now slots = Some (d, slots') \<Longrightarrow> running l slots' = running l slots"
  by (induction label now slots arbitrary: slots' rule: tm_end.induct)
     (auto simp: Let_def split: if_splits prod.splits)

lemma log_other:
  "l \<noteq> label \<Longrightarrow> running l (snd (tm_endAndLog T label now slots)) = running l slots"
  by (induction T label now slots rule: tm_endAndLog.induct)
     (auto simp: Let_def split: prod.splits)

lemma exec_other:
  "l \<noteq> tm_label op \<Longrightarrow> tm_exec op slots = Some slots' \<Longrightarrow> running l slots' = running l slots"
  by (cases op) (auto simp: start_other log_other dest: end_other)

lemma run_other:
  "list_all (\<lambda>op. tm_label op \<noteq> l) ops \<Longrightarrow> tm_run ops slots = Some slots' \<Longrightarrow> running l slots' = running l slots"
proof (induction ops arbitrary: slots)
  case (Cons op ops)
  then obtain x where x: "tm_exec op slots = Some x" "tm_run ops x = Some slots'" by (auto split: bind_splits)
  have "tm_label op \<noteq> l" "list_all (\<lambda>op. tm_label op \<noteq> l) ops" using Cons.prems by simp_all
  then show ?case using Cons.IH [OF _ x(2)] exec_other [of l op slots x] x(1) by metis
qed simp

lemma end_running:
  "running label slots = Some t \<Longrightarrow> \<exists>slots'. tm_end label now slots = Some (sub64 now t, slots')"
  by (induction slots) (auto simp: Let_def st_end_def split: if_splits prod.splits)

lemma end_defined: "tm_end label now slots \<noteq> None \<longleftrightarrow> running label slots \<noteq> None"
  by (induction label now slots rule: tm_end.induct) (auto simp: Let_def split: prod.splits)

text \<open>The first free slot, and the first slot with a label.\<close>

lemma start_append:
  "list_all ts_used us \<Longrightarrow> tm_start label now (us @ slots) = us @ tm_start label now slots"
  by (induction us) auto

lemma log_append:
  "list_all (\<lambda>s. ts_label s \<noteq> label) us \<Longrightarrow>
   tm_endAndLog T label now (us @ slots) = map_prod id ((@) us) (tm_endAndLog T label now slots)"
  by (induction us) (auto simp: map_prod_def split: prod.splits)

lemma first_free:
  assumes "in_use slots < length slots"
  obtains us item rest where "slots = us @ item # rest" "list_all ts_used us" "\<not> ts_used item"
proof -
  have "\<not> list_all ts_used slots"
  proof
    assume "list_all ts_used slots"
    then have "filter ts_used slots = slots" by (simp add: list_all_iff filter_id_conv)
    then show False using assms by (simp add: in_use_def)
  qed
  then obtain x where "x \<in> set slots" "\<not> ts_used x" by (auto simp: list_all_iff)
  then obtain us item rest where "slots = us @ item # rest" "\<not> ts_used item" "\<forall>u \<in> set us. ts_used u"
    using split_list_first_prop [of slots "\<lambda>s. \<not> ts_used s"] by auto
  then show thesis using that by (simp add: list_all_iff)
qed

lemma in_use_append [simp]: "in_use (us @ vs) = in_use us + in_use vs"
  by (simp add: in_use_def)

lemma in_use_Cons [simp]: "in_use (s # slots) = (if ts_used s then 1 else 0) + in_use slots"
  by (simp add: in_use_def)

lemma in_use_Nil [simp]: "in_use [] = 0"
  by (simp add: in_use_def)

lemma in_use_start: "in_use (tm_start label now slots) = min (length slots) (in_use slots + 1)"
proof (induction label now slots rule: tm_start.induct)
  case (2 label now item slots)
  have "in_use slots \<le> length slots" by (simp add: in_use_def)
  then show ?case using 2 by (auto simp: min_def)
qed simp

lemma in_use_log [simp]: "in_use (snd (tm_endAndLog T label now slots)) = in_use slots"
  by (induction T label now slots rule: tm_endAndLog.induct) (auto simp: Let_def split: prod.splits)

lemma length_start [simp]: "length (tm_start label now slots) = length slots"
  by (induction label now slots rule: tm_start.induct) auto

lemma length_log [simp]: "length (snd (tm_endAndLog T label now slots)) = length slots"
  by (induction T label now slots rule: tm_endAndLog.induct) (auto simp: Let_def split: prod.splits)

text \<open>The documented use: start a label, then end and log it.\<close>

definition measured :: "int \<Rightarrow> (string \<times> int \<times> int) list \<Rightarrow> TimerSlot list \<Rightarrow> TimerSlot list" where
  "measured T ms slots =
     foldl (\<lambda>slots (label, t0, t1). snd (tm_endAndLog T label t1 (tm_start label t0 slots))) slots ms"

lemma measured_in_use:
  "in_use (measured T ms slots) = min (length slots) (in_use slots + length ms)"
proof (induction ms arbitrary: slots)
  case Nil
  then show ?case by (simp add: measured_def in_use_def)
next
  case (Cons m ms)
  obtain l t0 t1 where m: "m = (l, t0, t1)" by (cases m)
  then show ?case
    using Cons [of "snd (tm_endAndLog T l t1 (tm_start l t0 slots))"]
    by (simp add: measured_def in_use_start)
qed

section \<open>Nested timers\<close>

text \<open>C38: Nested timers do not disturb each other.  When a label that is not running is started while a
  slot is free, and later ended, with any operations on other labels in between (none of which ends
  an unknown label, which is undefined), ending it is defined and gives the time between the two, and
  every other label is running exactly as before, with the same start.\<close>

theorem nested_timers:
  assumes "running label slots = None" and "in_use slots < length slots"
    and "list_all (\<lambda>op. tm_label op \<noteq> label) ops" and "tm_run ops (tm_start label t0 slots) = Some slots'"
  shows "\<exists>slots''. tm_end label t1 slots' = Some (sub64 t1 t0, slots'') \<and>
    (\<forall>other. other \<noteq> label \<longrightarrow> running other slots'' = running other slots')"
proof -
  have "running label slots' = Some t0"
    using run_other [OF assms(3,4)] start_running [OF assms(1,2)] by simp
  from end_running [OF this] obtain slots'' where e: "tm_end label t1 slots' = Some (sub64 t1 t0, slots'')" by blast
  then show ?thesis using end_other [OF _ e] by blast
qed

theorem nested_timers_witness:
  "\<exists>slots' slots''. tm_run [Start ''lookup'' 15, EndAndLog ''lookup'' 18, Start ''io'' 20, End ''io'' 30]
      (tm_start ''total'' 10 slots_init) = Some slots' \<and> tm_end ''total'' 52 slots' = Some (42, slots'')"
proof -
  let ?ops = "[Start ''lookup'' 15, EndAndLog ''lookup'' 18, Start ''io'' 20, End ''io'' 30]"
  have init: "running ''total'' slots_init = None" "in_use slots_init < length slots_init" by code_simp+
  have "tm_run ?ops (tm_start ''total'' 10 slots_init) \<noteq> None" by code_simp
  then obtain slots' where r: "tm_run ?ops (tm_start ''total'' 10 slots_init) = Some slots'" by blast
  show ?thesis using nested_timers [OF init _ r, of 52] r by (auto simp: wrap64_def simp del: tm_run.simps)
qed

section \<open>Properties\<close>

text \<open>Ending with a log does not free the slot.  On any array with a free slot and no slot of that
  label, a first start and log reports the elapsed time, but the second start of the same label takes
  another slot and the second log reports the time since the first start; and after as many
  measurements as there are slots, in any labels, every later start is dropped.\<close>

lemma second_measurement_stale:
  assumes "list_all (\<lambda>s. ts_label s \<noteq> label) slots" and "in_use slots < length slots"
  shows "fst (tm_endAndLog T label t1 (tm_start label t0 slots)) = [(label, sub64 t1 t0 sdiv T)] \<and>
    fst (tm_endAndLog T label t3 (tm_start label t2 (measured T [(label, t0, t1)] slots))) =
      [(label, sub64 t3 t0 sdiv T)] \<and>
    (length slots \<le> in_use slots + length ms \<longrightarrow>
       tm_start l now (measured T ms slots) = measured T ms slots)"
proof (intro conjI impI)
  obtain us item rest where s: "slots = us @ item # rest" "list_all ts_used us" "\<not> ts_used item"
    by (rule first_free [OF assms(2)])
  have us: "list_all (\<lambda>s. ts_label s \<noteq> label) us" using assms(1) s(1) by simp
  show "fst (tm_endAndLog T label t1 (tm_start label t0 slots)) = [(label, sub64 t1 t0 sdiv T)]"
    using s us by (simp add: start_append log_append st_end_def)
  show "fst (tm_endAndLog T label t3 (tm_start label t2 (measured T [(label, t0, t1)] slots))) =
      [(label, sub64 t3 t0 sdiv T)]"
    using s us by (simp add: measured_def start_append log_append st_end_def)
  have full: "in_use slots = length slots \<Longrightarrow> tm_start l now slots = slots" for slots l now
  proof (induction slots)
    case (Cons s slots)
    have "in_use slots \<le> length slots" by (simp add: in_use_def)
    then show ?case using Cons by (auto split: if_splits)
  qed simp
  have len: "length (measured T ms slots) = length slots"
    by (induction ms arbitrary: slots) (auto simp: measured_def)
  assume "length slots \<le> in_use slots + length ms"
  then show "tm_start l now (measured T ms slots) = measured T ms slots"
    using measured_in_use [of T ms slots] len by (intro full) simp
qed

lemma second_measurement_stale_witness:
  "fst (tm_endAndLog 1 ''lookup'' 103 (tm_start ''lookup'' 100 (measured 1 [(''lookup'', 10, 15)] slots_init))) =
   [(''lookup'', 93)]"
proof -
  have "list_all (\<lambda>s. ts_label s \<noteq> ''lookup'') slots_init" "in_use slots_init < length slots_init" by code_simp+
  from second_measurement_stale [OF this, of 1 15 10 103 100] show ?thesis
    by (simp add: wrap64_def)
qed

end
