(* ===== verification/Benchmark.thy ===== *)
theory Benchmark
  imports Floats
begin

text \<open>
  \<^verbatim>\<open>src/benchmark_p99.hpp\<close>: measuring a callable and the 99th percentiles of its latencies.

  The callable together with the two clock readings around it is a function from a state to the
  elapsed nanoseconds and the next state; the buffer the caller lends is a list.
\<close>

section \<open>The benchmark\<close>

record bench_stats =
  bs_p99_ns :: int
  bs_p999_ns :: int
  bs_samples :: nat

definition clamp_index :: "nat \<Rightarrow> nat \<Rightarrow> nat" where
  "clamp_index idx size1 = (if idx \<ge> size1 then (if size1 \<noteq> 0 then size1 - 1 else 0) else idx)"

fun warm_up :: "('s \<Rightarrow> int \<times> 's) \<Rightarrow> nat \<Rightarrow> 's \<Rightarrow> 's" where
  "warm_up f 0 s = s"
| "warm_up f (Suc n) s = warm_up f n (snd (f s))"

text \<open>The measured calls from index \<open>i\<close> on.\<close>

fun measure_calls :: "('s \<Rightarrow> int \<times> 's) \<Rightarrow> nat \<Rightarrow> nat \<Rightarrow> int list \<Rightarrow> 's \<Rightarrow> int list \<times> 's" where
  "measure_calls f i 0 buf s = (buf, s)"
| "measure_calls f i (Suc n) buf s = (let (diff, s) = f s in measure_calls f (i + 1) n (buf[i := diff]) s)"

definition benchmark_p99 :: "'f float_ops \<Rightarrow> ('s \<Rightarrow> int \<times> 's) \<Rightarrow> int list \<Rightarrow> nat \<Rightarrow> nat \<Rightarrow> 's
    \<Rightarrow> bench_stats \<times> int list \<times> 's" where
  "benchmark_p99 F f latencies_buffer iterations warmup_iterations s =
     (let iterations = (if iterations > length latencies_buffer then length latencies_buffer else iterations);
          s = warm_up f warmup_iterations s;
          (buf, s) = measure_calls f 0 iterations latencies_buffer s
      in if iterations = 0 then (\<lparr>bs_p99_ns = 0, bs_p999_ns = 0, bs_samples = 0\<rparr>, buf, s)
         else (let data = sort (take iterations buf);
                   buf = data @ drop iterations buf;
                   n = iterations;
                   idx_p99 = clamp_index (nat (fl_trunc F (fl_mul F (fl_lit F (99 / 100)) (fl_of_int F (int (n - 1)))))) n;
                   idx_p999 = clamp_index (nat (fl_trunc F (fl_mul F (fl_lit F (999 / 1000)) (fl_of_int F (int (n - 1)))))) n
               in (\<lparr>bs_p99_ns = data ! idx_p99, bs_p999_ns = data ! idx_p999, bs_samples = n\<rparr>, buf, s)))"

section \<open>What is measured\<close>

text \<open>The elapsed times of \<open>n\<close> calls in a row.\<close>

fun calls_from :: "('s \<Rightarrow> int \<times> 's) \<Rightarrow> nat \<Rightarrow> 's \<Rightarrow> int list" where
  "calls_from f 0 s = []"
| "calls_from f (Suc n) s = fst (f s) # calls_from f n (snd (f s))"

lemma length_calls_from [simp]: "length (calls_from f n s) = n"
  by (induction f n s rule: calls_from.induct) simp_all

lemma warm_up_add: "warm_up f m (warm_up f n s) = warm_up f (n + m) s"
  by (induction f n s rule: warm_up.induct) simp_all

lemma measure_calls_spec:
  "i + n \<le> length buf \<Longrightarrow>
   measure_calls f i n buf s = (take i buf @ calls_from f n s @ drop (i + n) buf, warm_up f n s)"
proof (induction f i n buf s rule: measure_calls.induct)
  case (2 f i n buf s)
  then have "i < length buf" by simp
  then have "take (Suc i) (buf[i := d]) = take i buf @ [d]" for d by (simp add: take_Suc_conv_app_nth)
  then show ?case using 2 by (simp add: Let_def case_prod_beta)
qed simp

text \<open>The sample at a position of the sorted list splits the samples.\<close>

lemma sorted_position:
  fixes xs :: "int list"
  assumes "k < length xs"
  shows "length (filter (\<lambda>x. x < sort xs ! k) xs) \<le> k"
    and "k < length (filter (\<lambda>x. x \<le> sort xs ! k) xs)"
proof -
  let ?ys = "sort xs" and ?v = "sort xs ! k"
  have same: "length (filter P xs) = length (filter P ?ys)" for P
    by (metis mset_filter mset_sort size_mset)
  have k: "k < length ?ys" using assms by simp
  have ys: "?ys = take k ?ys @ drop k ?ys" by simp
  have "filter (\<lambda>x. x < ?v) (drop k ?ys) = []"
  proof -
    have "?v \<le> x" if x: "x \<in> set (drop k ?ys)" for x
    proof -
      obtain j where j: "x = drop k ?ys ! j" "j < length ?ys - k" using x by (metis in_set_conv_nth length_drop)
      then show ?thesis using sorted_nth_mono [of ?ys k "k + j"] k by simp
    qed
    then show ?thesis by (force simp: filter_empty_conv)
  qed
  then have "length (filter (\<lambda>x. x < ?v) ?ys) = length (filter (\<lambda>x. x < ?v) (take k ?ys))"
    by (metis append_Nil2 filter_append ys)
  also have "\<dots> \<le> k" by (rule order.trans [OF length_filter_le]) simp
  finally show "length (filter (\<lambda>x. x < ?v) xs) \<le> k" by (simp only: same)
  have "filter (\<lambda>x. x \<le> ?v) (take (Suc k) ?ys) = take (Suc k) ?ys"
  proof -
    have "x \<le> ?v" if x: "x \<in> set (take (Suc k) ?ys)" for x
    proof -
      obtain j where "x = ?ys ! j" "j \<le> k" using x by (auto simp: in_set_conv_nth less_Suc_eq_le)
      then show ?thesis using sorted_nth_mono [of ?ys j k] k by simp
    qed
    then show ?thesis by (simp add: filter_id_conv)
  qed
  then have "Suc k \<le> length (filter (\<lambda>x. x \<le> ?v) (take (Suc k) ?ys))" using k by simp
  also have "\<dots> \<le> length (filter (\<lambda>x. x \<le> ?v) ?ys)"
    by (metis append_take_drop_id filter_append le_add1 length_append)
  finally show "k < length (filter (\<lambda>x. x \<le> ?v) xs)" by (simp only: same Suc_le_eq)
qed

section \<open>Properties\<close>

text \<open>C39: the benchmark calls the function exactly the requested number of times after the warm-up (at most
  as often as the buffer is long), reports percentiles of those calls and no others, and leaves them
  sorted in the front of the buffer.  Without rounding, at most 99 percent of the other samples are
  below the reported p99, more than that many are at most p99, and p99 does not exceed p99.9.\<close>

theorem benchmark_percentiles:
  assumes "n = min iterations (length buf)" and "0 < n"
    and "benchmark_p99 exact_ops f buf iterations warmup s = (st, buf', s')"
    and "samples = calls_from f n (warm_up f warmup s)"
  shows "s' = warm_up f (warmup + n) s \<and> bs_samples st = n \<and> buf' = sort samples @ drop n buf \<and>
    of_nat (length (filter (\<lambda>x. x < bs_p99_ns st) samples)) \<le> (99 / 100) * (of_nat (n - 1) :: rat) \<and>
    (99 / 100) * (of_nat (n - 1) :: rat) < of_nat (length (filter (\<lambda>x. x \<le> bs_p99_ns st) samples)) \<and>
    bs_p99_ns st \<le> bs_p999_ns st"
proof -
  let ?m = "of_nat (n - 1) :: rat"
  define k where "k = nat (floor (99 / 100 * ?m))"
  define k' where "k' = nat (floor (999 / 1000 * ?m))"
  have "floor (99 / 100 * ?m) \<le> floor (999 / 1000 * ?m)" by (intro floor_mono mult_right_mono) simp_all
  then have kk: "k \<le> k'" by (simp add: k_def k'_def nat_mono)
  have "floor (999 / 1000 * ?m) \<le> floor ?m" by (intro floor_mono) simp
  then have "k' \<le> n - 1" unfolding k'_def by simp
  then have k'n: "k' < n" using assms(2) by simp
  then have kn: "k < n" using kk by simp
  have it: "(if length buf < iterations then length buf else iterations) = n" using assms(1) by auto
  have meas: "measure_calls f 0 n buf (warm_up f warmup s) = (samples @ drop n buf, warm_up f (warmup + n) s)"
    using measure_calls_spec [of 0 n buf f "warm_up f warmup s"] assms(1,4) by (simp add: warm_up_add)
  have len: "length samples = n" by (simp add: assms(4))
  have idx: "clamp_index (nat (fl_trunc exact_ops (99 / 100 * of_int (int (n - 1))))) n = k"
    "clamp_index (nat (fl_trunc exact_ops (999 / 1000 * of_int (int (n - 1))))) n = k'"
    using kn k'n by (simp_all add: clamp_index_def k_def k'_def)
  have st: "st = \<lparr>bs_p99_ns = sort samples ! k, bs_p999_ns = sort samples ! k', bs_samples = n\<rparr>"
    and buf': "buf' = sort samples @ drop n buf" and s': "s' = warm_up f (warmup + n) s"
    using assms(2,3) idx len unfolding benchmark_p99_def it by (simp_all add: Let_def meas)
  have "0 \<le> floor (99 / 100 * ?m)" by simp
  then have "(of_nat k :: rat) = of_int (floor (99 / 100 * ?m))" unfolding k_def by (simp only: of_nat_nat)
  then have lo: "of_nat k \<le> 99 / 100 * ?m" and hi: "99 / 100 * ?m < of_nat k + 1"
    using floor_correct [of "99 / 100 * ?m"] by (simp_all only: of_int_add of_int_1)
  have "of_nat (length (filter (\<lambda>x. x < sort samples ! k) samples)) \<le> (of_nat k :: rat)"
    using sorted_position(1) [of k samples] kn len by (simp only: of_nat_le_iff)
  then have below: "of_nat (length (filter (\<lambda>x. x < sort samples ! k) samples)) \<le> 99 / 100 * ?m"
    using lo by (rule order.trans)
  have "(of_nat (k + 1) :: rat) \<le> of_nat (length (filter (\<lambda>x. x \<le> sort samples ! k) samples))"
    using sorted_position(2) [of k samples] kn len by (simp only: of_nat_le_iff Suc_eq_plus1 [symmetric] Suc_le_eq)
  then have upto: "99 / 100 * ?m < of_nat (length (filter (\<lambda>x. x \<le> sort samples ! k) samples))"
    using hi by simp
  have "sort samples ! k \<le> sort samples ! k'"
    using sorted_nth_mono [of "sort samples" k k'] kk k'n len by simp
  then show ?thesis using below upto st buf' s' by simp
qed

definition demo_call :: "int \<Rightarrow> int \<times> int" where
  "demo_call s = ((7 * s) mod 10, s + 1)"

theorem benchmark_percentiles_witness:
  "bs_samples (fst (benchmark_p99 exact_ops demo_call [0, 0, 0, 9] 3 2 0)) = 3 \<and>
   snd (snd (benchmark_p99 exact_ops demo_call [0, 0, 0, 9] 3 2 0)) = 5 \<and>
   fst (snd (benchmark_p99 exact_ops demo_call [0, 0, 0, 9] 3 2 0)) = [1, 4, 8, 9]"
proof -
  obtain st buf' s' where r: "benchmark_p99 exact_ops demo_call [0, 0, 0, 9] 3 2 0 = (st, buf', s')"
    by (metis prod.collapse)
  have "warm_up demo_call (2 + 3) 0 = 5" "sort (calls_from demo_call 3 (warm_up demo_call 2 0)) = [1, 4, 8]"
    by code_simp+
  then show ?thesis using benchmark_percentiles [OF _ _ r refl, of 3] r by simp
qed

end
