(* ===== verification/BooksAgree.thy ===== *)
theory BooksAgree
  imports L3Properties SimpleBookProperties
begin

text \<open>
  The two order books of the library, \<^verbatim>\<open>orderbook/l3_order_book\<close> and \<^verbatim>\<open>market/order_book\<close>, match alike:
  both provide the interface \<open>priority_matcher\<close>.
\<close>

text \<open>Two books that show the same side do the same to it.\<close>

locale two_matchers = first: priority_matcher inv1 typed1 wanted1 accepts1 side1 execute1 +
    second: priority_matcher inv2 typed2 wanted2 accepts2 side2 execute2
  for inv1 :: "'b \<Rightarrow> bool" and typed1 :: "'i \<Rightarrow> bool" and wanted1 accepts1 side1 execute1
    and inv2 :: "'c \<Rightarrow> bool" and typed2 :: "'j \<Rightarrow> bool" and wanted2 accepts2 side2 execute2
begin

lemma agree:
  assumes "inv1 b" and "inv2 c" and "typed1 i" and "typed2 j"
    and "wanted1 i = wanted2 j" and "accepts1 i = accepts2 j" and "side1 i b = side2 j c"
    and "execute1 i b = (trades, r, b')" and "execute2 j c = (trades', r', c')"
  shows "trades = trades' \<and> r = r' \<and> side1 i b' = side2 j c'"
  using first.execute_law [OF assms(1,3,8)] second.execute_law [OF assms(2,4,9)] assms(5-7) by force

end

interpretation books: two_matchers l3_inv "\<lambda>inc. order_typed inc \<and> o_tif inc \<noteq> FOK" o_quantity tradable
  "\<lambda>inc b. a_opposite inc (abs_book b)" "l3_execute ts"
  ob_inv "\<lambda>inc. i64_ok (bo_qty inc)" bo_qty takes ob_side "ob_execute ts'" for ts ts'
  by unfold_locales

lemma same_acceptance:
  assumes "bo_side inc' = o_side inc" and "bo_type inc' = o_type inc" and "bo_price inc' = o_price inc"
  shows "takes inc' = tradable inc"
  using assms by (cases "o_type inc") (auto simp: fun_eq_iff takes_def no_more_matches_def tradable_def split: Side.split)

section \<open>Properties\<close>

text \<open>C13: the two order books match alike.  When a reachable order-level book and a reachable simple book
  show the same orders on the side opposite to an incoming order (not fill-or-kill, which the simple
  book does not know), they report the same trades in the same order, leave the same quantity, and
  show the same orders on that side afterwards, so the comparison can go on.\<close>

theorem books_agree:
  assumes "l3_reachable b" and "ob_reachable c" and "order_typed inc" and "o_tif inc \<noteq> FOK"
    and "bo_side inc' = o_side inc" and "bo_type inc' = o_type inc" and "bo_price inc' = o_price inc"
    and "bo_qty inc' = o_quantity inc"
    and "a_opposite inc (abs_book b) = map ob_abs (nodes (ob_opposite (bo_side inc') c))"
    and "match_incoming inc ts b = (result, b')" and "matchIncoming inc' ts' c = (trades, remaining, c')"
  shows "map trade_triple (mr_trades result) = map trade_triple trades \<and> mr_remaining_qty result = remaining \<and>
    a_opposite inc (abs_book b') = map ob_abs (nodes (ob_opposite (bo_side inc') c'))"
proof -
  have run: "l3_execute ts inc b = (map trade_triple (mr_trades result), mr_remaining_qty result, b')"
    "ob_execute ts' inc' c = (map trade_triple trades, remaining, c')"
    using assms(10,11) by (simp_all add: l3_execute_def ob_execute_def)
  have typed: "order_typed inc \<and> o_tif inc \<noteq> FOK" "i64_ok (bo_qty inc')"
    using assms(3,4,8) by (simp_all add: order_typed_def)
  show ?thesis
    using books.agree [OF l3.reachable_inv [OF assms(1)] simple_book.reachable_inv [OF assms(2)] typed
        assms(8) [symmetric] same_acceptance [OF assms(5-7), symmetric] _ run] assms(9)
    by (simp add: ob_side_def)
qed

definition twin_order :: "OrderId \<Rightarrow> Price \<Rightarrow> Quantity \<Rightarrow> Order" where
  "twin_order i p q = (demo_order i Sell Day p q)\<lparr>o_trader_id := 9\<rparr>"

definition twin_book :: L3OrderBook where
  "twin_book = book_after (book_after (book_after (L3OrderBook_init Symbol_default)
     (twin_order 1 100 5) 1) (twin_order 2 101 4) 2) (twin_order 3 100 6) 3"

lemma twin_reachable: "l3_reachable twin_book"
proof -
  have "l3_reachable (L3OrderBook_init Symbol_default)"
    by (rule reachable_init) (simp add: l3_initial_def L3OrderBook_init_def)
  then show ?thesis
    unfolding twin_book_def
    by (intro book_after_reachable) (simp_all add: twin_order_def order_typed_def demo_order_def i64_ok_def)
qed

theorem books_agree_witness:
  "map trade_triple (mr_trades (fst (match_incoming (demo_order 7 Buy Day 100 8) 5 twin_book))) =
     map trade_triple (fst (matchIncoming (demo_ord 7 Buy 100 8) 6 demo_simple)) \<and>
   length (mr_trades (fst (match_incoming (demo_order 7 Buy Day 100 8) 5 twin_book))) = 2"
proof -
  let ?i = "demo_order 7 Buy Day 100 8" and ?j = "demo_ord 7 Buy 100 8"
  obtain result b' where m: "match_incoming ?i 5 twin_book = (result, b')" by (metis prod.collapse)
  obtain trades remaining c' where n: "matchIncoming ?j 6 demo_simple = (trades, remaining, c')"
    by (metis prod_cases3)
  have same: "bo_side ?j = o_side ?i" "bo_type ?j = o_type ?i" "bo_price ?j = o_price ?i" "bo_qty ?j = o_quantity ?i"
    by (simp_all add: demo_ord_def)
  have sides: "a_opposite ?i (abs_book twin_book) = map ob_abs (nodes (ob_opposite (bo_side ?j) demo_simple))"
    by code_simp
  have typed: "order_typed ?i" "o_tif ?i \<noteq> FOK" by (simp_all add: i64_ok_def)
  have "length (mr_trades (fst (match_incoming ?i 5 twin_book))) = 2" by code_simp
  then show ?thesis
    using books_agree [OF twin_reachable demo_simple_reachable typed same sides m n] m n by simp
qed

end
