(* ===== verification/MarketFeed.thy ===== *)
theory MarketFeed
  imports EngineOutputs L3Queries MarketData
begin

text \<open>
  The way of a change to a subscriber: the matching engine's market data callbacks feed the market
  data engine, whose queue is drained to the handlers.  First which changes a book publishes, then
  what the composition delivers, without a throttle and with one.
\<close>

section \<open>The best prices depend on the resting orders only\<close>

definition tob_events :: "book_event list \<Rightarrow> TopOfBook list" where
  "tob_events calls = concat (map (\<lambda>ev. case ev of TobEv tob \<Rightarrow> [tob] | _ \<Rightarrow> []) calls)"

lemma tob_events_simps [simp]:
  "tob_events [] = []" "tob_events (xs @ ys) = tob_events xs @ tob_events ys"
  "tob_events (map TradeEv trades) = []"
  "bk_tob_cb b \<Longrightarrow> tob_events (publish_tob b ts) = [top_of_book b ts]"
  by (induction trades) (simp_all add: tob_events_def publish_tob_def)

text \<open>The same orders at the same priorities.\<close>

definition same_orders :: "L3OrderBook \<Rightarrow> L3OrderBook \<Rightarrow> bool" where
  "same_orders b b' \<longleftrightarrow> bk_symbol b' = bk_symbol b \<and> nodes (bk_bids b') = nodes (bk_bids b) \<and>
     nodes (bk_asks b') = nodes (bk_asks b)"

lemma head_level:
  assumes "price_levels before" and "levels_ok before node_price ls"
    and "\<forall>n \<in> set (nodes ls). l_visible_qty (snd n) = node_open n"
  shows "(case ls of [] \<Rightarrow> None | (p, q) # _ \<Rightarrow> Some (level_info p q)) =
    (case nodes ls of [] \<Rightarrow> None | n # _ \<Rightarrow> Some (price_summary (nodes ls) (node_price n)))"
proof (cases ls)
  case (Cons l ls')
  obtain p q where l: "l = (p, q)" by (cases l)
  then have q: "q \<noteq> []" "\<forall>x \<in> set q. node_price x = p" using assms(2) Cons by (auto simp: levels_ok_Cons)
  then obtain n q' where n: "q = n # q'" "node_price n = p" by (cases q) auto
  have "level_info p q = price_summary (nodes ls) p"
    using level_summary [OF assms(1,2) _ assms(3)] Cons l by simp
  then show ?thesis using Cons l n by simp
qed simp

lemma same_orders_top:
  assumes "l3_reachable b" and "l3_reachable b'" and "same_orders b b'"
  shows "top_of_book b' ts = top_of_book b ts"
proof -
  have inv: "l3_inv b" "l3_inv b'" using assms(1,2) l3.reachable_inv by blast+
  have vis: "\<forall>n \<in> set (nodes (bk_bids b)). l_visible_qty (snd n) = node_open n"
    "\<forall>n \<in> set (nodes (bk_asks b)). l_visible_qty (snd n) = node_open n"
    "\<forall>n \<in> set (nodes (bk_bids b')). l_visible_qty (snd n) = node_open n"
    "\<forall>n \<in> set (nodes (bk_asks b')). l_visible_qty (snd n) = node_open n"
    using reachable_visible [OF assms(1)] reachable_visible [OF assms(2)] by (simp_all add: all_nodes_def)
  have "best_bid b' = best_bid b"
    using head_level [OF bid.price_levels_axioms l3_invD(5) [OF inv(1)] vis(1)]
      head_level [OF bid.price_levels_axioms l3_invD(5) [OF inv(2)] vis(3)] assms(3)
    by (simp add: best_bid_def same_orders_def cong: list.case_cong)
  moreover have "best_ask b' = best_ask b"
    using head_level [OF ask.price_levels_axioms l3_invD(6) [OF inv(1)] vis(2)]
      head_level [OF ask.price_levels_axioms l3_invD(6) [OF inv(2)] vis(4)] assms(3)
    by (simp add: best_ask_def same_orders_def cong: list.case_cong)
  moreover have "bk_symbol b' = bk_symbol b" using assms(3) by (simp add: same_orders_def)
  ultimately show ?thesis by (simp add: top_of_book_def)
qed

section \<open>Every change of the book is published\<close>

definition published :: "L3OrderBook \<Rightarrow> L3OrderBook \<Rightarrow> book_event list \<Rightarrow> Timestamp \<Rightarrow> bool" where
  "published b b' calls ts \<longleftrightarrow> bk_tob_cb b' \<and> bk_symbol b' = bk_symbol b \<and>
     (\<forall>tob \<in> set (tob_events calls). tob_symbol tob = bk_symbol b) \<and>
     (if tob_events calls = [] then same_orders b b' else last (tob_events calls) = top_of_book b' ts)"

lemma top_of_book_symbol [simp]: "tob_symbol (top_of_book b ts) = bk_symbol b"
  by (simp add: top_of_book_def Let_def split: option.split)

lemma fill_none: "fill r ns = (r', kept, []) \<Longrightarrow> kept = ns \<and> r' = r"
  by (cases ns) (auto split: if_splits prod.splits)

lemma add_order_published:
  assumes inv: "l3_inv b" and typed: "order_typed inc" and cb: "bk_tob_cb b"
    and add: "add_order b inc ts = (rpt, b', calls)"
  shows "published b b' calls ts"
proof (cases rule: add_order_effect [OF inv typed add])
  case 1
  then show ?thesis using cb by (simp add: published_def same_orders_def)
next
  case 2
  then show ?thesis using cb by (simp add: published_def same_orders_def)
next
  case (3 r kept fs ls' result)
  have cb': "bk_tob_cb b'" "bk_symbol b' = bk_symbol b"
    using 3(6) cb by (simp_all add: set_opposite_def split: Side.split)
  show ?thesis
  proof (cases "fs \<noteq> [] \<or> r_status rpt = New")
    case True
    then show ?thesis using 3(9) cb' by (simp add: published_def)
  next
    case False
    then have none: "kept = nodes (eligible inc (opposite inc b))" "r = o_quantity inc"
      using fill_none 3(3) by blast+
    have status: "r_status rpt \<noteq> New" using False by simp
    have "\<not> (r > 0 \<and> o_type inc = Limit \<and> o_tif inc \<in> {Day, GTC})"
      using status settled_fields(3) [OF 3(8)] 3(4) none(2) by (auto split: if_splits)
    then have "b' = set_opposite inc ls' b" using 3(6) False by auto
    moreover have "nodes ls' = nodes (opposite inc b)" using 3(5) none(1) nodes_split by metis
    ultimately have "same_orders b b'"
      by (auto simp: same_orders_def set_opposite_def opposite_def split: Side.splits)
    then show ?thesis using 3(9) False cb' by (simp add: published_def)
  qed
qed

lemma published_trans:
  assumes "l3_reachable b1" and "l3_reachable b2" and "tob_events calls1 \<noteq> []"
    and "\<forall>tob \<in> set (tob_events calls1). tob_symbol tob = bk_symbol b" and "bk_symbol b1 = bk_symbol b"
    and "last (tob_events calls1) = top_of_book b1 ts" and "published b1 b2 calls2 ts"
  shows "published b b2 (calls1 @ calls2) ts"
  using assms same_orders_top [OF assms(1,2)] by (auto simp: published_def last_append)

lemma cancel_order_published:
  assumes "l3_inv b" and "bk_tob_cb b" and "cancel_order b i ts = Some (rpt, b', calls)"
  shows "published b b' calls ts"
  using assms(2,3)
  by (cases rule: cancel_order_cases [OF assms(1), of i ts]) (auto simp: published_def same_orders_def)

lemma replace_order_published:
  assumes reach: "l3_reachable b" and typed: "replace_typed req" and cb: "bk_tob_cb b"
    and rep: "replace_order b req ts = Some (rpt, b', calls)"
  shows "published b b' calls ts"
proof -
  have inv: "l3_inv b" by (rule l3.reachable_inv [OF reach])
  show ?thesis
  proof (cases rule: replace_order_cases [OF inv, of req ts])
    case 1
    then show ?thesis using rep cb by (simp add: published_def same_orders_def)
  next
    case (2 n rpt2 b2 calls2)
    have cb1: "bk_tob_cb (cancelled n b)" using cb by simp
    have eq: "b2 = b'" "calls = publish_tob (cancelled n b) ts @ calls2" using 2(4) rep by simp_all
    note typed' = replacement_typed [OF typed]
    have "published (cancelled n b) b2 calls2 ts"
      by (rule add_order_published [OF cancelled_preserves [OF inv 2(1)] typed' cb1 2(3)])
    moreover have "cancel_order b (node_id n) ts =
        Some (cancel_report b (node_id n) (snd n) ts, cancelled n b, publish_tob (cancelled n b) ts)"
      using inv 2(1) cancel_effect by blast
    then have r1: "l3_reachable (cancelled n b)" using reach l3_step.cancel by (blast intro: reachable_step)
    moreover have "l3_reachable b2" using r1 l3_step.add [OF typed' 2(3)] by (rule reachable_step)
    ultimately show ?thesis using published_trans [of "cancelled n b" b2] cb1 eq by simp
  qed
qed

text \<open>A book operation of the engine: the book stays reachable and says what it does.\<close>

lemma result_published:
  assumes inv: "me_inv me" and typed: "op_typed op" and res: "book_result op me = Some (s, rpt, b', calls)"
    and cb: "\<And>b. get_book s me = Some b \<Longrightarrow> bk_tob_cb b"
  obtains b ts where "get_book s me = Some b" "published b b' calls ts"
proof (cases op)
  case (NewOrder order ts ts')
  obtain b where b: "get_book s me = Some b" "add_order b order ts = (rpt, b', calls)"
    using res NewOrder by (auto split: bind_splits if_splits)
  note k = me_inv_book [OF inv b(1)]
  show thesis using that [OF b(1)] add_order_published [OF _ _ cb [OF b(1)] b(2)] k typed NewOrder by simp
next
  case (CancelOrder cancel ts ts')
  obtain b where b: "get_book s me = Some b" "cancel_order b (c_order_id cancel) ts = Some (rpt, b', calls)"
    using res CancelOrder by (auto split: bind_splits)
  note k = me_inv_book [OF inv b(1)]
  show thesis using that [OF b(1)] cancel_order_published [OF _ cb [OF b(1)] b(2)] k by simp
next
  case (ReplaceOrder req ts ts')
  obtain b where b: "get_book s me = Some b" "replace_order b req ts = Some (rpt, b', calls)"
    using res ReplaceOrder by (auto split: bind_splits)
  note k = me_inv_book [OF inv b(1)]
  show thesis using that [OF b(1)] replace_order_published [OF _ _ cb [OF b(1)] b(2)] k typed ReplaceOrder by simp
qed (use res in simp_all)

section \<open>Feeding the market data engine\<close>

text \<open>A client registers the three update functions of the market data engine as callbacks; each call takes
  its own clock reading.\<close>

fun feed_event :: "engine_event \<times> Timestamp \<Rightarrow> MarketDataEngine \<Rightarrow> MarketDataEngine" where
  "feed_event (TradeOut t, now) e = on_trade_report t now e"
| "feed_event (L1Out tob, now) e = on_tob_update tob now e"
| "feed_event (L2Out d, now) e = on_depth_update d now e"
| "feed_event (ExecOut rpt, now) e = e"

definition feed :: "(engine_event \<times> Timestamp) list \<Rightarrow> MarketDataEngine \<Rightarrow> MarketDataEngine" where
  "feed evs e = foldl (\<lambda>e ev. feed_event ev e) e evs"

fun payloads :: "engine_event \<Rightarrow> md_payload list" where
  "payloads (TradeOut t) = [MDTrade t]"
| "payloads (L1Out tob) = [MDTob tob]"
| "payloads (L2Out d) = [MDDepth d]"
| "payloads (ExecOut rpt) = []"

definition out_payloads :: "engine_event list \<Rightarrow> md_payload list" where
  "out_payloads outs = concat (map payloads outs)"

lemma take_grow: "length xs \<le> n \<Longrightarrow> take n (xs @ [x]) = (if length xs < n then xs @ [x] else xs)"
  by simp

lemma take_take_append: "take n (take n xs @ ys) = take n (xs @ ys)"
  by (cases "length xs \<le> n") simp_all

lemma feed_event_effect:
  assumes inv: "md_inv e" and thr: "md_throttle_ns e = 0"
  shows "md_inv (feed_event ev e)" "md_throttle_ns (feed_event ev e) = 0"
    "map msg_payload (md_pending (feed_event ev e)) =
       take 16383 (map msg_payload (md_pending e) @ payloads (fst ev))"
    "deliver (feed_event ev e) = deliver e"
proof -
  obtain x now where ev: "ev = (x, now)" by (cases ev)
  have no: "should_throttle s now e = (False, e)" for s by (simp add: should_throttle_def thr)
  note room = md_room [OF inv]
  have enq: "map msg_payload (md_pending (enqueue msg e)) = take 16383 (map msg_payload (md_pending e) @ [msg_payload msg])"
    if "msg_ok msg" for msg
    using enqueue_effect(2) [OF inv that] room by simp
  have del: "deliver (enqueue msg e) = deliver e" for msg
    by (rule ext) (simp add: enqueue_def)
  show "md_inv (feed_event ev e)" using update_inv [OF inv] inv ev by (cases x) simp_all
  show "md_throttle_ns (feed_event ev e) = 0"
    using thr ev no by (cases x) (simp_all add: on_tob_update_def on_depth_update_def on_trade_report_def enqueue_def)
  show "map msg_payload (md_pending (feed_event ev e)) =
       take 16383 (map msg_payload (md_pending e) @ payloads (fst ev))"
    using ev no room enq [OF msg_ok_built(1)] enq [OF msg_ok_built(2)] enq [OF msg_ok_built(3)]
    by (cases x) (simp_all add: on_tob_update_def on_depth_update_def on_trade_report_def)
  show "deliver (feed_event ev e) = deliver e"
    using ev no del by (cases x) (simp_all add: on_tob_update_def on_depth_update_def on_trade_report_def)
qed

lemma feed_effect:
  assumes "md_inv e" and "md_throttle_ns e = 0"
  shows "md_inv (feed evs e) \<and> md_throttle_ns (feed evs e) = 0 \<and>
    map msg_payload (md_pending (feed evs e)) =
      take 16383 (map msg_payload (md_pending e) @ out_payloads (map fst evs)) \<and>
    deliver (feed evs e) = deliver e"
  using assms
proof (induction evs arbitrary: e)
  case Nil
  then show ?case using md_room by (simp add: feed_def out_payloads_def)
next
  case (Cons ev evs)
  note f = feed_event_effect [OF Cons.prems, of ev]
  have "feed (ev # evs) e = feed evs (feed_event ev e)" by (simp add: feed_def)
  then show ?case using Cons.IH [OF f(1,2)] f(3,4)
    by (simp add: out_payloads_def take_take_append del: take_append)
qed

lemma feed_published:
  assumes "md_inv e" and "md_throttle_ns e = 0" and "md_pending e = []"
  obtains e' where "process_pending (feed evs e) =
      Some (e', concat (map (deliver e) (take 16383 (out_payloads (map fst evs)))))"
    "md_inv e'" "md_throttle_ns e' = 0" "md_pending e' = []" "deliver e' = deliver e"
proof -
  note f = feed_effect [OF assms(1,2), of evs]
  then have inv: "md_inv (feed evs e)" by blast
  obtain q where q: "process_pending (feed evs e) = Some ((feed evs e)\<lparr>md_queue := q, md_messages_published :=
      md_messages_published (feed evs e) + of_nat (length (md_pending (feed evs e)))\<rparr>,
      concat (map (\<lambda>msg. deliver (feed evs e) (msg_payload msg)) (md_pending (feed evs e))))"
    "rb_ok q" "rb_contents q = []" "rb_capacity q = 16383"
    by (rule md_pending_spec [OF inv])
  have "concat (map (\<lambda>msg. deliver (feed evs e) (msg_payload msg)) (md_pending (feed evs e))) =
      concat (map (deliver e) (map msg_payload (md_pending (feed evs e))))"
    using conjunct2 [OF conjunct2 [OF conjunct2 [OF f]]] by (simp add: comp_def)
  then have calls: "concat (map (\<lambda>msg. deliver (feed evs e) (msg_payload msg)) (md_pending (feed evs e))) =
      concat (map (deliver e) (take 16383 (out_payloads (map fst evs))))"
    using f assms(3) by (simp del: map_map)
  show thesis
  proof (rule that)
    show "process_pending (feed evs e) = Some ((feed evs e)\<lparr>md_queue := q, md_messages_published :=
      md_messages_published (feed evs e) + of_nat (length (md_pending (feed evs e)))\<rparr>,
      concat (map (deliver e) (take 16383 (out_payloads (map fst evs)))))"
      using q(1) calls by simp
  qed (use q f in \<open>auto simp: md_inv_def md_pending_def\<close>)
qed

section \<open>A subscriber's picture\<close>

text \<open>The last top of book a handler got for each symbol.\<close>

definition see :: "nat \<Rightarrow> md_call list \<Rightarrow> (Symbol \<rightharpoonup> TopOfBook) \<Rightarrow> (Symbol \<rightharpoonup> TopOfBook)" where
  "see h calls seen = foldl (\<lambda>seen c. case c of L1Call h' tob \<Rightarrow>
     if h' = h then seen(tob_symbol tob \<mapsto> tob) else seen | _ \<Rightarrow> seen) seen calls"

definition remember :: "(Symbol \<rightharpoonup> TopOfBook) \<Rightarrow> TopOfBook \<Rightarrow> (Symbol \<rightharpoonup> TopOfBook)" where
  "remember seen tob = seen(tob_symbol tob \<mapsto> tob)"

record feed_sys =
  fs_engine :: MatchingEngine
  fs_feed :: MarketDataEngine
  fs_seen :: "Symbol \<rightharpoonup> TopOfBook"
  fs_missed :: "Symbol set"

definition feed_init :: "nat \<Rightarrow> feed_sys \<Rightarrow> bool" where
  "feed_init h x \<longleftrightarrow> x = \<lparr>fs_engine = MatchingEngine_init\<lparr>me_trade_cb := True, me_l1_cb := True, me_l2_cb := True\<rparr>,
     fs_feed = subscribe_l1 h MarketDataEngine_init, fs_seen = Map.empty, fs_missed = {}\<rparr>"

text \<open>An operation of the matching engine, its callbacks, and the draining of the queue.  The queue drops
  what an operation causes beyond 16383 events.  \<open>fs_missed\<close> records the symbols for which that has
  happened and no later operation has published a top of the book in full.\<close>

definition missed_after :: "me_op \<Rightarrow> MatchingEngine \<Rightarrow> Symbol set \<Rightarrow> Symbol set" where
  "missed_after op me missed =
     (case book_result op me of
        None \<Rightarrow> missed
      | Some (s, rpt, b', calls) \<Rightarrow>
          if length (me_outputs op me) > 16383 then insert s missed
          else if tob_events calls = [] then missed else missed - {s})"

inductive feed_step :: "nat \<Rightarrow> feed_sys \<Rightarrow> feed_sys \<Rightarrow> bool" for h where
  operation: "op_typed op \<Longrightarrow> me_exec op (fs_engine x) = Some me' \<Longrightarrow>
    map fst evs = me_outputs op (fs_engine x) \<Longrightarrow>
    process_pending (feed evs (fs_feed x)) = Some (e', calls) \<Longrightarrow>
    feed_step h x \<lparr>fs_engine = me', fs_feed = e', fs_seen = see h calls (fs_seen x),
      fs_missed = missed_after op (fs_engine x) (fs_missed x)\<rparr>"

inductive_cases feed_stepE: "feed_step h x x'"

definition seen_ok :: "L3OrderBook \<Rightarrow> TopOfBook option \<Rightarrow> bool" where
  "seen_ok b seen \<longleftrightarrow> (case seen of None \<Rightarrow> all_nodes b = [] | Some tob \<Rightarrow> \<exists>ts. tob = top_of_book b ts)"

definition feed_inv :: "nat \<Rightarrow> feed_sys \<Rightarrow> bool" where
  "feed_inv h x \<longleftrightarrow> me_inv (fs_engine x) \<and> me_l1_cb (fs_engine x) \<and> queries_ok (fs_engine x) \<and>
     (\<forall>s b. get_book s (fs_engine x) = Some b \<longrightarrow> bk_tob_cb b \<and> (s \<notin> fs_missed x \<longrightarrow> seen_ok b (fs_seen x s))) \<and>
     (\<forall>s. get_book s (fs_engine x) = None \<longrightarrow> fs_seen x s = None) \<and>
     md_inv (fs_feed x) \<and> md_throttle_ns (fs_feed x) = 0 \<and> md_pending (fs_feed x) = [] \<and>
     deliver (fs_feed x) = deliver (subscribe_l1 h MarketDataEngine_init)"

definition payload_tobs :: "md_payload list \<Rightarrow> TopOfBook list" where
  "payload_tobs ps = concat (map (\<lambda>p. case p of MDTob tob \<Rightarrow> [tob] | _ \<Rightarrow> []) ps)"

lemma see_delivered:
  "see h (concat (map (deliver (subscribe_l1 h MarketDataEngine_init)) ps)) seen =
   foldl remember seen (payload_tobs ps)"
proof (induction ps arbitrary: seen)
  case Nil
  then show ?case by (simp add: see_def payload_tobs_def)
next
  case (Cons p ps)
  have "see h (deliver (subscribe_l1 h MarketDataEngine_init) p) seen =
      foldl remember seen (payload_tobs [p])"
    by (cases p) (simp_all add: see_def payload_tobs_def remember_def subscribe_l1_def MarketDataEngine_init_def)
  moreover have "see h (xs @ ys) seen = see h ys (see h xs seen)" for xs ys seen by (simp add: see_def)
  moreover have "payload_tobs (p # ps) = payload_tobs [p] @ payload_tobs ps" by (simp add: payload_tobs_def)
  ultimately show ?case using Cons.IH by simp
qed

lemma fold_same_symbol:
  "\<forall>tob \<in> set tobs. tob_symbol tob = s \<Longrightarrow>
   foldl remember seen tobs = (if tobs = [] then seen else seen(s \<mapsto> last tobs))"
  by (induction tobs arbitrary: seen) (auto simp: remember_def)

lemma payload_tobs_forward:
  "me_l1_cb me \<Longrightarrow> payload_tobs (out_payloads (forward me calls @ exec_out rpt me @ depth_out s ts' b me)) = tob_events calls"
proof -
  assume l1: "me_l1_cb me"
  have app: "payload_tobs (out_payloads (xs @ ys)) = payload_tobs (out_payloads xs) @ payload_tobs (out_payloads ys)" for xs ys
    by (simp add: payload_tobs_def out_payloads_def)
  have single: "payload_tobs (out_payloads (forward me [ev])) = tob_events [ev]" for ev
    using l1 by (cases ev) (simp_all add: payload_tobs_def out_payloads_def forward_def tob_events_def)
  have "payload_tobs (out_payloads (forward me calls)) = tob_events calls"
  proof (induction calls)
    case Nil
    then show ?case by (simp add: payload_tobs_def out_payloads_def forward_def)
  next
    case (Cons ev evs)
    have "forward me (ev # evs) = forward me [ev] @ forward me evs"
      "tob_events (ev # evs) = tob_events [ev] @ tob_events evs"
      by (simp_all add: forward_def tob_events_def)
    then show ?case using Cons.IH single by (simp add: app)
  qed
  then show ?thesis unfolding app
    by (simp add: exec_out_def depth_out_def payload_tobs_def out_payloads_def)
qed

lemma out_payloads_length: "length (out_payloads outs) \<le> length outs"
proof (induction outs)
  case (Cons ev outs)
  then show ?case by (cases ev) (simp_all add: out_payloads_def)
qed (simp add: out_payloads_def)

lemma payload_tobs_refusals: "refusals outs \<Longrightarrow> payload_tobs (out_payloads outs) = []"
  by (induction outs) (auto simp: payload_tobs_def out_payloads_def refusals_def)

text \<open>What an operation does to the books and to the picture.\<close>

lemma payload_tobs_prefix: "set (payload_tobs (take n ps)) \<subseteq> set (payload_tobs ps)"
  by (auto simp: payload_tobs_def dest: in_set_takeD)

lemma picture_step:
  assumes me: "me_inv me" "me_l1_cb me"
    and pic: "\<And>s b. get_book s me = Some b \<Longrightarrow> bk_tob_cb b \<and> (s \<notin> missed \<longrightarrow> seen_ok b (seen s))"
      "\<And>s. get_book s me = None \<Longrightarrow> seen s = None"
    and op: "op_typed op" "me_exec op me = Some me'"
    and seen': "seen' = foldl remember seen (payload_tobs (take 16383 (out_payloads (me_outputs op me))))"
    and missed': "missed' = missed_after op me missed"
  shows "me_l1_cb me'"
    and "get_book s me' = Some b \<Longrightarrow> bk_tob_cb b \<and> (s \<notin> missed' \<longrightarrow> seen_ok b (seen' s))"
    and "get_book s me' = None \<Longrightarrow> seen' s = None"
proof -
  have "me_l1_cb me' \<and>
    (\<forall>s b. get_book s me' = Some b \<longrightarrow> bk_tob_cb b \<and> (s \<notin> missed' \<longrightarrow> seen_ok b (seen' s))) \<and>
    (\<forall>s. get_book s me' = None \<longrightarrow> seen' s = None)"
  proof (cases "book_result op me")
    case None
    note u = unrouted_outputs [OF op(2) None]
    have same: "seen' = seen" "missed' = missed"
      using seen' payload_tobs_refusals [OF u(1)] payload_tobs_prefix [of 16383 "out_payloads (me_outputs op me)"]
        missed' None by (simp_all add: missed_after_def)
    have "bk_tob_cb b \<and> (s \<notin> missed \<longrightarrow> seen_ok b (seen s))" if "get_book s me' = Some b" for s b
    proof (cases "op = AddSymbol s \<and> get_book s me = None")
      case True
      then have "b = on_top_of_book (on_trade (L3OrderBook_init s))" using u(3) [of s] that by simp
      then show ?thesis using pic(2) [of s] True
        by (simp add: seen_ok_def on_top_of_book_def on_trade_def L3OrderBook_init_def all_nodes_def)
    next
      case False
      then have "get_book s me = Some b" using u(3) [of s] that by (auto split: me_op.splits if_splits)
      then show ?thesis by (rule pic(1))
    qed
    moreover have "seen s = None" if "get_book s me' = None" for s
      using u(3) [of s] that pic(2) [of s] by (auto split: me_op.splits if_splits)
    ultimately show ?thesis using u(5) me(2) same by simp
  next
    case (Some y)
    obtain s rpt b' calls where x: "book_result op me = Some (s, rpt, b', calls)" using Some by (cases y) auto
    note r = routed_outputs [OF op(2) x]
    obtain b ts where b: "get_book s me = Some b" "published b b' calls ts"
      using result_published [OF me(1) op(1) x] pic(1) by metis
    have sym: "bk_symbol b = s" using me_inv_book [OF me(1) b(1)] by blast
    let ?tobs = "payload_tobs (take 16383 (out_payloads (me_outputs op me)))"
    have tobs: "payload_tobs (out_payloads (me_outputs op me)) = tob_events calls"
      using payload_tobs_forward [OF me(2)] r(1) by simp
    have "\<forall>tob \<in> set ?tobs. tob_symbol tob = s"
      using payload_tobs_prefix [of 16383 "out_payloads (me_outputs op me)"] b(2) sym
      unfolding tobs by (auto simp: published_def)
    then have new: "seen' = (if ?tobs = [] then seen else seen(s \<mapsto> last ?tobs))"
      using seen' fold_same_symbol by blast
    have whole: "?tobs = tob_events calls" if "length (me_outputs op me) \<le> 16383"
      using tobs order_trans [OF out_payloads_length that] by simp
    have reach: "l3_reachable b" "l3_reachable b'"
      using me_inv_book [OF me(1) b(1)] me_inv_book [OF me_step_inv [OF me(1) op], of s b'] r(4) by simp_all
    have cb: "bk_tob_cb b'" using b(2) by (simp add: published_def)
    have mine: "seen_ok b' (seen' s)" if s: "s \<notin> missed'"
    proof -
      have short: "length (me_outputs op me) \<le> 16383" using s missed' x by (auto simp: missed_after_def split: if_splits)
      note seen_eq = new [unfolded whole [OF short]]
      show ?thesis
      proof (cases "tob_events calls = []")
        case True
        then have orders: "same_orders b b'" using b(2) by (simp add: published_def)
        have "top_of_book b' u = top_of_book b u" for u by (rule same_orders_top [OF reach orders])
        moreover have "all_nodes b' = all_nodes b" using orders by (simp add: same_orders_def all_nodes_def)
        moreover have "s \<notin> missed" using s missed' x short True by (simp add: missed_after_def)
        ultimately show ?thesis using pic(1) [OF b(1)] seen_eq True by (simp add: seen_ok_def split: option.splits)
      next
        case False
        then show ?thesis using b(2) seen_eq by (auto simp: seen_ok_def published_def)
      qed
    qed
    have others: "u \<in> missed' \<longleftrightarrow> u \<in> missed" "seen' u = seen u" if "u \<noteq> s" for u
      using that missed' x new by (auto simp: missed_after_def)
    have "bk_tob_cb c \<and> (u \<notin> missed' \<longrightarrow> seen_ok c (seen' u))" if "get_book u me' = Some c" for u c
      using that r(4) [of u] pic(1) [of u c] others [of u] mine cb by (cases "u = s") auto
    moreover have "seen' u = None" if "get_book u me' = None" for u
      using that r(4) [of u] pic(2) [of u] others [of u] by (auto split: if_splits)
    ultimately show ?thesis using r(2) me(2) by (simp add: same_callbacks_def)
  qed
  then show "me_l1_cb me'" "get_book s me' = Some b \<Longrightarrow> bk_tob_cb b \<and> (s \<notin> missed' \<longrightarrow> seen_ok b (seen' s))"
    "get_book s me' = None \<Longrightarrow> seen' s = None" by blast+
qed

interpretation subscriber: invariant_system "feed_init h" "feed_step h" "feed_inv h" for h
proof
  show "feed_inv h x" if init: "feed_init h x" for x
  proof -
    have x: "fs_engine x = MatchingEngine_init\<lparr>me_trade_cb := True, me_l1_cb := True, me_l2_cb := True\<rparr>"
      "fs_feed x = subscribe_l1 h MarketDataEngine_init" "fs_seen x = Map.empty" "fs_missed x = {}"
      using init by (simp_all add: feed_init_def)
    have "md_inv (fs_feed x)" "md_pending (fs_feed x) = []"
      using md_init_inv by (simp_all add: x(2) subscribe_l1_def md_pending_def)
    moreover have "md_throttle_ns (fs_feed x) = 0" by (simp add: x(2) subscribe_l1_def MarketDataEngine_init_def)
    moreover have "me_inv (fs_engine x)" "\<And>s. get_book s (fs_engine x) = None"
      by (simp_all add: x(1) me_inv_def books_ok_def books_view_def trade_total_def MatchingEngine_init_def get_book_def)
    ultimately show ?thesis using x by (simp add: feed_inv_def queries_ok_def)
  qed
  show "feed_inv h x'" if inv: "feed_inv h x" and step: "feed_step h x x'" for x x'
    using step
  proof (rule feed_stepE)
    fix op me' evs e' calls
    assume x': "x' = \<lparr>fs_engine = me', fs_feed = e', fs_seen = see h calls (fs_seen x),
        fs_missed = missed_after op (fs_engine x) (fs_missed x)\<rparr>"
      and op: "op_typed op" "me_exec op (fs_engine x) = Some me'"
      and evs: "map fst evs = me_outputs op (fs_engine x)"
      and pp: "process_pending (feed evs (fs_feed x)) = Some (e', calls)"
    have i: "me_inv (fs_engine x)" "me_l1_cb (fs_engine x)" "md_inv (fs_feed x)" "md_throttle_ns (fs_feed x) = 0"
      "md_pending (fs_feed x) = []" "deliver (fs_feed x) = deliver (subscribe_l1 h MarketDataEngine_init)"
      "\<And>s b. get_book s (fs_engine x) = Some b \<Longrightarrow> bk_tob_cb b \<and> (s \<notin> fs_missed x \<longrightarrow> seen_ok b (fs_seen x s))"
      "\<And>s. get_book s (fs_engine x) = None \<Longrightarrow> fs_seen x s = None" "queries_ok (fs_engine x)"
      using inv by (simp_all add: feed_inv_def)
    obtain e1 where e1: "process_pending (feed evs (fs_feed x)) =
        Some (e1, concat (map (deliver (fs_feed x)) (take 16383 (out_payloads (map fst evs)))))"
      "md_inv e1" "md_throttle_ns e1 = 0" "md_pending e1 = []" "deliver e1 = deliver (fs_feed x)"
      by (rule feed_published [OF i(3-5)])
    have eq: "e' = e1" "calls = concat (map (deliver (fs_feed x)) (take 16383 (out_payloads (map fst evs))))"
      using e1(1) pp by simp_all
    have "see h calls (fs_seen x) = foldl remember (fs_seen x)
        (payload_tobs (take 16383 (out_payloads (me_outputs op (fs_engine x)))))"
      unfolding eq(2) i(6) see_delivered evs(1) ..
    note p = picture_step [OF i(1,2) i(7,8) op this refl]
    show "feed_inv h x'"
      using p me_step_inv [OF i(1) op] queries_step [OF op(2) i(9)] e1 i(6) eq(1) by (simp add: x' feed_inv_def)
  qed
qed

abbreviation feed_reachable :: "nat \<Rightarrow> feed_sys \<Rightarrow> bool" where
  "feed_reachable h \<equiv> reachable (feed_init h) (feed_step h)"

section \<open>Rounds under a throttle\<close>

text \<open>What the matching engine causes with every order: a top of book, then the depth of the same symbol.
  The depth follows within the interval, and the rounds are at least an interval apart.\<close>

type_synonym round = "TopOfBook \<times> Timestamp \<times> DepthSnapshot \<times> Timestamp"

fun feed_rounds :: "round list \<Rightarrow> MarketDataEngine \<Rightarrow> MarketDataEngine" where
  "feed_rounds [] e = e"
| "feed_rounds ((tob, t1, d, t2) # rs) e = feed_rounds rs (on_depth_update d t2 (on_tob_update tob t1 e))"

fun rounds_apart :: "Symbol \<Rightarrow> 64 word \<Rightarrow> Timestamp option \<Rightarrow> round list \<Rightarrow> bool" where
  "rounds_apart s ns prev [] \<longleftrightarrow> True"
| "rounds_apart s ns prev ((tob, t1, d, t2) # rs) \<longleftrightarrow> tob_symbol tob = s \<and> ds_symbol d = s \<and>
     (case prev of None \<Rightarrow> True | Some t \<Rightarrow> ns \<le> t1 - t) \<and> t2 - t1 < ns \<and> rounds_apart s ns (Some t1) rs"

definition depths_pending :: "MarketDataEngine \<Rightarrow> DepthSnapshot list" where
  "depths_pending e = concat (map (\<lambda>p. case p of MDDepth d \<Rightarrow> [d] | _ \<Rightarrow> []) (map msg_payload (md_pending e)))"

lemma round_effect:
  assumes inv: "md_inv e" and sym: "tob_symbol tob = s" "ds_symbol d = s"
    and apart: "case md_last_publish_time e s of None \<Rightarrow> True | Some t \<Rightarrow> md_throttle_ns e \<le> t1 - t"
    and close: "t2 - t1 < md_throttle_ns e"
    and e': "e' = on_depth_update d t2 (on_tob_update tob t1 e)"
  shows "md_inv e'" "md_throttle_ns e' = md_throttle_ns e" "md_last_publish_time e' s = Some t1"
    "depths_pending e' = depths_pending e" "md_messages_throttled e' = md_messages_throttled e + 1"
proof -
  let ?e1 = "e\<lparr>md_last_publish_time := (md_last_publish_time e)(s \<mapsto> t1)\<rparr>"
  let ?msg = "MarketDataMessage_default\<lparr>msg_type := IncrementalRefresh, msg_symbol := s,
     msg_timestamp := t1, msg_payload := MDTob tob\<rparr>"
  have ns: "md_throttle_ns e \<noteq> 0" using close by auto
  have first: "should_throttle s t1 e = (False, ?e1)"
    using ns apart by (auto simp: should_throttle_def split: option.splits)
  then have tob: "on_tob_update tob t1 e = enqueue ?msg ?e1" by (simp add: on_tob_update_def sym)
  have "should_throttle s t2 (enqueue ?msg ?e1) = (True, enqueue ?msg ?e1)"
    using ns close by (simp add: should_throttle_def enqueue_def)
  then have d: "e' = (enqueue ?msg ?e1)\<lparr>md_messages_throttled := md_messages_throttled e + 1\<rparr>"
    using e' tob by (simp add: on_depth_update_def sym enqueue_def)
  have inv1: "md_inv ?e1" using inv by simp
  have ok: "msg_ok ?msg" using msg_ok_built(1) [of tob t1] by (simp add: sym)
  note q = enqueue_effect [OF inv1 ok]
  show "md_inv e'" using q(1) d by simp
  have "md_pending e' = md_pending (enqueue ?msg ?e1)" by (simp add: d md_pending_def)
  then show "depths_pending e' = depths_pending e"
    using q(2) by (simp add: depths_pending_def) (simp add: md_pending_def)
  show "md_throttle_ns e' = md_throttle_ns e" "md_last_publish_time e' s = Some t1"
    "md_messages_throttled e' = md_messages_throttled e + 1"
    by (simp_all add: d enqueue_def)
qed

section \<open>Properties\<close>

text \<open>C22: from the order to the subscriber.  When the matching engine's three market data callbacks feed a
  market data engine without a throttle and an empty queue, processing what one routed operation
  caused delivers, to every subscriber, the trades and the tops of the book in the order in which the
  book made them and then the depth of the new book: the first 16383 of these messages, later ones
  are dropped.\<close>

theorem feed_delivers:
  assumes "md_reachable e" and "md_throttle_ns e = 0" and "md_pending e = []"
    and "me_trade_cb me" and "me_l1_cb me" and "me_l2_cb me" and "me_exec op me = Some me'"
    and "book_result op me = Some (s, rpt, b', calls)" and "map fst evs = me_outputs op me"
  shows "\<exists>e'. process_pending (feed evs e) = Some (e', concat (map (deliver e) (take 16383
      (map (\<lambda>ev. case ev of TradeEv t \<Rightarrow> MDTrade t | TobEv tob \<Rightarrow> MDTob tob) calls @
       [MDDepth (l2_snapshot b' (publish_time op) (ss_l2 (the (find_symbol me s))))])))) \<and>
    md_pending e' = [] \<and> get_book s me' = Some b'"
proof -
  have inv: "md_inv e" by (rule md.reachable_inv [OF assms(1)])
  note r = routed_outputs [OF assms(7,8)]
  have "out_payloads (forward me calls) = map (\<lambda>ev. case ev of TradeEv t \<Rightarrow> MDTrade t | TobEv tob \<Rightarrow> MDTob tob) calls"
    using assms(4,5) by (induction calls) (auto simp: out_payloads_def forward_def split: book_event.split)
  then have "out_payloads (map fst evs) = map (\<lambda>ev. case ev of TradeEv t \<Rightarrow> MDTrade t | TobEv tob \<Rightarrow> MDTob tob) calls @
       [MDDepth (l2_snapshot b' (publish_time op) (ss_l2 (the (find_symbol me s))))]"
    using assms(6,9) r(1) by (simp add: out_payloads_def exec_out_def depth_out_def)
  moreover obtain e' where "process_pending (feed evs e) =
      Some (e', concat (map (deliver e) (take 16383 (out_payloads (map fst evs)))))" "md_pending e' = []"
    by (rule feed_published [OF inv assms(2,3), of evs])
  ultimately show ?thesis using r(4) [of s] by auto
qed

text \<open>C23: a subscriber is never behind, unless the queue was too short.  Feed the market data engine, with
  its default of no throttling, from the callbacks, let a handler subscribe first, and drain the queue
  after every operation.  Whatever operations the clients send, the last top of book a subscriber got for a symbol is the top of the symbol's current book (up to its time
  stamp), and a subscriber that got none looks at an empty book; excepted are symbols on which one
  operation has caused more than 16383 events, so that the queue dropped the last of them, until
  the next top of the book is published on that symbol.  A query of the matching engine answers with
  the top of the current book in any case, or nothing was published yet for a book that is still
  empty, and the query reads prices and quantities that were never initialized.\<close>

theorem subscriber_current:
  assumes "feed_reachable h x" and "get_book s (fs_engine x) = Some b"
  shows "(s \<notin> fs_missed x \<longrightarrow>
      (case fs_seen x s of None \<Rightarrow> all_nodes b = [] | Some tob \<Rightarrow> \<exists>ts. tob = top_of_book b ts)) \<and>
    (get_top_of_book s (fs_engine x) = None \<and> all_nodes b = [] \<or>
     (\<exists>ts. get_top_of_book s (fs_engine x) = Some (top_of_book b ts)))"
  using subscriber.reachable_inv [OF assms(1)] assms(2) 
  unfolding feed_inv_def seen_ok_def queries_ok_def query_ok_def by blast

text \<open>With a throttle the depth starves.  When each top of book of a symbol is followed by its depth
  within the throttle interval, and the rounds are at least an interval apart, every top of book is
  queued and every depth snapshot is thrown away, because both share one time of last
  publication.\<close>

lemma depth_starved:
  assumes "md_reachable e" and "rounds_apart s (md_throttle_ns e) (md_last_publish_time e s) rounds"
  shows "depths_pending (feed_rounds rounds e) = depths_pending e \<and>
    md_messages_throttled (feed_rounds rounds e) = md_messages_throttled e + of_nat (length rounds)"
proof -
  have "md_inv e" by (rule md.reachable_inv [OF assms(1)])
  then show ?thesis using assms(2)
  proof (induction rounds arbitrary: e)
    case (Cons r rounds)
    obtain tob t1 d t2 where r: "r = (tob, t1, d, t2)" by (metis prod_cases4)
    define e' where "e' = on_depth_update d t2 (on_tob_update tob t1 e)"
    note f = round_effect [OF Cons.prems(1) _ _ _ _ e'_def, of s]
    from Cons.prems(2) have "tob_symbol tob = s" "ds_symbol d = s" "t2 - t1 < md_throttle_ns e"
      "case md_last_publish_time e s of None \<Rightarrow> True | Some t \<Rightarrow> md_throttle_ns e \<le> t1 - t"
      "rounds_apart s (md_throttle_ns e) (Some t1) rounds" by (simp_all add: r)
    then show ?case using f Cons.IH [of e'] by (simp add: r e'_def [symmetric] add.assoc)
  qed simp
qed

section \<open>Witnesses\<close>

definition wired_ops :: "me_op list" where
  "wired_ops = [OnTrade, OnL1, OnL2, AddSymbol sym_A, NewOrder (eng_order 1 10 sym_A Sell 100 5) 1 1]"

definition wired_engine :: MatchingEngine where
  "wired_engine = the (routed_run wired_ops MatchingEngine_init)"

definition wired_op :: me_op where
  "wired_op = NewOrder (eng_order 2 11 sym_A Buy 100 3) 2 3"

definition wired_feed :: MarketDataEngine where
  "wired_feed = subscribe_l2 2 (subscribe_l1 1 (subscribe_trades 3 MarketDataEngine_init))"

lemma wired_feed_ok: "md_reachable wired_feed" "md_throttle_ns wired_feed = 0" "md_pending wired_feed = []"
proof -
  have "md_reachable (subscribe_trades 3 MarketDataEngine_init)"
    by (rule md_run_reachable [OF init_reachable, of "SubscribeTrades 3"]) simp
  then have "md_reachable (subscribe_l1 1 (subscribe_trades 3 MarketDataEngine_init))"
    by (rule md_run_reachable [where op = "SubscribeL1 1"]) simp
  then show "md_reachable wired_feed"
    unfolding wired_feed_def by (rule md_run_reachable [where op = "SubscribeL2 2"]) simp
  show "md_throttle_ns wired_feed = 0"
    by (simp add: wired_feed_def subscribe_l1_def subscribe_l2_def subscribe_trades_def MarketDataEngine_init_def)
  show "md_pending wired_feed = []"
    using md_init_inv(2) by (simp add: wired_feed_def subscribe_l1_def subscribe_l2_def subscribe_trades_def md_pending_def)
qed

definition call_qtys :: "book_event list \<Rightarrow> Quantity option list" where
  "call_qtys calls = map (\<lambda>ev. case ev of TradeEv t \<Rightarrow> Some (t_qty t) | TobEv tob \<Rightarrow> None) calls"

lemma call_qtys_two: "call_qtys calls = [Some q, None] \<Longrightarrow> \<exists>t tob. calls = [TradeEv t, TobEv tob] \<and> t_qty t = q"
proof -
  assume c: "call_qtys calls = [Some q, None]"
  then obtain x y where xy: "calls = [x, y]" by (auto simp: call_qtys_def map_eq_Cons_conv)
  then show ?thesis using c by (cases x; cases y) (simp_all add: call_qtys_def)
qed

lemma wired_engine_ok: "me_trade_cb wired_engine" "me_l1_cb wired_engine" "me_l2_cb wired_engine"
  "me_exec wired_op wired_engine \<noteq> None"
  "map_option (\<lambda>(s, rpt, b', calls). call_qtys calls) (book_result wired_op wired_engine) = Some [Some 3, None]"
  by code_simp+

theorem feed_delivers_witness:
  "\<exists>e' t tob d. process_pending (feed (map (\<lambda>ev. (ev, 7)) (me_outputs wired_op wired_engine)) wired_feed) =
     Some (e', [TradeCall 3 t, L1Call 1 tob, L2Call 2 d]) \<and> t_qty t = 3"
proof -
  obtain me' where me': "me_exec wired_op wired_engine = Some me'" using wired_engine_ok(4) by blast
  obtain s rpt b' calls where c: "book_result wired_op wired_engine = Some (s, rpt, b', calls)"
    and "call_qtys calls = [Some 3, None]" using wired_engine_ok(5) by auto
  then obtain t tob where q: "t_qty t = 3"
    and r: "book_result wired_op wired_engine = Some (s, rpt, b', [TradeEv t, TobEv tob])"
    using call_qtys_two by blast
  have "map fst (map (\<lambda>ev. (ev, 7 :: Timestamp)) (me_outputs wired_op wired_engine)) = me_outputs wired_op wired_engine"
    by (simp add: comp_def)
  from feed_delivers [OF wired_feed_ok _ _ _ me' r this] wired_engine_ok q show ?thesis
    by (auto simp: wired_feed_def subscribe_l1_def subscribe_l2_def subscribe_trades_def MarketDataEngine_init_def)
qed

text \<open>Every operation can be taken.\<close>

lemma feed_step_exists:
  assumes x: "feed_reachable h x" and op: "op_typed op" "me_exec op (fs_engine x) = Some me'"
    and small: "length (me_outputs op (fs_engine x)) \<le> 16383"
  obtains x' where "feed_reachable h x'" "fs_engine x' = me'" "fs_missed x' \<subseteq> fs_missed x"
proof -
  have i: "md_inv (fs_feed x)" "md_throttle_ns (fs_feed x) = 0" "md_pending (fs_feed x) = []"
    using subscriber.reachable_inv [OF x] by (simp_all add: feed_inv_def)
  define evs where "evs = map (\<lambda>ev. (ev, 0 :: Timestamp)) (me_outputs op (fs_engine x))"
  have evs: "map fst evs = me_outputs op (fs_engine x)" by (simp add: evs_def comp_def)
  obtain e' where "process_pending (feed evs (fs_feed x)) =
      Some (e', concat (map (deliver (fs_feed x)) (take 16383 (out_payloads (map fst evs)))))"
    by (rule feed_published [OF i, of evs])
  from feed_step.operation [OF op evs this, of h]
  have step: "feed_step h x \<lparr>fs_engine = me', fs_feed = e', fs_seen =
      see h (concat (map (deliver (fs_feed x)) (take 16383 (out_payloads (map fst evs))))) (fs_seen x),
      fs_missed = missed_after op (fs_engine x) (fs_missed x)\<rparr>" .
  have "missed_after op (fs_engine x) (fs_missed x) \<subseteq> fs_missed x"
    using small by (auto simp: missed_after_def split: option.splits)
  then show thesis using that [OF reachable_step [OF x step]] by simp
qed

definition seen_engine :: MatchingEngine where
  "seen_engine = MatchingEngine_init\<lparr>me_trade_cb := True, me_l1_cb := True, me_l2_cb := True\<rparr>"

definition seen_op :: me_op where
  "seen_op = NewOrder (eng_order 1 10 sym_A Sell 100 5) 1 1"

lemma seen_run:
  "me_outputs (AddSymbol sym_A) seen_engine = []"
  "me_exec seen_op (add_symbol sym_A seen_engine) \<noteq> None"
  "length (me_outputs seen_op (add_symbol sym_A seen_engine)) = 2" "op_typed seen_op"
  "length (all_nodes (the (get_book sym_A (the (me_exec seen_op (add_symbol sym_A seen_engine)))))) = 1"
  "get_book sym_A (the (me_exec seen_op (add_symbol sym_A seen_engine))) \<noteq> None"
  by code_simp+

theorem subscriber_current_witness:
  "\<exists>(x :: feed_sys) b tob ts. get_book sym_A (fs_engine x) = Some b \<and> length (all_nodes b) = 1 \<and>
     fs_seen x sym_A = Some tob \<and> tob = top_of_book b ts"
proof -
  have start: "feed_reachable 1 \<lparr>fs_engine = seen_engine, fs_feed = subscribe_l1 1 MarketDataEngine_init, fs_seen = Map.empty, fs_missed = {}\<rparr>"
    by (rule reachable_init) (simp add: feed_init_def seen_engine_def)
  obtain x1 where x1: "feed_reachable 1 x1" "fs_engine x1 = add_symbol sym_A seen_engine" "fs_missed x1 \<subseteq> {}"
    by (rule feed_step_exists [OF start, of "AddSymbol sym_A" "add_symbol sym_A seen_engine"]) (use seen_run in simp_all)
  obtain me2 where me2: "me_exec seen_op (add_symbol sym_A seen_engine) = Some me2" using seen_run(2) by blast
  obtain x2 where x2: "feed_reachable 1 x2" "fs_engine x2 = me2" "fs_missed x2 \<subseteq> fs_missed x1"
    by (rule feed_step_exists [OF x1(1) seen_run(4), of me2]) (use me2 seen_run(3) x1 in simp_all)
  obtain b where b: "get_book sym_A me2 = Some b" "length (all_nodes b) = 1" using seen_run(5,6) me2 by auto
  then have "get_book sym_A (fs_engine x2) = Some b" using x2(2) by simp
  with subscriber_current [OF x2(1) this] b(2) x1(3) x2(3) obtain tob ts where "fs_seen x2 sym_A = Some tob" "tob = top_of_book b ts"
    by (auto split: option.splits)
  then show ?thesis using \<open>get_book sym_A (fs_engine x2) = Some b\<close> b(2) by blast
qed

lemma depth_starved_witness:
  "depths_pending (feed_rounds [(TopOfBook_default, 5, DepthSnapshot_default, 6), (TopOfBook_default, 20, DepthSnapshot_default, 21)]
     (set_throttle_interval_ns 10 MarketDataEngine_init)) = []"
proof -
  have "md_reachable (set_throttle_interval_ns 10 MarketDataEngine_init)"
    by (rule md_run_reachable [OF init_reachable, of "SetThrottle 10"]) simp
  moreover have "rounds_apart Symbol_default (md_throttle_ns (set_throttle_interval_ns 10 MarketDataEngine_init))
      (md_last_publish_time (set_throttle_interval_ns 10 MarketDataEngine_init) Symbol_default)
      [(TopOfBook_default, 5, DepthSnapshot_default, 6), (TopOfBook_default, 20, DepthSnapshot_default, 21)]"
    by (simp add: set_throttle_interval_ns_def MarketDataEngine_init_def TopOfBook_default_def DepthSnapshot_default_def)
  moreover have "depths_pending (set_throttle_interval_ns 10 MarketDataEngine_init) = []"
    using md_init_inv(2) by (simp add: depths_pending_def set_throttle_interval_ns_def md_pending_def)
  ultimately show ?thesis using depth_starved by metis
qed

end
