(* ===== verification/Events.thy ===== *)
theory Events
  imports Symbols Floats RingBuffer
begin

text \<open>
  The rest of \<^verbatim>\<open>src/common/types.hpp\<close> and \<^verbatim>\<open>src/common/constants.hpp\<close>: the envelope in which messages
  travel between threads, the comparison of symbols, the invalid markers and the constants no other
  theory uses.
\<close>

section \<open>Event types\<close>

datatype EventType =
  NewOrder | CancelOrder | ReplaceOrder | ExecutionRpt | TradeEvent | L1Update | L2Update
| L3Update | SimTick | Shutdown

text \<open>The values of the underlying \<^verbatim>\<open>std::uint8_t\<close>.\<close>

fun event_code :: "EventType \<Rightarrow> 8 word" where
  "event_code NewOrder = 0"
| "event_code CancelOrder = 1"
| "event_code ReplaceOrder = 2"
| "event_code ExecutionRpt = 3"
| "event_code TradeEvent = 4"
| "event_code L1Update = 5"
| "event_code L2Update = 6"
| "event_code L3Update = 7"
| "event_code SimTick = 8"
| "event_code Shutdown = 255"

lemma event_code_inject [simp]: "event_code a = event_code b \<longleftrightarrow> a = b"
  by (cases a; cases b; simp)

text \<open>A scoped enumeration compares by its values.\<close>

instantiation EventType :: linorder
begin

definition less_eq_EventType :: "EventType \<Rightarrow> EventType \<Rightarrow> bool" where
  "less_eq_EventType a b \<longleftrightarrow> event_code a \<le> event_code b"

definition less_EventType :: "EventType \<Rightarrow> EventType \<Rightarrow> bool" where
  "less_EventType a b \<longleftrightarrow> event_code a < event_code b"

instance
proof
  show "a = b" if "a \<le> b" "b \<le> a" for a b :: EventType
    using antisym [OF that [unfolded less_eq_EventType_def]] by simp
qed (auto simp: less_eq_EventType_def less_EventType_def less_le)

end

lemma shutdown_last: "a \<le> Shutdown"
  by (cases a) (simp_all add: less_eq_EventType_def)

section \<open>The envelope\<close>

text \<open>The anonymous union holds the member that was assigned last; reading another member is undefined.\<close>

datatype event_member =
  MemOrder Order | MemCancel CancelRequest | MemReplace ReplaceRequest | MemReport ExecutionReport
| MemTrade Trade | MemTob TopOfBook | MemDepth DepthSnapshot

record EngineEvent =
  ev_type :: EventType
  ev_member :: event_member
  ev_event_time :: Timestamp

definition EngineEvent_init :: EngineEvent where
  "EngineEvent_init = \<lparr>ev_type = NewOrder, ev_member = MemOrder Order_default, ev_event_time = 0\<rparr>"

text \<open>Both copies are a \<^verbatim>\<open>memcpy\<close> of the whole object, tag and union included.  The assignment first
  compares the addresses of the two objects; \<open>self\<close> says whether they are the same object.\<close>

definition EngineEvent_copy :: "EngineEvent \<Rightarrow> EngineEvent" where
  "EngineEvent_copy src =
     \<lparr>ev_type = ev_type src, ev_member = ev_member src, ev_event_time = ev_event_time src\<rparr>"

definition EngineEvent_assign :: "bool \<Rightarrow> EngineEvent \<Rightarrow> EngineEvent \<Rightarrow> EngineEvent" where
  "EngineEvent_assign self src dest = (if \<not> self then EngineEvent_copy src else dest)"

lemma copies_exact [simp]:
  "EngineEvent_copy e = e" "(self \<Longrightarrow> dest = e) \<Longrightarrow> EngineEvent_assign self e dest = e"
  by (simp_all add: EngineEvent_copy_def EngineEvent_assign_def)

fun read_order :: "event_member \<Rightarrow> Order option" where
  "read_order (MemOrder order) = Some order"
| "read_order _ = None"

fun read_cancel :: "event_member \<Rightarrow> CancelRequest option" where
  "read_cancel (MemCancel cancel) = Some cancel"
| "read_cancel _ = None"

fun read_replace :: "event_member \<Rightarrow> ReplaceRequest option" where
  "read_replace (MemReplace req) = Some req"
| "read_replace _ = None"

record CancelOrderMsg =
  co_id :: OrderId

section \<open>Comparing symbols\<close>

definition symbol_eq :: "Symbol \<Rightarrow> Symbol \<Rightarrow> bool" where
  "symbol_eq a b \<longleftrightarrow> sym_data a = sym_data b"

definition symbol_ne :: "Symbol \<Rightarrow> Symbol \<Rightarrow> bool" where
  "symbol_ne a b \<longleftrightarrow> sym_data a \<noteq> sym_data b"

lemma symbol_eq_iff [simp]: "symbol_eq a b \<longleftrightarrow> a = b" "symbol_ne a b \<longleftrightarrow> a \<noteq> b"
  by (auto simp: symbol_eq_def symbol_ne_def Symbol.expand)

section \<open>The key of a position\<close>

text \<open>\<^verbatim>\<open>TraderSymbolKeyHash\<close> of \<^verbatim>\<open>src/market/trade_engine.hpp\<close>; \<open>h\<close> is the library's hash of a number.\<close>

definition trader_symbol_hash :: "(TraderId \<Rightarrow> 64 word) \<Rightarrow> TraderId \<Rightarrow> Symbol \<Rightarrow> 64 word" where
  "trader_symbol_hash h trader_id symbol =
     (let h1 = h trader_id; h2 = symbol_hash symbol in xor h1 (push_bit 1 h2))"

lemma xor_cancel: "xor x z = xor y z \<longleftrightarrow> x = y" for x y z :: "'a::len word"
  by (metis xor.assoc xor.right_neutral xor_self_eq)

lemma push_bit_inject:
  fixes a b :: "64 word"
  assumes "k < 64"
  shows "push_bit k a = push_bit k b \<longleftrightarrow> take_bit (64 - k) a = take_bit (64 - k) b"
proof
  assume eq: "push_bit k a = push_bit k b"
  show "take_bit (64 - k) a = take_bit (64 - k) b"
  proof (rule bit_word_eqI)
    fix n
    have "bit (push_bit k a) (n + k) = bit (push_bit k b) (n + k)" by (simp only: eq)
    then show "bit (take_bit (64 - k) a) n = bit (take_bit (64 - k) b) n" by (auto simp: bit_simps)
  qed
next
  assume eq: "take_bit (64 - k) a = take_bit (64 - k) b"
  show "push_bit k a = push_bit k b"
  proof (rule bit_word_eqI)
    fix n :: nat
    assume "n < LENGTH(64)"
    have "bit (take_bit (64 - k) a) (n - k) = bit (take_bit (64 - k) b) (n - k)" by (simp only: eq)
    then show "bit (push_bit k a) n = bit (push_bit k b) n"
      using \<open>n < LENGTH(64)\<close> by (auto simp: bit_simps)
  qed
qed

text \<open>For one symbol, traders collide only where the library's hash collides; for one trader, two
  symbols collide exactly when their hashes agree in all bits but the highest.\<close>

lemma trader_symbol_hash_inject:
  "trader_symbol_hash h t s = trader_symbol_hash h u s \<longleftrightarrow> h t = h u"
  "trader_symbol_hash h t s = trader_symbol_hash h t v \<longleftrightarrow>
     take_bit 63 (symbol_hash s) = take_bit 63 (symbol_hash v)"
proof -
  show "trader_symbol_hash h t s = trader_symbol_hash h u s \<longleftrightarrow> h t = h u"
    by (simp add: trader_symbol_hash_def xor_cancel)
  from push_bit_inject [of 1 "symbol_hash s" "symbol_hash v"]
  show "trader_symbol_hash h t s = trader_symbol_hash h t v \<longleftrightarrow>
      take_bit 63 (symbol_hash s) = take_bit 63 (symbol_hash v)"
    by (simp add: trader_symbol_hash_def xor.commute [of "h t"] xor_cancel del: push_bit_of_1 push_bit_Suc)
qed

section \<open>Constants\<close>

definition INVALID_PRICE :: Price where "INVALID_PRICE = I64_MAX"
definition INVALID_QTY :: Quantity where "INVALID_QTY = 0"

definition CACHE_LINE_SIZE :: nat where "CACHE_LINE_SIZE = 64"
definition MAX_SYMBOLS :: nat where "MAX_SYMBOLS = 64"
definition MAX_TRADERS :: nat where "MAX_TRADERS = 256"
definition MAX_ORDERS_PER_BOOK :: nat where "MAX_ORDERS_PER_BOOK = 100000"
definition MAX_TRADES_PER_BATCH :: nat where "MAX_TRADES_PER_BATCH = 1024"

definition ORDER_QUEUE_SIZE :: nat where "ORDER_QUEUE_SIZE = 16384"
definition EXEC_QUEUE_SIZE :: nat where "EXEC_QUEUE_SIZE = 16384"
definition MD_QUEUE_SIZE :: nat where "MD_QUEUE_SIZE = 16384"
definition SIM_QUEUE_SIZE :: nat where "SIM_QUEUE_SIZE = 8192"

definition ORDER_POOL_SIZE :: nat where "ORDER_POOL_SIZE = 500000"
definition TRADE_POOL_SIZE :: nat where "TRADE_POOL_SIZE = 100000"
definition EVENT_POOL_SIZE :: nat where "EVENT_POOL_SIZE = 50000"

definition DEFAULT_NETWORK_LATENCY_NS :: "64 word" where "DEFAULT_NETWORK_LATENCY_NS = 5000"
definition DEFAULT_MATCHING_LATENCY_NS :: "64 word" where "DEFAULT_MATCHING_LATENCY_NS = 500"
definition DEFAULT_MD_DISSEMINATION_NS :: "64 word" where "DEFAULT_MD_DISSEMINATION_NS = 2000"
definition DEFAULT_JITTER_STDDEV_NS :: "64 word" where "DEFAULT_JITTER_STDDEV_NS = 1000"

definition DEFAULT_ORDER_ARRIVAL_RATE :: "'f float_ops \<Rightarrow> 'f" where
  "DEFAULT_ORDER_ARRIVAL_RATE F = fl_lit F 100"
definition DEFAULT_CANCEL_RATE :: "'f float_ops \<Rightarrow> 'f" where
  "DEFAULT_CANCEL_RATE F = fl_lit F (3 / 10)"
definition DEFAULT_INITIAL_MID_PRICE :: "'f float_ops \<Rightarrow> 'f" where
  "DEFAULT_INITIAL_MID_PRICE F = fl_lit F 10000"
definition DEFAULT_TICK_SIZE :: "'f float_ops \<Rightarrow> 'f" where
  "DEFAULT_TICK_SIZE F = fl_lit F 1"
definition DEFAULT_SPREAD_TICKS :: "'f float_ops \<Rightarrow> 'f" where
  "DEFAULT_SPREAD_TICKS F = fl_lit F 2"
definition DEFAULT_VOLATILITY :: "'f float_ops \<Rightarrow> 'f" where
  "DEFAULT_VOLATILITY F = fl_lit F (1 / 1000)"

definition CPU_AFFINITY_MATCHING_ENGINE :: int where "CPU_AFFINITY_MATCHING_ENGINE = 1"
definition CPU_AFFINITY_FIX_GATEWAY :: int where "CPU_AFFINITY_FIX_GATEWAY = 2"
definition CPU_AFFINITY_MD_PUBLISHER :: int where "CPU_AFFINITY_MD_PUBLISHER = 3"
definition CPU_AFFINITY_SIMULATION :: int where "CPU_AFFINITY_SIMULATION = 4"
definition CPU_AFFINITY_METRICS :: int where "CPU_AFFINITY_METRICS = 5"

text \<open>The queue sizes are sizes a ring buffer accepts.\<close>

lemma queue_sizes_ok:
  "size_ok ORDER_QUEUE_SIZE" "size_ok EXEC_QUEUE_SIZE" "size_ok MD_QUEUE_SIZE" "size_ok SIM_QUEUE_SIZE"
proof -
  have "size_ok (2 ^ 14)" "size_ok (2 ^ 13)"
    unfolding size_ok_def by (intro exI [of _ 14], simp, intro exI [of _ 13], simp)
  then show "size_ok ORDER_QUEUE_SIZE" "size_ok EXEC_QUEUE_SIZE" "size_ok MD_QUEUE_SIZE" "size_ok SIM_QUEUE_SIZE"
    by (simp_all add: ORDER_QUEUE_SIZE_def EXEC_QUEUE_SIZE_def MD_QUEUE_SIZE_def SIM_QUEUE_SIZE_def)
qed

end
