(* ===== verification/WaitStrategies.thy ===== *)
theory WaitStrategies
  imports RingConcurrent
begin

text \<open>
  \<^verbatim>\<open>src/wait_strategies.hpp\<close> and the blocking \<^verbatim>\<open>push\<close> and \<^verbatim>\<open>pop\<close> of \<^verbatim>\<open>src/HPRingBuffer.hpp\<close>, which call
  \<^verbatim>\<open>wait\<close> whenever an attempt failed.  Both threads of a buffer share one wait object.  The two
  spinning strategies have no state: a processor hint or a yield is one step.  \<^verbatim>\<open>BlockWait\<close> has a
  mutex and a condition variable, and its steps are those of \<^verbatim>\<open>std::unique_lock\<close> and
  \<^verbatim>\<open>std::condition_variable::wait_for\<close>, whose time limit is a deadline on a clock in nanoseconds.
\<close>

section \<open>Waiting\<close>

datatype WaitStrategy = BusySpinWait | YieldWait | BlockWait

datatype thread = Producer | Consumer

datatype wait_phase =
  Awake
| Waiting \<comment> \<open>has called \<open>wait\<close>\<close>
| Holding \<comment> \<open>has locked the mutex, about to call \<open>wait_for\<close>\<close>
| Asleep nat \<comment> \<open>in \<open>wait_for\<close> with this deadline, the mutex released\<close>
| Woken \<comment> \<open>wants the mutex back\<close>
| Leaving \<comment> \<open>has the mutex back, about to unlock it and return\<close>

record waiters =
  wt_mutex :: "thread option"
  wt_phase :: "thread \<Rightarrow> wait_phase"
  wt_now :: nat

text \<open>Nobody waits.\<close>

definition awake_at :: "nat \<Rightarrow> waiters" where
  "awake_at now = \<lparr>wt_mutex = None, wt_phase = (\<lambda>t. Awake), wt_now = now\<rparr>"

abbreviation set_phase :: "thread \<Rightarrow> wait_phase \<Rightarrow> waiters \<Rightarrow> waiters" where
  "set_phase t p w \<equiv> w\<lparr>wt_phase := (wt_phase w)(t := p)\<rparr>"

text \<open>The steps a thread \<open>t\<close> takes in \<^verbatim>\<open>wait\<close>.  The time limit is one microsecond from the moment the thread
  goes to sleep; before the deadline it cannot come back by itself.\<close>

inductive wait_step :: "WaitStrategy \<Rightarrow> thread \<Rightarrow> waiters \<Rightarrow> waiters \<Rightarrow> bool" for strategy t where
  pause: "strategy \<noteq> BlockWait \<Longrightarrow> wt_phase w t = Waiting \<Longrightarrow> wait_step strategy t w (set_phase t Awake w)"
| lock: "strategy = BlockWait \<Longrightarrow> wt_phase w t = Waiting \<Longrightarrow> wt_mutex w = None \<Longrightarrow>
    wait_step strategy t w (set_phase t Holding (w\<lparr>wt_mutex := Some t\<rparr>))"
| sleep: "wt_phase w t = Holding \<Longrightarrow>
    wait_step strategy t w (set_phase t (Asleep (wt_now w + 1000)) (w\<lparr>wt_mutex := None\<rparr>))"
| timeout: "wt_phase w t = Asleep deadline \<Longrightarrow> deadline \<le> wt_now w \<Longrightarrow>
    wait_step strategy t w (set_phase t Woken w)"
| relock: "wt_phase w t = Woken \<Longrightarrow> wt_mutex w = None \<Longrightarrow>
    wait_step strategy t w (set_phase t Leaving (w\<lparr>wt_mutex := Some t\<rparr>))"
| unlock: "wt_phase w t = Leaving \<Longrightarrow> wait_step strategy t w (set_phase t Awake (w\<lparr>wt_mutex := None\<rparr>))"

text \<open>Time passes, and a thread takes its step.\<close>

definition tick :: "nat \<Rightarrow> waiters \<Rightarrow> waiters" where
  "tick k w = w\<lparr>wt_now := wt_now w + k\<rparr>"

inductive wait_move :: "WaitStrategy \<Rightarrow> waiters \<Rightarrow> waiters \<Rightarrow> bool" for strategy where
  own: "wait_step strategy t w w' \<Longrightarrow> wait_move strategy w w'"
| time: "wait_move strategy w (tick 1 w)"

text \<open>A sleeping thread may also wake for no reason, and \<^verbatim>\<open>notify\<close> wakes one sleeping thread, if there is
  one (the spinning strategies have none).  The first is not to be relied on, and the ring buffer
  never calls the second.\<close>

inductive spurious_step :: "waiters \<Rightarrow> waiters \<Rightarrow> bool" where
  wake: "wt_phase w t = Asleep deadline \<Longrightarrow> spurious_step w (set_phase t Woken w)"

inductive notify_step :: "WaitStrategy \<Rightarrow> waiters \<Rightarrow> waiters \<Rightarrow> bool" for strategy where
  wake_one: "strategy = BlockWait \<Longrightarrow> wt_phase w t = Asleep deadline \<Longrightarrow>
    notify_step strategy w (set_phase t Woken w)"
| no_one: "strategy \<noteq> BlockWait \<or> (\<forall>t deadline. wt_phase w t \<noteq> Asleep deadline) \<Longrightarrow>
    notify_step strategy w w"

text \<open>The mutex is held by exactly the thread that is between locking and unlocking it, and nobody has
  more than a microsecond to sleep.\<close>

definition wait_inv :: "waiters \<Rightarrow> bool" where
  "wait_inv w \<longleftrightarrow> (\<forall>t. wt_mutex w = Some t \<longleftrightarrow> wt_phase w t \<in> {Holding, Leaving}) \<and>
     (\<forall>t deadline. wt_phase w t = Asleep deadline \<longrightarrow> deadline \<le> wt_now w + 1000)"

lemma wait_step_inv: "wait_step strategy t w w' \<Longrightarrow> wait_inv w \<Longrightarrow> wait_inv w'"
proof (induction rule: wait_step.induct)
  case (sleep w)
  then have "wt_mutex w = Some t" by (simp add: wait_inv_def)
  then show ?case using sleep by (force simp: wait_inv_def)
next
  case (unlock w)
  then have "wt_mutex w = Some t" by (simp add: wait_inv_def)
  then show ?case using unlock by (force simp: wait_inv_def)
qed (auto simp: wait_inv_def)

lemma tick_inv: "wait_inv w \<Longrightarrow> wait_inv (tick k w)"
  by (force simp: wait_inv_def tick_def)

lemma wait_move_inv: "wait_move strategy w w' \<Longrightarrow> wait_inv w \<Longrightarrow> wait_inv w'"
  by (induction rule: wait_move.induct) (auto intro: wait_step_inv tick_inv)

lemma spurious_step_inv: "spurious_step w w' \<Longrightarrow> wait_inv w \<Longrightarrow> wait_inv w'"
  by (induction rule: spurious_step.induct) (auto simp: wait_inv_def)

lemma notify_step_inv: "notify_step strategy w w' \<Longrightarrow> wait_inv w \<Longrightarrow> wait_inv w'"
  by (induction rule: notify_step.induct) (auto simp: wait_inv_def)

section \<open>Every wait ends\<close>

text \<open>Runs of the wait object in which nobody wakes for no reason and nobody is notified; the number counts
  the steps of the threads, time may pass between them.\<close>

inductive wait_run :: "WaitStrategy \<Rightarrow> nat \<Rightarrow> waiters \<Rightarrow> waiters \<Rightarrow> bool" for strategy where
  start: "wait_run strategy 0 w w"
| own: "wait_run strategy n w w' \<Longrightarrow> wait_step strategy t w' w'' \<Longrightarrow> wait_run strategy (Suc n) w w''"
| time: "wait_run strategy n w w' \<Longrightarrow> wait_run strategy n w (tick k w')"

fun steps_left :: "wait_phase \<Rightarrow> nat" where
  "steps_left Awake = 0"
| "steps_left Leaving = 1"
| "steps_left Woken = 2"
| "steps_left (Asleep deadline) = 3"
| "steps_left Holding = 4"
| "steps_left Waiting = 5"

definition all_steps_left :: "waiters \<Rightarrow> nat" where
  "all_steps_left w = steps_left (wt_phase w Producer) + steps_left (wt_phase w Consumer)"

lemma wait_step_left: "wait_step strategy t w w' \<Longrightarrow> all_steps_left w' < all_steps_left w"
  by (induction rule: wait_step.induct; cases t) (simp_all add: all_steps_left_def)

lemma wait_run_left: "wait_run strategy n w w' \<Longrightarrow> n + all_steps_left w' \<le> all_steps_left w"
proof (induction rule: wait_run.induct)
  case (own n w w' t w'')
  then show ?case using wait_step_left [OF own(2)] by simp
qed (simp_all add: all_steps_left_def tick_def)

lemma at_most_ten: "all_steps_left w \<le> 10"
proof -
  have "steps_left p \<le> 5" for p by (cases p) simp_all
  from this [of "wt_phase w Producer"] this [of "wt_phase w Consumer"] show ?thesis
    by (simp add: all_steps_left_def)
qed

text \<open>How many threads still have to wait for their time limit.\<close>

fun naps :: "wait_phase \<Rightarrow> nat" where
  "naps (Asleep deadline) = 1"
| "naps Holding = 1"
| "naps Waiting = 1"
| "naps p = 0"

definition all_naps :: "waiters \<Rightarrow> nat" where
  "all_naps w = naps (wt_phase w Producer) + naps (wt_phase w Consumer)"

lemma at_most_two: "all_naps w \<le> 2"
proof -
  have "naps p \<le> 1" for p by (cases p) simp_all
  from this [of "wt_phase w Producer"] this [of "wt_phase w Consumer"] show ?thesis
    by (simp add: all_naps_def)
qed

lemma wait_step_naps: "wait_step strategy t w w' \<Longrightarrow> all_naps w' \<le> all_naps w"
  by (induction rule: wait_step.induct; cases t) (simp_all add: all_naps_def)

lemma wait_run_inv: "wait_run strategy n w w' \<Longrightarrow> wait_inv w \<Longrightarrow> wait_inv w'"
  by (induction rule: wait_run.induct) (auto intro: wait_step_inv tick_inv)

text \<open>While anyone waits, someone can take a step, at the latest after a microsecond.\<close>

lemma someone_steps:
  assumes inv: "wait_inv w" and "wt_phase w t \<noteq> Awake"
  obtains k u w' where "k \<le> 1000" "wait_step strategy u (tick k w) w'"
    "k + 1000 * all_naps w' \<le> 1000 * all_naps w"
proof -
  note found = that
  have now: thesis if "wait_step strategy u (tick 0 w) w'" for u w'
    using that wait_step_naps [OF that] by (intro found [of 0 u w']) (simp_all add: tick_def all_naps_def)
  show thesis
  proof (cases "wt_mutex w")
    case (Some h)
    then have "wt_phase w h \<in> {Holding, Leaving}" using inv unfolding wait_inv_def by blast
    then have "wt_phase (tick 0 w) h \<in> {Holding, Leaving}" by (simp add: tick_def)
    then show thesis by (auto intro: now wait_step.sleep wait_step.unlock)
  next
    case None
    have free: "wt_mutex (tick k w) = None" and phase: "wt_phase (tick k w) t = wt_phase w t" for k
      using None by (simp_all add: tick_def)
    show thesis
    proof (cases "wt_phase w t")
      case Waiting
      then show thesis using free phase now wait_step.pause wait_step.lock by (cases "strategy = BlockWait") metis+
    next
      case (Asleep deadline)
      let ?k = "deadline - wt_now w" and ?w' = "set_phase t Woken (tick (deadline - wt_now w) w)"
      have "?k \<le> 1000" using Asleep inv by (force simp: wait_inv_def)
      moreover have "wait_step strategy t (tick ?k w) ?w'"
        using Asleep by (intro wait_step.timeout [of _ _ deadline]) (simp_all add: tick_def)
      moreover have "all_naps w = Suc (all_naps ?w')"
        using Asleep by (cases t) (simp_all add: all_naps_def tick_def)
      ultimately show thesis using found by simp
    next
      case Woken
      then show thesis using free phase now wait_step.relock by metis
    next
      case Holding
      then show thesis using inv None by (force simp: wait_inv_def)
    next
      case Leaving
      then show thesis using inv None by (force simp: wait_inv_def)
    qed (use assms(2) in simp)
  qed
qed

text \<open>So everyone is awake after at most ten steps of the threads, whatever their order.\<close>

abbreviation wait_moves :: "WaitStrategy \<Rightarrow> waiters \<Rightarrow> waiters \<Rightarrow> bool" where
  "wait_moves strategy \<equiv> (wait_move strategy)\<^sup>*\<^sup>*"

lemma tick_moves: "wait_moves strategy w (tick k w)"
proof (induction k)
  case 0
  then show ?case by (simp add: tick_def)
next
  case (Suc k)
  have "wait_move strategy (tick k w) (tick (Suc k) w)"
    using wait_move.time [of strategy "tick k w"] by (simp add: tick_def)
  then show ?case using Suc by (rule rtranclp.rtrancl_into_rtrancl [rotated])
qed

lemma tick_step_now: "wait_step strategy t w w' \<Longrightarrow> wt_now w' = wt_now w"
  by (induction rule: wait_step.induct) simp_all

lemma all_awake:
  assumes "wait_inv w"
  shows "\<exists>now \<le> wt_now w + 1000 * all_naps w. wait_moves strategy w (awake_at now)"
  using assms
proof (induction "all_steps_left w" arbitrary: w rule: less_induct)
  case less
  show ?case
  proof (cases "\<exists>t. wt_phase w t \<noteq> Awake")
    case True
    then obtain k u w' where k: "k + 1000 * all_naps w' \<le> 1000 * all_naps w"
      and step: "wait_step strategy u (tick k w) w'"
      using someone_steps [OF less.prems] by metis
    have left: "all_steps_left w' < all_steps_left w"
      using wait_step_left [OF step] by (simp add: all_steps_left_def tick_def)
    have "wait_inv w'" using wait_step_inv [OF step tick_inv [OF less.prems]] .
    from less.hyps [OF left this] obtain now where now: "now \<le> wt_now w' + 1000 * all_naps w'"
      "wait_moves strategy w' (awake_at now)" by blast
    have "now \<le> wt_now w + 1000 * all_naps w"
      using now(1) k tick_step_now [OF step] by (simp add: tick_def)
    moreover have "wait_moves strategy w w'"
      using tick_moves wait_move.own [OF step] by (rule rtranclp.rtrancl_into_rtrancl)
    ultimately show ?thesis using now(2) by (meson rtranclp_trans)
  next
    case False
    then have awake: "wt_phase w = (\<lambda>t. Awake)" by auto
    then have "wt_mutex w = None" using less.prems by (cases "wt_mutex w") (auto simp: wait_inv_def)
    then have "w = awake_at (wt_now w)" using awake by (cases w) (simp add: awake_at_def)
    then show ?thesis by (metis le_add1 rtranclp.rtrancl_refl)
  qed
qed

section \<open>Two threads that block\<close>

record 'a blocking =
  bl_ring :: "'a spsc"
  bl_wait :: waiters

text \<open>The thread whose attempt failed goes on to wait, and then tries again.\<close>

fun moves :: "thread \<Rightarrow> 'a spsc \<Rightarrow> 'a spsc \<Rightarrow> bool" where
  "moves Producer r r' \<longleftrightarrow> sp_producer r' \<noteq> sp_producer r"
| "moves Consumer r r' \<longleftrightarrow> sp_consumer r' \<noteq> sp_consumer r"

fun retries :: "thread \<Rightarrow> 'a spsc \<Rightarrow> 'a spsc \<Rightarrow> bool" where
  "retries Producer r r' \<longleftrightarrow>
     (case (sp_producer r, sp_producer r') of (PLoaded item ws, PStart item') \<Rightarrow> True | _ \<Rightarrow> False)"
| "retries Consumer r r' \<longleftrightarrow>
     (case (sp_consumer r, sp_consumer r') of (CLoaded rs, CStart) \<Rightarrow> True | _ \<Rightarrow> False)"

inductive blocking_step :: "WaitStrategy \<Rightarrow> 'a blocking \<Rightarrow> 'a blocking \<Rightarrow> bool" for strategy where
  ring: "spsc_step (bl_ring s) r \<Longrightarrow> (\<And>t. moves t (bl_ring s) r \<Longrightarrow> wt_phase (bl_wait s) t = Awake) \<Longrightarrow>
    blocking_step strategy s (s\<lparr>bl_ring := r, bl_wait := (bl_wait s)\<lparr>wt_phase :=
      (\<lambda>t. if retries t (bl_ring s) r then Waiting else wt_phase (bl_wait s) t)\<rparr>\<rparr>)"
| waiting: "wait_move strategy (bl_wait s) w \<Longrightarrow> blocking_step strategy s (s\<lparr>bl_wait := w\<rparr>)"

text \<open>Everything that may happen, spurious wakes included.\<close>

inductive any_step :: "WaitStrategy \<Rightarrow> 'a blocking \<Rightarrow> 'a blocking \<Rightarrow> bool" for strategy where
  step: "blocking_step strategy s s' \<Longrightarrow> any_step strategy s s'"
| spurious: "spurious_step (bl_wait s) w \<Longrightarrow> any_step strategy s (s\<lparr>bl_wait := w\<rparr>)"

definition blocking_init :: "'a blocking \<Rightarrow> bool" where
  "blocking_init s \<longleftrightarrow> spsc_init (bl_ring s) \<and> bl_wait s = awake_at (wt_now (bl_wait s))"

definition blocking_inv :: "'a blocking \<Rightarrow> bool" where
  "blocking_inv s \<longleftrightarrow> spsc_inv (bl_ring s) \<and> wait_inv (bl_wait s)"

lemma retries_moves: "retries t r r' \<Longrightarrow> moves t r r'"
  by (cases t) (auto split: producer.splits consumer.splits)

lemma blocking_step_inv: "blocking_step strategy s s' \<Longrightarrow> blocking_inv s \<Longrightarrow> blocking_inv s'"
proof (induction rule: blocking_step.induct)
  case (ring s r)
  have "wt_phase (bl_wait s) t = Awake" if "retries t (bl_ring s) r" for t
    using ring(2) retries_moves [OF that] by blast
  then have "wait_inv ((bl_wait s)\<lparr>wt_phase :=
      (\<lambda>t. if retries t (bl_ring s) r then Waiting else wt_phase (bl_wait s) t)\<rparr>)"
    using ring(3) by (auto simp: wait_inv_def blocking_inv_def)
  moreover have "spsc_inv r" using ring(1,3) by (simp add: blocking_inv_def spsc_step_inv)
  ultimately show ?case by (simp add: blocking_inv_def)
next
  case (waiting s w)
  then show ?case using wait_move_inv by (auto simp: blocking_inv_def)
qed

lemma awake_inv: "wait_inv (awake_at now)"
  by (simp add: wait_inv_def awake_at_def)

interpretation blocking: invariant_system blocking_init "any_step strategy" blocking_inv for strategy
proof
  show "blocking_inv s" if init: "blocking_init s" for s :: "'a blocking"
  proof -
    have "bl_wait s = awake_at (wt_now (bl_wait s))" using init by (simp add: blocking_init_def)
    then have "wait_inv (bl_wait s)" using awake_inv by metis
    then show ?thesis using init spsc.init_inv by (auto simp: blocking_init_def blocking_inv_def)
  qed
  show "blocking_inv s'" if "blocking_inv s" "any_step strategy s s'" for s s' :: "'a blocking"
    using that(2)
  proof cases
    case step
    then show ?thesis using blocking_step_inv that(1) by blast
  next
    case (spurious w)
    then show ?thesis using spurious_step_inv that(1) by (auto simp: blocking_inv_def)
  qed
qed

abbreviation blocking_reachable :: "WaitStrategy \<Rightarrow> 'a blocking \<Rightarrow> bool" where
  "blocking_reachable strategy \<equiv> reachable blocking_init (any_step strategy)"

abbreviation blocking_steps :: "WaitStrategy \<Rightarrow> 'a blocking \<Rightarrow> 'a blocking \<Rightarrow> bool" where
  "blocking_steps strategy \<equiv> (blocking_step strategy)\<^sup>*\<^sup>*"

section \<open>Attempts that succeed\<close>

text \<open>Steps of the buffer in which no attempt fails.\<close>

definition quiet :: "'a spsc \<Rightarrow> 'a spsc \<Rightarrow> bool" where
  "quiet r r' \<longleftrightarrow> spsc_step r r' \<and> (\<forall>t. \<not> retries t r r')"

lemma quietI: "spsc_step r r' \<Longrightarrow> \<not> retries Producer r r' \<Longrightarrow> \<not> retries Consumer r r' \<Longrightarrow> quiet r r'"
  unfolding quiet_def by (metis thread.exhaust)

lemma quiet_inv: "quiet\<^sup>*\<^sup>* r r' \<Longrightarrow> spsc_inv r \<Longrightarrow> spsc_inv r'"
  by (induction rule: rtranclp_induct) (auto simp: quiet_def intro: spsc_step_inv)

lemma quiet_size: "quiet\<^sup>*\<^sup>* r r' \<Longrightarrow> rb_size (sp_buffer r') = rb_size (sp_buffer r)"
proof (induction rule: rtranclp_induct)
  case (step y z)
  have "rb_size (sp_buffer z) = rb_size (sp_buffer y)"
    using step(2) unfolding quiet_def by (auto elim: spsc_step.cases)
  then show ?case using step.IH by simp
qed simp

lemma used_contents: "rb_used b = length (rb_contents b)"
  by (simp add: rb_contents_length rb_used_def rb_count_def)

lemma awake_runs:
  "quiet\<^sup>*\<^sup>* r r' \<Longrightarrow> blocking_steps strategy \<lparr>bl_ring = r, bl_wait = awake_at now\<rparr> \<lparr>bl_ring = r', bl_wait = awake_at now\<rparr>"
proof (induction rule: rtranclp_induct)
  case (step y z)
  have "blocking_step strategy \<lparr>bl_ring = y, bl_wait = awake_at now\<rparr> \<lparr>bl_ring = z, bl_wait = awake_at now\<rparr>"
    using blocking_step.ring [of "\<lparr>bl_ring = y, bl_wait = awake_at now\<rparr>" z strategy] step(2)
    by (simp add: quiet_def awake_at_def)
  then show ?case using step.IH by simp
qed simp

definition pops :: "'a \<Rightarrow> 'a spsc \<Rightarrow> bool" where
  "pops x r \<longleftrightarrow> (\<exists>r'. quiet\<^sup>*\<^sup>* r r' \<and> sp_popped r' = sp_popped r @ [x] \<and> sp_producer r' = sp_producer r \<and>
     sp_pushed r' = sp_pushed r)"

definition pushes :: "'a \<Rightarrow> 'a spsc \<Rightarrow> bool" where
  "pushes x r \<longleftrightarrow> (\<exists>r'. quiet\<^sup>*\<^sup>* r r' \<and> sp_pushed r' = sp_pushed r @ [x])"

lemma pops_step:
  "quiet r r' \<Longrightarrow> sp_popped r' = sp_popped r \<Longrightarrow> sp_producer r' = sp_producer r \<Longrightarrow>
   sp_pushed r' = sp_pushed r \<Longrightarrow> pops x r' \<Longrightarrow> pops x r"
  unfolding pops_def by (metis converse_rtranclp_into_rtranclp)

lemma pushes_step: "quiet\<^sup>*\<^sup>* r r' \<Longrightarrow> sp_pushed r' = sp_pushed r \<Longrightarrow> pushes x r' \<Longrightarrow> pushes x r"
  unfolding pushes_def by (metis rtranclp_trans)

text \<open>The consumer, from every point of \<^verbatim>\<open>pop\<close>.\<close>

lemma consumer_pops:
  assumes inv: "spsc_inv r" and contents: "rb_contents (sp_buffer r) = x # xs"
  shows "pops x r"
proof -
  let ?b = "sp_buffer r"
  have ok: "rb_ok ?b" and c_ok: "consumer_ok ?b (sp_consumer r)" using inv by (simp_all add: spsc_inv_def)
  have ne: "rb_read_sequence ?b \<noteq> rb_write_sequence ?b" using contents by (auto simp: rb_contents_def)
  have x: "rb_buffer ?b ! rb_slot ?b (rb_read_sequence ?b) = x"
    using release_slot(1) [OF ok ne] contents by simp
  let ?at = "\<lambda>c. r\<lparr>sp_consumer := c\<rparr>" and ?rs = "rb_read_sequence ?b"
  have read: "pops x (?at (CRead ?rs x))"
  proof -
    let ?r = "r\<lparr>sp_consumer := CIdle, sp_buffer := ?b\<lparr>rb_read_sequence := ?rs + 1\<rparr>, sp_popped := sp_popped r @ [x]\<rparr>"
    have "quiet (?at (CRead ?rs x)) ?r"
      using spsc_step.c_release [of "?at (CRead ?rs x)" ?rs x ?b] by (intro quietI) (simp_all split: producer.split)
    then show ?thesis unfolding pops_def by (intro exI [of _ ?r]) auto
  qed
  have ready: "pops x (?at (CReady ?rs))"
    using spsc_step.c_read [of "?at (CReady ?rs)" ?rs ?b] x
    by (intro pops_step [OF _ _ _ _ read] quietI) (simp_all split: producer.split)
  have loaded: "pops x (?at (CLoaded ?rs))"
    using spsc_step.c_ready [of "?at (CLoaded ?rs)" ?rs] ne
    by (intro pops_step [OF _ _ _ _ ready] quietI) (simp_all split: producer.split)
  have start: "pops x (?at CStart)"
    using spsc_step.c_load_own [of "?at CStart"]
    by (intro pops_step [OF _ _ _ _ loaded] quietI) (simp_all split: producer.split)
  have idle: "pops x (?at CIdle)"
    using spsc_step.c_call [of "?at CIdle"]
    by (intro pops_step [OF _ _ _ _ start] quietI) (simp_all split: producer.split)
  have self: "?at c = r" if "sp_consumer r = c" for c using that by (cases r) simp
  show ?thesis
  proof (cases "sp_consumer r")
    case CIdle
    show ?thesis using idle self [OF CIdle] CIdle by simp
  next
    case CStart
    show ?thesis using start self [OF CStart] CStart by simp
  next
    case (CLoaded rs)
    show ?thesis using loaded self [OF CLoaded] CLoaded c_ok by (metis consumer_ok.simps(3))
  next
    case (CReady rs)
    show ?thesis using ready self [OF CReady] CReady c_ok by (metis consumer_ok.simps(4))
  next
    case (CRead rs v)
    show ?thesis using read self [OF CRead] CRead c_ok x by (metis consumer_ok.simps(5))
  qed
qed

text \<open>The producer, when there is room.\<close>

fun pending_item :: "'a producer \<Rightarrow> 'a option" where
  "pending_item PIdle = None"
| "pending_item (PStart item) = Some item"
| "pending_item (PLoaded item ws) = Some item"
| "pending_item (PRoom item ws) = Some item"
| "pending_item (PWritten item ws) = Some item"

lemma producer_pushes:
  assumes inv: "spsc_inv r" and item: "pending_item (sp_producer r) = Some x"
    and room: "rb_used (sp_buffer r) + 1 < rb_size (sp_buffer r)"
  shows "pushes x r"
proof -
  let ?b = "sp_buffer r"
  let ?ws = "rb_write_sequence ?b"
  have ok: "rb_ok ?b" and p_ok: "producer_ok ?b (sp_producer r)" using inv by (simp_all add: spsc_inv_def)
  let ?at = "\<lambda>p. r\<lparr>sp_producer := p\<rparr>"
  have written: "pushes x r'" if "sp_producer r' = PWritten x ws" for r' ws
  proof -
    let ?r = "r'\<lparr>sp_producer := PIdle, sp_buffer := (sp_buffer r')\<lparr>rb_write_sequence := ws + 1\<rparr>, sp_pushed := sp_pushed r' @ [x]\<rparr>"
    have "quiet r' ?r"
      using spsc_step.p_publish [OF that refl] that by (intro quietI) (simp_all split: consumer.split)
    then show ?thesis unfolding pushes_def by (intro exI [of _ ?r]) auto
  qed
  have at_room: "pushes x (?at (PRoom x ?ws))"
  proof -
    let ?r = "r\<lparr>sp_producer := PWritten x ?ws, sp_buffer := ?b\<lparr>rb_buffer := (rb_buffer ?b)[rb_slot ?b ?ws := x]\<rparr>\<rparr>"
    have "quiet (?at (PRoom x ?ws)) ?r"
      using spsc_step.p_write [of "?at (PRoom x ?ws)" x ?ws ?b] by (intro quietI) (simp_all split: consumer.split)
    then show ?thesis using pushes_step [OF r_into_rtranclp _ written] by simp
  qed
  have loaded: "pushes x (?at (PLoaded x ?ws))"
    using spsc_step.p_room [of "?at (PLoaded x ?ws)" x ?ws] room_iff [OF ok] room
    by (intro pushes_step [OF r_into_rtranclp _ at_room] quietI) (simp_all split: consumer.split)
  have start: "pushes x (?at (PStart x))"
    using spsc_step.p_load_own [of "?at (PStart x)" x]
    by (intro pushes_step [OF r_into_rtranclp _ loaded] quietI) (simp_all split: consumer.split)
  have self: "?at p = r" if "sp_producer r = p" for p using that by (cases r) simp
  show ?thesis
  proof (cases "sp_producer r")
    case PIdle
    then show ?thesis using item by simp
  next
    case (PStart y)
    show ?thesis using start self [OF PStart] PStart item by (metis option.inject pending_item.simps(2))
  next
    case (PLoaded y ws)
    show ?thesis using loaded self [OF PLoaded] PLoaded item p_ok
      by (metis option.inject pending_item.simps(3) producer_ok.simps(3))
  next
    case (PRoom y ws)
    show ?thesis using at_room self [OF PRoom] PRoom item p_ok
      by (metis option.inject pending_item.simps(4) producer_ok.simps(4))
  next
    case (PWritten y ws)
    then show ?thesis using written item by simp
  qed
qed

lemma always_pushes:
  assumes inv: "spsc_inv r" and item: "pending_item (sp_producer r) = Some x"
  shows "pushes x r"
proof (cases "rb_used (sp_buffer r) + 1 < rb_size (sp_buffer r)")
  case True
  then show ?thesis by (rule producer_pushes [OF assms])
next
  case False
  have ok: "rb_ok (sp_buffer r)" and hist: "sp_pushed r = sp_popped r @ rb_contents (sp_buffer r)"
    using inv by (simp_all add: spsc_inv_def)
  then have size: "1 < rb_size (sp_buffer r)" "rb_used (sp_buffer r) < rb_size (sp_buffer r)"
    using size_ok_bounds by (auto simp: rb_ok_def rb_used_def)
  then have "length (rb_contents (sp_buffer r)) \<noteq> 0" using False by (simp add: used_contents) (metis One_nat_def list.size(3))
  then obtain y ys where y: "rb_contents (sp_buffer r) = y # ys" by (cases "rb_contents (sp_buffer r)") auto
  from consumer_pops [OF inv this] obtain r' where r': "quiet\<^sup>*\<^sup>* r r'" "sp_popped r' = sp_popped r @ [y]"
    "sp_producer r' = sp_producer r" "sp_pushed r' = sp_pushed r" by (auto simp: pops_def)
  have inv': "spsc_inv r'" by (rule quiet_inv [OF r'(1) inv])
  then have "sp_pushed r' = sp_popped r' @ rb_contents (sp_buffer r')" by (simp add: spsc_inv_def)
  then have "rb_contents (sp_buffer r') = ys" using hist y r'(2,4) by simp
  then have "rb_used (sp_buffer r') + 1 = rb_used (sp_buffer r)"
    using y used_contents [of "sp_buffer r"] used_contents [of "sp_buffer r'"] by simp
  then have "rb_used (sp_buffer r') + 1 < rb_size (sp_buffer r')" using size(2) quiet_size [OF r'(1)] by simp
  from producer_pushes [OF inv' _ this] show ?thesis
    using item r'(3) pushes_step [OF r'(1,4)] by simp
qed

section \<open>Properties\<close>

text \<open>C40: nobody is stuck.  Take any state two threads reach with blocking calls on one buffer, under any of
  the three wait strategies, no matter who sleeps or wants the mutex.  From there on nobody wakes for
  no reason and nobody is notified; only the time limit of \<^verbatim>\<open>wait_for\<close> brings a sleeper back.  Then, first,
  the waits under way end: in whatever order the threads take the steps of these waits, after at most
  ten of them both threads are back at the buffer, and until then some thread can take a step now or
  when at most 1000 nanoseconds have passed.  Second, all waits can be over within two microseconds, with the buffer as it
  is.  Third, a push under way can complete, even if the buffer is full now, and the oldest item can
  be popped.  And at most one thread is inside the mutex.\<close>

theorem blocking_never_stuck:
  assumes "blocking_reachable strategy s"
  shows "(\<forall>n w. wait_run strategy n (bl_wait s) w \<longrightarrow> n \<le> 10 \<and>
      ((\<forall>t. wt_phase w t = Awake) \<or> (\<exists>k \<le> 1000. \<exists>t w'. wait_step strategy t (tick k w) w'))) \<and>
    (\<exists>now \<le> wt_now (bl_wait s) + 2000. blocking_steps strategy s (s\<lparr>bl_wait := awake_at now\<rparr>)) \<and>
    (\<forall>x. pending_item (sp_producer (bl_ring s)) = Some x \<longrightarrow>
       (\<exists>s'. blocking_steps strategy s s' \<and> sp_pushed (bl_ring s') = sp_pushed (bl_ring s) @ [x])) \<and>
    (\<forall>x xs. rb_contents (sp_buffer (bl_ring s)) = x # xs \<longrightarrow>
       (\<exists>s'. blocking_steps strategy s s' \<and> sp_popped (bl_ring s') = sp_popped (bl_ring s) @ [x])) \<and>
    (\<forall>t u. {wt_phase (bl_wait s) t, wt_phase (bl_wait s) u} \<subseteq> {Holding, Leaving} \<longrightarrow> t = u)"
proof -
  have inv: "spsc_inv (bl_ring s)" "wait_inv (bl_wait s)"
    using blocking.reachable_inv [OF assms] by (simp_all add: blocking_inv_def)
  have ends: "n \<le> 10 \<and> ((\<forall>t. wt_phase w t = Awake) \<or> (\<exists>k \<le> 1000. \<exists>t w'. wait_step strategy t (tick k w) w'))"
    if run: "wait_run strategy n (bl_wait s) w" for n w
  proof
    show "n \<le> 10" using wait_run_left [OF run] at_most_ten [of "bl_wait s"] by simp
    show "(\<forall>t. wt_phase w t = Awake) \<or> (\<exists>k \<le> 1000. \<exists>t w'. wait_step strategy t (tick k w) w')"
      using someone_steps [OF wait_run_inv [OF run inv(2)]] by metis
  qed
  have lift: "blocking_steps strategy (s\<lparr>bl_wait := w\<rparr>) (s\<lparr>bl_wait := w'\<rparr>)" if "wait_moves strategy w w'" for w w'
    using that
  proof (induction rule: rtranclp_induct)
    case (step y z)
    have "blocking_step strategy (s\<lparr>bl_wait := y\<rparr>) (s\<lparr>bl_wait := z\<rparr>)"
      using blocking_step.waiting [of strategy "s\<lparr>bl_wait := y\<rparr>" z] step(2) by simp
    then show ?case using step.IH by simp
  qed simp
  obtain now where now: "now \<le> wt_now (bl_wait s) + 1000 * all_naps (bl_wait s)"
    "wait_moves strategy (bl_wait s) (awake_at now)" using all_awake [OF inv(2)] by blast
  have soon: "now \<le> wt_now (bl_wait s) + 2000" using now(1) at_most_two [of "bl_wait s"] by simp
  have awake: "blocking_steps strategy s (s\<lparr>bl_wait := awake_at now\<rparr>)" using lift [OF now(2)] by simp
  have runs: "blocking_steps strategy s \<lparr>bl_ring = r, bl_wait = awake_at now\<rparr>" if "quiet\<^sup>*\<^sup>* (bl_ring s) r" for r
  proof -
    have "s\<lparr>bl_wait := awake_at now\<rparr> = \<lparr>bl_ring = bl_ring s, bl_wait = awake_at now\<rparr>" by (cases s) simp
    then show ?thesis using awake awake_runs [OF that, of strategy now] by (metis rtranclp_trans)
  qed
  have push: "\<exists>s'. blocking_steps strategy s s' \<and> sp_pushed (bl_ring s') = sp_pushed (bl_ring s) @ [x]"
    if "pending_item (sp_producer (bl_ring s)) = Some x" for x
    using always_pushes [OF inv(1) that] runs unfolding pushes_def by (metis blocking.select_convs(1))
  have pop: "\<exists>s'. blocking_steps strategy s s' \<and> sp_popped (bl_ring s') = sp_popped (bl_ring s) @ [x]"
    if "rb_contents (sp_buffer (bl_ring s)) = x # xs" for x xs
    using consumer_pops [OF inv(1) that] runs unfolding pops_def by (metis blocking.select_convs(1))
  have "t = u" if "{wt_phase (bl_wait s) t, wt_phase (bl_wait s) u} \<subseteq> {Holding, Leaving}" for t u
    using that inv(2) unfolding wait_inv_def by (metis insert_subset option.inject)
  then show ?thesis using ends soon awake push pop by blast
qed

definition demo_blocking :: "nat blocking" where
  "demo_blocking = \<lparr>bl_ring = \<lparr>sp_buffer = HPRingBuffer_init 4 0, sp_producer = PStart 7, sp_consumer = CIdle,
     sp_pushed = [], sp_popped = []\<rparr>, bl_wait = awake_at 0\<rparr>"

theorem blocking_never_stuck_witness:
  "\<exists>s'. blocking_steps BlockWait demo_blocking s' \<and> sp_pushed (bl_ring s') = [7]"
proof -
  let ?r = "(bl_ring demo_blocking)\<lparr>sp_producer := PIdle\<rparr>"
  have size: "size_ok 4" unfolding size_ok_def by (intro exI [of _ 2]) simp
  have calm: "\<not> retries t ?r (bl_ring demo_blocking)" for t by (cases t) (simp_all add: demo_blocking_def)
  have start: "blocking_init (demo_blocking\<lparr>bl_ring := ?r\<rparr>)"
    using init_ok [OF size, of "0 :: nat"] by (simp add: blocking_init_def spsc_init_def demo_blocking_def awake_at_def)
  have "blocking_step BlockWait (demo_blocking\<lparr>bl_ring := ?r\<rparr>) demo_blocking"
  proof -
    have call: "spsc_step ?r (bl_ring demo_blocking)"
      using spsc_step.p_call [of ?r 7] by (simp add: demo_blocking_def)
    have awake: "wt_phase (bl_wait demo_blocking) t = Awake" for t
      by (simp add: demo_blocking_def awake_at_def)
    have same: "demo_blocking\<lparr>bl_wait := (bl_wait demo_blocking)\<lparr>wt_phase := \<lambda>t. Awake\<rparr>\<rparr> = demo_blocking"
      by (simp add: demo_blocking_def awake_at_def)
    from blocking_step.ring [of "demo_blocking\<lparr>bl_ring := ?r\<rparr>" "bl_ring demo_blocking" BlockWait]
    show ?thesis using call awake calm by (simp add: same)
  qed
  with reachable_init [of blocking_init, OF start] any_step.step have "blocking_reachable BlockWait demo_blocking"
    by (metis reachable_step)
  from blocking_never_stuck [OF this] have "\<forall>x. pending_item (sp_producer (bl_ring demo_blocking)) = Some x \<longrightarrow>
      (\<exists>s'. blocking_steps BlockWait demo_blocking s' \<and> sp_pushed (bl_ring s') = sp_pushed (bl_ring demo_blocking) @ [x])"
    by (elim conjE)
  moreover have "pending_item (sp_producer (bl_ring demo_blocking)) = Some 7" "sp_pushed (bl_ring demo_blocking) = []"
    by (simp_all add: demo_blocking_def)
  ultimately show ?thesis by (metis append_Nil)
qed

end
