(* ===== verification/Spec2Isabelle.thy ===== *)
theory Spec2Isabelle
  imports L3Properties L3Queries RiskProperties RingOrders Monitoring Feeds MatchingProperties
    MarketData SimpleBookProperties TradePositions PoolConcurrent Symbols RingBlocking
    Telemetry Latencies ScopeTimers Benchmark BooksAgree EngineLimits Clearing
    MarketFeed Events WaitStrategies
begin

text \<open>
  HFT-sdk is a C++ library for simulating an exchange.  Its core is an order-level limit order book
  (\<^verbatim>\<open>src/orderbook\<close>).  A matching engine (\<^verbatim>\<open>src/market/matching_engine\<close>) keeps one such book per
  symbol, asks a risk engine (\<^verbatim>\<open>src/risk\<close>) before every submission and feeds summaries of the books
  to its callbacks.  A market data engine throttles and queues updates through a single-producer
  single-consumer ring buffer (\<^verbatim>\<open>src/HPRingBuffer.hpp\<close>); a trade engine keeps positions; the rest
  are a simpler order book, an object pool, latency models, timers and metrics.

  \<^bold>\<open>Theories and code.\<close>

  \<^item> \<open>Prelude\<close>: 64-bit signed arithmetic (\<open>wrap64\<close>), list lemmas, reachability and the locale
    \<open>invariant_system\<close> (initial states and steps that keep an invariant), interpreted for every
    component with state.
  \<^item> \<open>Types\<close>, \<open>Symbols\<close>, \<open>Events\<close>: \<^verbatim>\<open>common/types.hpp\<close> and the constants of \<^verbatim>\<open>common/constants.hpp\<close>;
    symbols, their text and their hash; the event envelope.  \<open>Floats\<close>: the parameter that stands for \<^verbatim>\<open>double\<close>.
  \<^item> \<open>PriceLevels\<close>: \<^verbatim>\<open>std::map\<close> from a price to a queue as an ordered association list; the locale
    \<open>price_levels\<close> holds the laws both sides of a book use, interpreted for bids and asks.
  \<^item> \<open>L3Book\<close>: \<^verbatim>\<open>orderbook/l3_order_book.hpp\<close> and \<^verbatim>\<open>.cpp\<close>, operation by operation.  \<open>L3Match\<close>
    relates the matching loops to a list of fills, \<open>L3Invariant\<close> states the invariant and shows that
    submission keeps it, \<open>L3Operations\<close> does cancelling and replacing, \<open>L3Reachable\<close> is the system of
    operation sequences, \<open>L3Spec\<close> the abstract book (a list of orders per side in priority order)
    and the simulation, \<open>L3Orders\<close> the locale \<open>order_property\<close> of what every resting order of a
    reachable book satisfies, \<open>L3Priority\<close> the order of priority (price, then handle, which is the
    order of arrival) and that both sides of every reachable book are sorted by it, \<open>MatchInterface\<close> the locale \<open>priority_matcher\<close> of what a book promises about
    matching, \<open>L3Properties\<close> and \<open>L3Queries\<close> the properties.
  \<^item> \<open>Risk\<close>, \<open>RiskProperties\<close>: \<^verbatim>\<open>risk/risk_engine.hpp\<close> and \<^verbatim>\<open>.cpp\<close>.
  \<^item> \<open>RingBuffer\<close>, \<open>RingConcurrent\<close>, \<open>RingBlocking\<close>: \<^verbatim>\<open>HPRingBuffer.hpp\<close>, first used by one thread
    (locale \<open>bounded_queue\<close>), then as the interleaving of one producer and one consumer, every atomic
    access a step, then the blocking operations with the moves of the other thread during a wait.
    \<open>RingWeak\<close> is the same interleaving under the memory orders the code names, \<open>RingOrders\<close> compares
    the two.
    \<open>WaitStrategies\<close>: \<^verbatim>\<open>wait_strategies.hpp\<close>, with two threads that block on one buffer.
  \<^item> \<open>Feeds\<close>: \<^verbatim>\<open>common/clock\<close>, \<^verbatim>\<open>orderbook/l2_aggregator\<close>, \<^verbatim>\<open>orderbook/l1_feed\<close>,
    \<^verbatim>\<open>market/market_data_publisher\<close>.
  \<^item> \<open>Matching\<close>, \<open>MatchingSystem\<close>, \<open>MatchingRouting\<close>, \<open>MatchingProperties\<close>, \<open>EngineLimits\<close>:
    \<^verbatim>\<open>market/matching_engine.hpp\<close> and \<^verbatim>\<open>.cpp\<close>, over the models of the book, the risk engine and the
    feeds; the system of operation sequences, the routing of cancels by order identifier, the
    properties, and the position limits over engine and risk engine together.
  \<^item> \<open>MarketData\<close>: \<^verbatim>\<open>market/market_data_engine\<close>, over the ring buffer with its 16384 slots.
  \<^item> \<open>EngineOutputs\<close> says what a client sees of an engine operation, and three theories put components
    together as \<^verbatim>\<open>market/README.md\<close> describes it: \<open>Clearing\<close> (engine, risk engine and trade
    engine), \<open>Monitoring\<close> (engine and telemetry) and \<open>MarketFeed\<close> (engine, market data engine and a
    subscriber).
  \<^item> \<open>SimpleBook\<close>, \<open>SimpleBookProperties\<close>: \<^verbatim>\<open>market/order_book\<close>, related to the abstract book of
    \<open>L3Spec\<close>; \<open>BooksAgree\<close> shows that the two order books match alike.
  \<^item> \<open>TradePositions\<close>: \<^verbatim>\<open>market/trade_engine\<close>.  \<open>ObjectPool\<close>: \<^verbatim>\<open>common/memory_pool.hpp\<close>, by one thread
    and as interleaved steps of several; \<open>PoolConcurrent\<close>: one allocating thread among several.
  \<^item> \<open>Histogram\<close>, \<open>Telemetry\<close>: \<^verbatim>\<open>metrics\<close>.  \<open>Latencies\<close>: \<^verbatim>\<open>latency/latency_model\<close>.  \<open>ScopeTimers\<close>:
    \<^verbatim>\<open>ScopeTimer.hpp\<close>.  \<open>Benchmark\<close>: \<^verbatim>\<open>benchmark_p99.hpp\<close>.

  \<^bold>\<open>How the code is represented.\<close>

  \<^item> A structure is a record, an enumeration a datatype.  Signed 64-bit numbers are integers with
    every operation wrapped; unsigned numbers are words of their width.
  \<^item> \<^verbatim>\<open>std::unordered_map\<close> is a partial map, or an association list where the code iterates over it.
    An iterator into a linked list is a handle stored in the node; using one whose node is gone is
    \<^const>\<open>None\<close>, as is reading the inactive member of a union, a failed assertion or running off the end
    of a function with a result.  The theorems show which of these never happen.
  \<^item> A callback is a flag or a number, and an operation returns the calls it makes in order; callbacks
    that call back into the component are outside the model.  A reading of a clock is an argument.
  \<^item> Floating-point operations are the fields of a record parameter.  Statements about averages,
    money and sampled latencies use \<open>exact_ops\<close>, where they are exact, and say \<open>without rounding\<close>; the
    others, percentiles included, hold for any operations.  The random distributions of the latency
    model are a parameter too, with no bound on what they return: the theorem on latencies bounds the
    draws it is about.
  \<^item> A value the code leaves uninitialized is absent: the last top of book of an L1 feed is
    \<^const>\<open>None\<close> until the first update.
  \<^item> Loops are structural recursions over the data they traverse.  The drain loop of the market data
    engine has no such bound and is a partial function, proved to return; the blocking operations of
    the ring buffer recurse over the waits.  There is no fuel.

  \<^bold>\<open>What the theorems show.\<close>

  \<^item> The order book: a well-formedness invariant over all operation sequences, a simulation by the
    abstract book for submission, cancel and replace, price-time priority, conservation of quantity,
    fill-or-kill, status reports, which orders come to rest, and the exactness of the depth queries
    and of the top of the book.
  \<^item> The risk engine: which check decides, the position limits over interleaved orders and fills, and
    the rate limit as a sliding window.
  \<^item> The ring buffer: first in first out under every interleaving, the absence of data races under
    release and acquire (and their presence under relaxed orders, lemma \<open>relaxed_race\<close>), where
    every execution amounts to a sequentially consistent one, the refinement of a bounded queue, and
    when the blocking operations return.
  \<^item> The matching engine: its invariant (so that no operation dereferences a dangling iterator), the
    effect of a submission on book, risk engine and callbacks, the routing of cancels, and the limits
    on the positions the risk engine records, whatever the clients submit.
  \<^item> Compositions: the accounts of the trade engine reconcile with the books, and differ from the
    positions of the risk engine by exactly the fills it is not told about; the dashboard differs from
    the counters of the engine by exactly the reports of the books; a subscriber gets what the
    book publishes, in order, and is never behind unless one operation causes more events than the
    queue has room for; threads that block on the ring buffer with the blocking strategy are awake
    again within two time limits although nobody notifies them, and are never stuck.
  \<^item> The other components: throttling against its specification and the draining of the queue, the
    refinement of the abstract book by the simple one, zero-sum positions and profit and loss, the
    exclusive ownership of pool slots (under every interleaving when one thread allocates),
    percentiles within half a bucket of the sample of the rank the code computes, the hash of symbols,
    everything the dashboard prints with averages within the fixed-point resolution, ranges and
    replay of sampled latencies, nested timers and the percentiles of a benchmark.
  \<^item> Where the code falls short of its purpose a theorem says how: positions that flip through zero, the
    double allocation of a pool slot by two allocating threads, the stale second measurement of a
    labelled timer, depth snapshots that a throttle always drops.

  \<^bold>\<open>Bounds.\<close>  The queue of the market data engine holds 16383 messages; a pool has fewer than \<^verbatim>\<open>2^32\<close>
  slots because indices are stored in 32 bits; the latency theorem asks that the largest latency of a
  profile, for draws within a bound \<open>Z\<close>, is below \<^verbatim>\<open>2^62\<close>, so that the sum of three legs fits into 64
  bits (the built-in profiles allow every \<open>Z\<close> up to \<^verbatim>\<open>10^12\<close>).  \<open>WaitStrategies\<close> keeps a clock in
  nanoseconds: a sleeping thread may go on 1000 of them after it fell asleep, its time limit.

  \<^bold>\<open>Not modelled.\<close>  The weak memory orders of the pool's atomics: its interleavings are
  sequentially consistent, and two allocating threads are shown to fail already there (the ring
  buffer has its orders).  The layout of the console output.  Members that are
  declared and never defined.  The compile-time switch that disables timers.  The library anchor, the test program and the example
  (a rich-text document).  The repository has no program that connects the components; the
  compositions follow its documentation.
\<close>

end
